(* ===== verification/Prelude.thy ===== *)
theory Prelude
  imports Main "HOL-Library.Word" "HOL-Library.Monad_Syntax" "HOL-Library.Code_Target_Nat"
begin

text \<open>
  Shared vocabulary of the development: the machine-level types of the C code, the
  collections of facts that the component theories extend, and the generic lemmas on
  lists, options and words that several components use.
\<close>

unbundle bit_operations_syntax

section \<open>Machine types\<close>

type_synonym u8 = "8 word"
type_synonym u16 = "16 word"
type_synonym u32 = "32 word"
type_synonym u64 = "64 word"
type_synonym bytes = "u8 list"

text \<open>
  A C computation that may run into undefined behaviour (a NULL dereference, an access
  outside an array, a read of an uninitialised buffer) has an \<open>option\<close> result and
  \<open>None\<close> is the undefined behaviour. Error codes are ordinary values.
\<close>

type_synonym 'a ub = "'a option"

text \<open>The conversion of a \<open>long\<close> value to the 32-bit \<open>int\<close> of the platform.\<close>

definition c_int :: "int \<Rightarrow> int" where
  "c_int n = signed_take_bit 31 n"

lemma c_int_id: "- (2 ^ 31) \<le> n \<Longrightarrow> n < 2 ^ 31 \<Longrightarrow> c_int n = n"
  by (simp add: c_int_def signed_take_bit_int_eq_self_iff)

lemma c_int_range: "- (2 ^ 31) \<le> c_int n \<and> c_int n < 2 ^ 31"
  unfolding c_int_def
  by (intro conjI signed_take_bit_int_greater_eq_minus_exp signed_take_bit_int_less_exp)

section \<open>Collections of facts\<close>

named_theorems cstring_simps \<open>equations of the C string functions\<close>
named_theorems pool_simps \<open>effect of the address pool operations\<close>
named_theorems frame_simps \<open>components an operation leaves unchanged\<close>

section \<open>Lists\<close>

lemma length_filter_mono:
  "(\<And>x. x \<in> set xs \<Longrightarrow> P x \<Longrightarrow> Q x) \<Longrightarrow> length (filter P xs) \<le> length (filter Q xs)"
  by (induction xs) (auto simp: le_SucI)

lemma find_Some_set: "List.find P xs = Some x \<Longrightarrow> x \<in> set xs \<and> P x"
  by (induction xs) (auto split: if_splits)

lemma find_None_iff_all: "List.find P xs = None \<longleftrightarrow> (\<forall>x \<in> set xs. \<not> P x)"
  by (induction xs) auto

lemma take_all_le: "length xs \<le> n \<Longrightarrow> take n xs = xs"
  by simp

lemma takeWhile_all: "(\<And>x. x \<in> set xs \<Longrightarrow> P x) \<Longrightarrow> takeWhile P xs = xs"
  by (induction xs) auto

section \<open>Words\<close>

lemma u32_bound: "unat (w :: u32) < 2 ^ 32"
  using unsigned_less [of w] by simp

lemma word_add_unat_less:
  "unat (a :: 'a::len word) + k < 2 ^ LENGTH('a) \<Longrightarrow> unat (a + of_nat k) = unat a + k"
  by (metis le_add2 of_nat_inverse order.strict_trans1 unat_add_lem unat_of_nat
      word_arith_nat_add)

lemma word_add_of_nat_diff:
  "k < 2 ^ LENGTH('a) \<Longrightarrow> unat ((a :: 'a::len word) + of_nat k - a) = k"
  by (simp add: unat_of_nat)

lemma mult_of_8_bit: "i = (i div 8) * 8 + i mod (8 :: nat)"
  by simp

lemma same_bit_address: "i div 8 = j div 8 \<Longrightarrow> i mod 8 = j mod 8 \<Longrightarrow> i = (j :: nat)"
  by (metis div_mult_mod_eq)

text \<open>The masks of a CIDR prefix, with \<open>h\<close> host bits.\<close>

lemma not_push_ones: "NOT (push_bit h (NOT 0)) = (mask h :: u32)"
  by (rule bit_eqI) (auto simp: bit_simps)

lemma and_push_ones: "(w :: u32) AND push_bit h (NOT 0) = push_bit h (drop_bit h w)"
  by (rule bit_eqI) (auto simp: bit_simps)

lemma unat_aligned:
  assumes "h \<le> 32" shows "unat ((w :: u32) AND push_bit h (NOT 0)) = unat w div 2 ^ h * 2 ^ h"
proof -
  have "unat w div 2 ^ h * 2 ^ h \<le> unat w" by simp
  then have "unat w div 2 ^ h * 2 ^ h < 2 ^ 32" using u32_bound [of w] by linarith
  then show ?thesis
    unfolding and_push_ones unsigned_push_bit_eq unat_drop_bit_eq
    by (simp add: push_bit_eq_mult drop_bit_eq_div take_bit_nat_eq_self)
qed

lemma unat_aligned_or:
  assumes "h < 32"
  shows "unat (((w :: u32) AND push_bit h (NOT 0)) OR mask h) = unat w div 2 ^ h * 2 ^ h + (2 ^ h - 1)"
proof -
  let ?s = "w AND push_bit h (NOT 0)"
  have "?s OR mask h = ?s + mask h"
    by (rule disjunctive_add [symmetric]) (auto simp: bit_simps)
  moreover have m: "unat (mask h :: u32) = 2 ^ h - 1"
  proof -
    have "(2 :: nat) ^ h \<le> 2 ^ 32" using assms by (intro power_increasing) auto
    then have "mask h < (2 :: nat) ^ LENGTH(32)"
      by (simp add: mask_eq_exp_minus_1 less_eq_Suc_le)
    then have "unat (of_nat (mask h) :: u32) = mask h" by (rule of_nat_inverse [OF refl])
    then have "unat (mask h :: u32) = mask h" unfolding of_nat_mask_eq .
    also have "\<dots> = 2 ^ h - 1" by (rule mask_eq_exp_minus_1)
    finally show ?thesis .
  qed
  moreover have "unat w div 2 ^ h * 2 ^ h + (2 ^ h - 1) < 2 ^ 32"
  proof -
    have "unat w div 2 ^ h < 2 ^ (32 - h)"
      using u32_bound [of w] assms
      by (simp add: less_mult_imp_div_less flip: power_add)
    then have "(unat w div 2 ^ h + 1) * 2 ^ h \<le> 2 ^ (32 - h) * 2 ^ h"
      by (intro mult_right_mono) auto
    also have "\<dots> = 2 ^ 32" using assms by (simp flip: power_add)
    finally show ?thesis by (simp add: algebra_simps)
  qed
  ultimately show ?thesis
    using unat_aligned [of h w] assms by (simp add: unat_word_ariths)
qed

end
