(* ===== verification/CLib.thy ===== *)
theory CLib
  imports Prelude
begin

text \<open>
  The functions of the C library that the program calls on strings and addresses. A C
  string is a list of characters without the terminating NUL; a buffer of \<open>n\<close> bytes
  filled by \<open>strncpy (buf, s, n - 1)\<close> and terminated holds \<open>take (n - 1) s\<close>.
  The address functions are those of POSIX for the family AF_INET, with addresses in
  host byte order (the code applies \<open>ntohl\<close> and \<open>htonl\<close> around them).
\<close>

section \<open>Characters and strings\<close>

definition isspace :: "char \<Rightarrow> bool" where
  "isspace c \<longleftrightarrow> c = CHR '' '' \<or> (9 \<le> (of_char c :: nat) \<and> (of_char c :: nat) \<le> 13)"

definition isdigit :: "char \<Rightarrow> bool" where
  "isdigit c \<longleftrightarrow> 48 \<le> (of_char c :: nat) \<and> (of_char c :: nat) \<le> 57"

definition isxdigit :: "char \<Rightarrow> bool" where
  "isxdigit c \<longleftrightarrow> isdigit c \<or> (65 \<le> (of_char c :: nat) \<and> (of_char c :: nat) \<le> 70)
     \<or> (97 \<le> (of_char c :: nat) \<and> (of_char c :: nat) \<le> 102)"

definition tolower :: "char \<Rightarrow> char" where
  "tolower c = (if 65 \<le> (of_char c :: nat) \<and> (of_char c :: nat) \<le> 90
     then char_of ((of_char c :: nat) + 32) else c)"

definition strcasecmp_eq :: "string \<Rightarrow> string \<Rightarrow> bool" where
  "strcasecmp_eq s t \<longleftrightarrow> map tolower s = map tolower t"

text \<open>The string that starts at the beginning of a buffer.\<close>

definition cstr :: "string \<Rightarrow> string" where
  "cstr b = takeWhile (\<lambda>c. c \<noteq> CHR 0x00) b"

text \<open>
  \<open>p = strchr (s, c)\<close> followed by \<open>*p = 0\<close>: the part before the first \<open>c\<close>, and the
  part after it if there is one.
\<close>

definition cut_at :: "char \<Rightarrow> string \<Rightarrow> string \<times> string option" where
  "cut_at c s = (takeWhile (\<lambda>x. x \<noteq> c) s,
     if c \<in> set s then Some (tl (dropWhile (\<lambda>x. x \<noteq> c) s)) else None)"

lemma cut_at_here [cstring_simps]: "c \<notin> set s \<Longrightarrow> cut_at c (s @ c # t) = (s, Some t)"
  by (auto simp: cut_at_def takeWhile_append dropWhile_append)

lemma cut_at_none [cstring_simps]: "c \<notin> set s \<Longrightarrow> cut_at c s = (s, None)"
  by (auto simp: cut_at_def intro: takeWhile_all)

lemma cut_at_append:
  "cut_at c s = (a, Some b) \<Longrightarrow> s = a @ c # b \<and> c \<notin> set a"
proof (induction s arbitrary: a)
  case Nil
  then show ?case by (simp add: cut_at_def)
next
  case (Cons x s)
  show ?case
  proof (cases "x = c")
    case True
    with Cons.prems show ?thesis by (simp add: cut_at_def)
  next
    case False
    with Cons.prems have "cut_at c s = (tl a, Some b)" and "a = x # tl a"
      by (auto simp: cut_at_def split: if_splits)
    with Cons.IH [of "tl a"] False show ?thesis by (metis append_Cons set_ConsD)
  qed
qed

section \<open>Numbers\<close>

definition digit_val :: "char \<Rightarrow> nat" where
  "digit_val c = (of_char c :: nat) - 48"

definition digits_val :: "string \<Rightarrow> nat" where
  "digits_val ds = foldl (\<lambda>a c. 10 * a + digit_val c) 0 ds"

definition digit_char :: "nat \<Rightarrow> char" where
  "digit_char d = char_of (48 + d)"

text \<open>The decimal representation printed by \<open>%u\<close> and \<open>%d\<close> for non-negative values.\<close>

fun dec_of_nat :: "nat \<Rightarrow> string" where
  "dec_of_nat n = (if n < 10 then [digit_char n] else dec_of_nat (n div 10) @ [digit_char (n mod 10)])"

declare dec_of_nat.simps [simp del]

definition dec_of_int :: "int \<Rightarrow> string" where
  "dec_of_int n = (if n < 0 then CHR ''-'' # dec_of_nat (nat (- n)) else dec_of_nat (nat n))"

lemma of_char_digit_char [simp]: "d < 10 \<Longrightarrow> (of_char (digit_char d) :: nat) = 48 + d"
  by (simp add: digit_char_def)

lemma isdigit_digit_char [simp]: "d < 10 \<Longrightarrow> isdigit (digit_char d)"
  by (simp add: isdigit_def)

lemma digit_val_digit_char [simp]: "d < 10 \<Longrightarrow> digit_val (digit_char d) = d"
  by (simp add: digit_val_def)

lemma digits_val_snoc: "digits_val (ds @ [c]) = 10 * digits_val ds + digit_val c"
  by (simp add: digits_val_def)

lemma digits_val_dec_of_nat [simp]: "digits_val (dec_of_nat n) = n"
proof (induction n rule: dec_of_nat.induct)
  case (1 n)
  then show ?case
    by (subst dec_of_nat.simps) (simp add: digits_val_snoc, simp add: digits_val_def)
qed

lemma dec_of_nat_digits: "c \<in> set (dec_of_nat n) \<Longrightarrow> isdigit c"
proof (induction n rule: dec_of_nat.induct)
  case (1 n)
  then show ?case
    by (subst (asm) (2) dec_of_nat.simps) (auto split: if_splits)
qed

lemma dec_of_nat_not_Nil [simp]: "dec_of_nat n \<noteq> []"
  by (subst dec_of_nat.simps) simp

lemma hd_dec_of_nat: "10 \<le> n \<Longrightarrow> hd (dec_of_nat n) \<noteq> CHR ''0''"
proof (induction n rule: dec_of_nat.induct)
  case (1 n)
  show ?case
  proof (cases "n div 10 < 10")
    case True
    have "dec_of_nat n = dec_of_nat (n div 10) @ [digit_char (n mod 10)]"
      using "1.prems" by (subst dec_of_nat.simps) simp
    moreover have "dec_of_nat (n div 10) = [digit_char (n div 10)]"
      using True by (subst dec_of_nat.simps) simp
    moreover have "digit_char (n div 10) \<noteq> CHR ''0''"
    proof
      assume "digit_char (n div 10) = CHR ''0''"
      then have "(of_char (digit_char (n div 10)) :: nat) = 48" by simp
      with True "1.prems" show False by simp
    qed
    ultimately show ?thesis by simp
  next
    case False
    with "1.IH" "1.prems" have "hd (dec_of_nat (n div 10)) \<noteq> CHR ''0''" by simp
    with "1.prems" show ?thesis by (subst dec_of_nat.simps) simp
  qed
qed

lemma length_dec_of_nat_le3: "n < 1000 \<Longrightarrow> length (dec_of_nat n) \<le> 3"
  by (subst dec_of_nat.simps, subst dec_of_nat.simps, subst dec_of_nat.simps) auto

text \<open>
  \<open>strtol (s, &end, 10)\<close>: the value, clamped to the range of a 64-bit \<open>long\<close>, and the
  rest of the string at \<open>end\<close>. Without a digit the value is 0 and \<open>end\<close> is \<open>s\<close>.
\<close>

definition clamp_long :: "int \<Rightarrow> int" where
  "clamp_long n = max (- (2 ^ 63)) (min (2 ^ 63 - 1) n)"

definition strtol :: "string \<Rightarrow> int \<times> string" where
  "strtol s =
     (let t = dropWhile isspace s;
          neg = (t \<noteq> [] \<and> hd t = CHR ''-'');
          u = (if t \<noteq> [] \<and> (hd t = CHR ''-'' \<or> hd t = CHR ''+'') then tl t else t);
          ds = takeWhile isdigit u;
          v = int (digits_val ds)
      in if ds = [] then (0, s)
         else (clamp_long (if neg then - v else v), dropWhile isdigit u))"

definition atoi :: "string \<Rightarrow> int" where
  "atoi s = c_int (fst (strtol s))"

lemma isdigit_not_space: "isdigit c \<Longrightarrow> \<not> isspace c"
  by (auto simp: isdigit_def isspace_def)

lemma isdigit_not_sign: "isdigit c \<Longrightarrow> c \<noteq> CHR ''-'' \<and> c \<noteq> CHR ''+''"
  by (auto simp: isdigit_def)

lemma strtol_digits:
  assumes "ds \<noteq> []" and "\<And>c. c \<in> set ds \<Longrightarrow> isdigit c" and "rest = [] \<or> \<not> isdigit (hd rest)"
    and "int (digits_val ds) < 2 ^ 63"
  shows "strtol (ds @ rest) = (int (digits_val ds), rest)"
proof -
  obtain d ds' where ds: "ds = d # ds'" using assms(1) by (cases ds) auto
  have d: "isdigit d" using assms(2) ds by simp
  have dw: "dropWhile isspace (ds @ rest) = ds @ rest"
    using isdigit_not_space [OF d] by (simp add: ds)
  have tw: "takeWhile isdigit (ds @ rest) = ds \<and> dropWhile isdigit (ds @ rest) = rest"
    using assms(2,3) by (cases rest) (auto simp: takeWhile_append dropWhile_append)
  show ?thesis
    using isdigit_not_sign [OF d] dw tw assms(1,4)
    by (simp add: strtol_def Let_def ds clamp_long_def)
qed

lemma atoi_dec_of_nat [cstring_simps]: "n < 2 ^ 31 \<Longrightarrow> atoi (dec_of_nat n) = int n"
  using strtol_digits [of "dec_of_nat n" "[]"] dec_of_nat_digits
  by (simp add: atoi_def c_int_id)

section \<open>IPv4 addresses\<close>

fun split_on :: "char \<Rightarrow> string \<Rightarrow> string list" where
  "split_on c [] = [[]]"
| "split_on c (x # xs) =
     (if x = c then [] # split_on c xs
      else case split_on c xs of [] \<Rightarrow> [[x]] | t # ts \<Rightarrow> (x # t) # ts)"

lemma split_on_not_Nil [simp]: "split_on c s \<noteq> []"
  by (induction s) (auto split: list.splits)

lemma split_on_last [cstring_simps]: "c \<notin> set s \<Longrightarrow> split_on c s = [s]"
  by (induction s) auto

lemma split_on_append [cstring_simps]: "c \<notin> set s \<Longrightarrow> split_on c (s @ c # t) = s # split_on c t"
  by (induction s) (auto split: list.splits)

text \<open>One field of a dotted address: one to three digits, no leading zero, at most 255.\<close>

definition octet_of :: "string \<Rightarrow> nat option" where
  "octet_of s =
     (if s \<noteq> [] \<and> list_all isdigit s \<and> (hd s = CHR ''0'' \<longrightarrow> length s = 1) \<and> digits_val s \<le> 255
      then Some (digits_val s) else None)"

definition ip_of_octets :: "nat \<Rightarrow> nat \<Rightarrow> nat \<Rightarrow> nat \<Rightarrow> u32" where
  "ip_of_octets a b c d = of_nat (((a * 256 + b) * 256 + c) * 256 + d)"

text \<open>\<open>inet_pton (AF_INET, s, &addr)\<close> followed by \<open>ntohl\<close>; \<open>None\<close> when it does not return 1.\<close>

definition inet_pton4 :: "string \<Rightarrow> u32 option" where
  "inet_pton4 s =
     (case split_on (CHR ''.'') s of
        [a, b, c, d] \<Rightarrow>
          do { a' \<leftarrow> octet_of a; b' \<leftarrow> octet_of b; c' \<leftarrow> octet_of c; d' \<leftarrow> octet_of d;
               Some (ip_of_octets a' b' c' d') }
      | _ \<Rightarrow> None)"

text \<open>\<open>htonl\<close> followed by \<open>inet_ntop (AF_INET, ...)\<close>: the dotted decimal form.\<close>

definition inet_ntop4 :: "u32 \<Rightarrow> string" where
  "inet_ntop4 ip =
     (let n = unat ip in
      dec_of_nat (n div 2 ^ 24) @ ''.'' @ dec_of_nat (n div 2 ^ 16 mod 256) @ ''.'' @
      dec_of_nat (n div 2 ^ 8 mod 256) @ ''.'' @ dec_of_nat (n mod 256))"

lemma dot_not_digit: "\<not> isdigit (CHR ''.'')" and slash_not_digit: "\<not> isdigit (CHR ''/'')"
  by (simp_all add: isdigit_def)

lemma dot_not_in_dec [simp]: "CHR ''.'' \<notin> set (dec_of_nat n)"
  using dec_of_nat_digits dot_not_digit by blast

lemma slash_not_in_dec [simp]: "CHR ''/'' \<notin> set (dec_of_nat n)"
  using dec_of_nat_digits slash_not_digit by blast

lemma octet_of_dec [simp]: "n \<le> 255 \<Longrightarrow> octet_of (dec_of_nat n) = Some n"
proof -
  assume n: "n \<le> 255"
  have "hd (dec_of_nat n) = CHR ''0'' \<Longrightarrow> length (dec_of_nat n) = 1"
    using hd_dec_of_nat [of n] by (cases "10 \<le> n") (auto, subst dec_of_nat.simps, simp)
  with n show ?thesis
    by (auto simp: octet_of_def list_all_iff intro: dec_of_nat_digits)
qed

lemma octets_rebuild:
  "(n :: nat) < 2 ^ 32 \<Longrightarrow>
   (((n div 2 ^ 24) * 256 + n div 2 ^ 16 mod 256) * 256 + n div 2 ^ 8 mod 256) * 256 + n mod 256 = n"
proof -
  have a: "n div 2 ^ 24 = n div 2 ^ 16 div 256" and b: "n div 2 ^ 16 = n div 2 ^ 8 div 256"
    by (simp_all flip: div_mult2_eq)
  show ?thesis
    unfolding a using div_mult_mod_eq [of "n div 2 ^ 16" 256]
    unfolding b using div_mult_mod_eq [of "n div 2 ^ 8" 256] div_mult_mod_eq [of n 256]
    by simp
qed

lemma inet_pton4_ntop4 [cstring_simps]: "inet_pton4 (inet_ntop4 ip) = Some ip"
proof -
  define n where "n = unat ip"
  have n: "n < 2 ^ 32" using u32_bound [of ip] by (simp add: n_def)
  then have n24: "n div 2 ^ 24 \<le> 255" by simp
  have le: "m mod 256 \<le> (255 :: nat)" for m
    using mod_less_divisor [of 256 m] by simp
  have "split_on (CHR ''.'') (inet_ntop4 ip) =
     [dec_of_nat (n div 2 ^ 24), dec_of_nat (n div 2 ^ 16 mod 256),
      dec_of_nat (n div 2 ^ 8 mod 256), dec_of_nat (n mod 256)]"
    by (simp add: inet_ntop4_def Let_def split_on_append split_on_last flip: n_def)
  then have "inet_pton4 (inet_ntop4 ip) =
     Some (ip_of_octets (n div 2 ^ 24) (n div 2 ^ 16 mod 256) (n div 2 ^ 8 mod 256) (n mod 256))"
    unfolding inet_pton4_def
    by (simp only: list.case octet_of_dec [OF n24] octet_of_dec [OF le] Option.bind.bind_lunit)
  also have "\<dots> = Some (of_nat n)"
    using octets_rebuild [OF n] by (simp only: ip_of_octets_def)
  finally show ?thesis by (simp add: n_def)
qed

lemma inet_ntop4_inj: "inet_ntop4 a = inet_ntop4 b \<longleftrightarrow> a = b"
  by (metis inet_pton4_ntop4 option.inject)

lemma slash_not_in_ntop4 [simp]: "CHR ''/'' \<notin> set (inet_ntop4 ip)"
  by (auto simp: inet_ntop4_def Let_def)

lemma length_inet_ntop4: "length (inet_ntop4 ip) \<le> 15"
proof -
  define n where "n = unat ip"
  have "n < 2 ^ 32" using u32_bound [of ip] by (simp add: n_def)
  then have "n div 2 ^ 24 < 1000" by simp
  moreover have "m mod 256 < (1000 :: nat)" for m
    using mod_less_divisor [of 256 m] by simp
  ultimately have "length (dec_of_nat (n div 2 ^ 24)) \<le> 3"
    "length (dec_of_nat (n div 2 ^ 16 mod 256)) \<le> 3"
    "length (dec_of_nat (n div 2 ^ 8 mod 256)) \<le> 3" "length (dec_of_nat (n mod 256)) \<le> 3"
    by (blast intro: length_dec_of_nat_le3)+
  then show ?thesis by (simp add: inet_ntop4_def Let_def flip: n_def)
qed

section \<open>Reading lines\<close>

text \<open>
  \<open>fgets\<close> with a buffer of \<open>n + 1\<close> bytes: at most \<open>n\<close> characters, up to and including
  the first newline, and what is left of the file. \<open>fgets_lines\<close> is the list of strings a
  \<open>while (fgets (...))\<close> loop sees: a long line arrives in pieces, a NUL ends its piece.
\<close>

definition newline :: char where "newline = CHR 0x0A"

fun fgets :: "nat \<Rightarrow> string \<Rightarrow> string \<times> string" where
  "fgets n [] = ([], [])"
| "fgets n (c # s) =
     (if n = 0 then ([], c # s) else if c = newline then ([c], s)
      else let (l, r) = fgets (n - 1) s in (c # l, r))"

lemma fgets_shorter: "0 < n \<Longrightarrow> s \<noteq> [] \<Longrightarrow> length (snd (fgets n s)) < length s"
proof (induction n s rule: fgets.induct)
  case (2 n c s)
  have "length (snd (fgets (n - 1) s)) \<le> length s" if "n = 1 \<or> s = []"
    using that by (cases s) auto
  with 2 show ?case by (cases "n = 1 \<or> s = []") (auto split: prod.splits dest: less_imp_le)
qed auto

function fgets_lines :: "nat \<Rightarrow> string \<Rightarrow> string list" where
  "fgets_lines n s = (if n = 0 \<or> s = [] then []
     else cstr (fst (fgets n s)) # fgets_lines n (snd (fgets n s)))"
  by auto
termination by (relation "measure (length \<circ> snd)") (auto simp: fgets_shorter)

declare fgets_lines.simps [simp del]

lemma fgets_line: "newline \<notin> set l \<Longrightarrow> length l < n \<Longrightarrow> fgets n (l @ newline # r) = (l @ [newline], r)"
proof (induction l arbitrary: n)
  case (Cons c l)
  then show ?case using Cons.IH [of "n - 1"] by auto
qed auto

definition unlines :: "string list \<Rightarrow> string" where
  "unlines ls = concat (map (\<lambda>l. l @ [newline]) ls)"

lemma cstr_id [cstring_simps]: "CHR 0x00 \<notin> set s \<Longrightarrow> cstr s = s"
  by (auto simp: cstr_def intro: takeWhile_all)

lemma fgets_lines_unlines:
  assumes "\<And>l. l \<in> set ls \<Longrightarrow> newline \<notin> set l \<and> CHR 0x00 \<notin> set l \<and> length l < n"
  shows "fgets_lines n (unlines ls) = map (\<lambda>l. l @ [newline]) ls"
  using assms
proof (induction ls)
  case Nil
  then show ?case by (simp add: unlines_def fgets_lines.simps)
next
  case (Cons l ls)
  then have l: "newline \<notin> set l" "CHR 0x00 \<notin> set l" "length l < n" by auto
  then have "0 < n" by simp
  have "unlines (l # ls) = l @ newline # unlines ls" by (simp add: unlines_def)
  moreover have "cstr (l @ [newline]) = l @ [newline]"
    using l by (intro cstr_id) (simp add: newline_def)
  ultimately show ?case
    using l \<open>0 < n\<close> Cons by (subst fgets_lines.simps) (simp add: fgets_line)
qed

end
