(* ===== verification/Json.thy ===== *)
theory Json
  imports CLib
begin

text \<open>
  JSON values as the server uses them through cJSON: the items of an object in order, the
  lookup by name that ignores case and returns the first match
  (\<open>cJSON_GetObjectItem\<close>, see \<open>windows/client/src/cJSON.c\<close> for the library's code),
  the string of an item (\<open>valuestring\<close>, NULL for an item that is not a string), and the
  construction of objects item by item. Numbers are those the programs exchange, integers of
  up to fifteen digits, which cJSON reads and prints exactly (theory \<open>CJsonRoundtrip\<close>). Parsing and printing are arguments
  of the functions that use them.
\<close>

datatype json = JNull | JBool bool | JNumber int | JString string
  | JArray "json list" | JObject "(string \<times> json) list"

definition cJSON_GetObjectItem :: "json \<Rightarrow> string \<Rightarrow> json option" where
  "cJSON_GetObjectItem j name =
     (case j of
        JObject items \<Rightarrow> map_option snd (List.find (\<lambda>(k, _). strcasecmp_eq name k) items)
      | _ \<Rightarrow> None)"

text \<open>The variant that compares names exactly.\<close>

definition cJSON_GetObjectItemCaseSensitive :: "json \<Rightarrow> string \<Rightarrow> json option" where
  "cJSON_GetObjectItemCaseSensitive j name =
     (case j of
        JObject items \<Rightarrow> map_option snd (List.find (\<lambda>(k, _). name = k) items)
      | _ \<Rightarrow> None)"

definition valuestring :: "json \<Rightarrow> string option" where
  "valuestring j = (case j of JString s \<Rightarrow> Some s | _ \<Rightarrow> None)"

definition cJSON_IsString :: "json \<Rightarrow> bool" where
  "cJSON_IsString j = (case j of JString _ \<Rightarrow> True | _ \<Rightarrow> False)"

definition cJSON_IsNumber :: "json \<Rightarrow> bool" where
  "cJSON_IsNumber j = (case j of JNumber _ \<Rightarrow> True | _ \<Rightarrow> False)"

definition cJSON_CreateObject :: json where "cJSON_CreateObject = JObject []"

definition cJSON_AddItem :: "string \<Rightarrow> json \<Rightarrow> json \<Rightarrow> json" where
  "cJSON_AddItem name v j = (case j of JObject items \<Rightarrow> JObject (items @ [(name, v)]) | _ \<Rightarrow> j)"

lemma GetObjectItem_Cons:
  "cJSON_GetObjectItem (JObject ((k, v) # items)) name =
     (if strcasecmp_eq name k then Some v else cJSON_GetObjectItem (JObject items) name)"
  by (simp add: cJSON_GetObjectItem_def)

lemma GetObjectItem_Nil: "cJSON_GetObjectItem (JObject []) name = None"
  by (simp add: cJSON_GetObjectItem_def)

lemma strcasecmp_refl [simp]: "strcasecmp_eq s s"
  by (simp add: strcasecmp_eq_def)

end
