(* ===== verification/ClientApi.thy ===== *)
theory ClientApi
  imports Json
begin

text \<open>
  The requests of the Linux client, \<open>client/src/client_api.c\<close>. libcurl and the network behind
  it are outside the program: \<open>perform\<close> takes the options set on a handle to the pieces it
  delivers and the status code, and changes a network state of an arbitrary type \<open>'n\<close>. The
  answers of the JSON parser and printer are arguments too. A function returns \<open>None\<close> where
  the code has undefined behaviour.
\<close>

section \<open>The environment\<close>

text \<open>
  The options set on a handle. The pieces of a transfer are given to the write function until
  it refuses one; the status code is \<open>None\<close> when the transfer fails. \<open>perform\<close> answers
  \<open>None\<close> when \<open>curl_easy_init\<close> fails. \<open>realloc_ok n\<close>: \<open>realloc\<close> to \<open>n\<close> bytes succeeds.\<close>

record http_request =
  http_url :: string
  http_headers :: "string list"
  http_postfields :: "string option"
  http_postfieldsize :: "nat option"
  http_verify :: bool
  http_cainfo :: "string option"

datatype transfer = Transfer (pieces: "string list") (http_code: "nat option")

record 'n client_env =
  perform :: "http_request \<Rightarrow> 'n \<Rightarrow> transfer option \<times> 'n"
  realloc_ok :: "nat \<Rightarrow> bool"
  client_parse :: "string \<Rightarrow> json option"
  client_print :: "json \<Rightarrow> string option"

record client_globals =
  g_server_url :: string
  g_ca_cert_path :: string
  g_insecure :: bool

definition client_api_init :: "string \<Rightarrow> string option \<Rightarrow> bool \<Rightarrow> client_globals" where
  "client_api_init server_url ca_cert_path insecure = \<lparr>g_server_url = take 255 server_url,
     g_ca_cert_path = (case ca_cert_path of Some p \<Rightarrow> take 255 p | None \<Rightarrow> []), g_insecure = insecure\<rparr>"

section \<open>Transfers\<close>

text \<open>
  The buffer of \<open>memory_struct\<close>: \<open>None\<close> is the single uninitialised byte it starts with,
  \<open>Some m\<close> holds \<open>m\<close> and a NUL. The callback returns the number of bytes it took.\<close>

definition write_memory_cb :: "'n client_env \<Rightarrow> string \<Rightarrow> string option \<Rightarrow> nat \<times> string option" where
  "write_memory_cb E contents chunk =
     (let old = (case chunk of None \<Rightarrow> [] | Some m \<Rightarrow> m) in
      if \<not> realloc_ok E (length old + length contents + 1) then (0, chunk)
      else (length contents, Some (old @ contents)))"

fun receive :: "'n client_env \<Rightarrow> string list \<Rightarrow> string option \<Rightarrow> bool \<times> string option" where
  "receive E [] chunk = (True, chunk)"
| "receive E (p # ps) chunk =
     (let (n, chunk) = write_memory_cb E p chunk in
      if n \<noteq> length p then (False, chunk) else receive E ps chunk)"

text \<open>
  What follows \<open>curl_easy_perform\<close> in both request functions. The message for another status, or
  for an empty body, prints the buffer, which is undefined when nothing was written to it.\<close>

definition read_reply :: "'n client_env \<Rightarrow> transfer \<Rightarrow> json option ub" where
  "read_reply E t =
     (let (taken, chunk) = receive E (pieces t) None in
      if \<not> taken \<or> http_code t = None then Some None
      else if http_code t = Some 200 \<and> chunk \<noteq> None \<and> chunk \<noteq> Some []
      then Some (client_parse E (cstr (the chunk)))
      else if chunk = None then None
      else Some None)"

definition bearer :: "string \<Rightarrow> string" where
  "bearer token = take 255 (''Authorization: Bearer '' @ token)"

definition base_request :: "client_globals \<Rightarrow> string \<Rightarrow> string list \<Rightarrow> http_request" where
  "base_request G endpoint hs = \<lparr>http_url = take 511 (g_server_url G @ endpoint), http_headers = hs,
     http_postfields = None, http_postfieldsize = None, http_verify = (\<not> g_insecure G),
     http_cainfo = (if \<not> g_insecure G \<and> g_ca_cert_path G \<noteq> [] then Some (g_ca_cert_path G) else None)\<rparr>"

definition do_request :: "'n client_env \<Rightarrow> http_request \<Rightarrow> 'n \<Rightarrow> (json option \<times> 'n) ub" where
  "do_request E r n =
     (case perform E r n of
        (None, n) \<Rightarrow> Some (None, n)
      | (Some t, n) \<Rightarrow> map_option (\<lambda>j. (j, n)) (read_reply E t))"

definition do_post ::
  "'n client_env \<Rightarrow> client_globals \<Rightarrow> string \<Rightarrow> string option \<Rightarrow> string option \<Rightarrow> 'n \<Rightarrow> (json option \<times> 'n) ub" where
  "do_post E G endpoint json_body auth_token n =
     (let r = base_request G endpoint (''Content-Type: application/json'' #
                (case auth_token of None \<Rightarrow> [] | Some t \<Rightarrow> [bearer t]))
      in do_request E (case json_body of
           Some b \<Rightarrow> r\<lparr>http_postfields := Some b\<rparr> | None \<Rightarrow> r\<lparr>http_postfieldsize := Some 0\<rparr>) n)"

definition do_get ::
  "'n client_env \<Rightarrow> client_globals \<Rightarrow> string \<Rightarrow> string option \<Rightarrow> 'n \<Rightarrow> (json option \<times> 'n) ub" where
  "do_get E G endpoint auth_token n =
     do_request E (base_request G endpoint (case auth_token of None \<Rightarrow> [] | Some t \<Rightarrow> [bearer t])) n"

section \<open>Fields of an answer\<close>

record wg_client_config =
  cl_session_token :: string
  cl_client_private_key_b64 :: string
  cl_client_address :: string
  cl_server_public_key_b64 :: string
  cl_preshared_key_b64 :: string
  cl_endpoint :: string
  cl_allowed_ips :: string
  cl_dns :: string
  cl_expires_at :: int

record wg_client_status =
  st_rx_bytes :: int
  st_tx_bytes :: int
  st_last_handshake_time :: int
  st_expires_at :: int

definition copy_string_field :: "json \<Rightarrow> string \<Rightarrow> nat \<Rightarrow> string" where
  "copy_string_field obj key dest_size =
     (case cJSON_GetObjectItemCaseSensitive obj key of
        Some (JString s) \<Rightarrow> take (dest_size - 1) s | _ \<Rightarrow> [])"

text \<open>The conversion of a number to a 64-bit integer is undefined when the value does not fit.\<close>

definition to_int64 :: "int \<Rightarrow> int ub" where
  "to_int64 n = (if - (2 ^ 63) \<le> n \<and> n < 2 ^ 63 then Some n else None)"

definition to_uint64 :: "int \<Rightarrow> int ub" where
  "to_uint64 n = (if 0 \<le> n \<and> n < 2 ^ 64 then Some n else None)"

definition number_field :: "(int \<Rightarrow> int ub) \<Rightarrow> json \<Rightarrow> string \<Rightarrow> int ub" where
  "number_field conv obj key =
     (case cJSON_GetObjectItemCaseSensitive obj key of Some (JNumber n) \<Rightarrow> conv n | _ \<Rightarrow> Some 0)"

definition config_of_reply :: "json \<Rightarrow> wg_client_config ub" where
  "config_of_reply resp =
     map_option (\<lambda>e. \<lparr>cl_session_token = copy_string_field resp ''session_token'' 64,
       cl_client_private_key_b64 = copy_string_field resp ''client_private_key'' 64,
       cl_client_address = copy_string_field resp ''client_address'' 64,
       cl_server_public_key_b64 = copy_string_field resp ''server_public_key'' 64,
       cl_preshared_key_b64 = copy_string_field resp ''preshared_key'' 64,
       cl_endpoint = copy_string_field resp ''endpoint'' 128,
       cl_allowed_ips = copy_string_field resp ''allowed_ips'' 256,
       cl_dns = copy_string_field resp ''dns'' 64,
       cl_expires_at = e\<rparr>) (number_field to_int64 resp ''expires_at'')"

section \<open>The requests\<close>

definition string_request :: "(string \<times> string) list \<Rightarrow> json" where
  "string_request fs = fold (\<lambda>(k, v). cJSON_AddItem k (JString v)) fs cJSON_CreateObject"

text \<open>The configuration is \<open>None\<close> when the output is left unchanged.\<close>

definition client_api_login ::
  "'n client_env \<Rightarrow> client_globals \<Rightarrow> string \<Rightarrow> string \<Rightarrow> 'n \<Rightarrow> (int \<times> wg_client_config option \<times> 'n) ub" where
  "client_api_login E G user password n =
     do {
       (resp, n) \<leftarrow> do_post E G ''/login''
          (client_print E (string_request [(''username'', user), (''password'', password)])) None n;
       case resp of
         None \<Rightarrow> Some (-1, None, n)
       | Some j \<Rightarrow> do {
           cfg \<leftarrow> config_of_reply j;
           Some (if cl_session_token cfg = [] then -1 else 0, Some cfg, n)
         }
     }"

definition client_api_logout :: "'n client_env \<Rightarrow> client_globals \<Rightarrow> string \<Rightarrow> 'n \<Rightarrow> (int \<times> 'n) ub" where
  "client_api_logout E G token n =
     do {
       (resp, n) \<leftarrow> do_post E G ''/logout'' (client_print E (string_request [(''session_token'', token)])) (Some token) n;
       Some (if resp = None then -1 else 0, n)
     }"

text \<open>The new expiry is \<open>None\<close> when the output is left unchanged.\<close>

definition client_api_renew :: "'n client_env \<Rightarrow> client_globals \<Rightarrow> string \<Rightarrow> 'n \<Rightarrow> (int \<times> int option \<times> 'n) ub" where
  "client_api_renew E G token n =
     do {
       (resp, n) \<leftarrow> do_post E G ''/renew'' (client_print E (string_request [(''session_token'', token)])) (Some token) n;
       case resp of
         None \<Rightarrow> Some (-1, None, n)
       | Some j \<Rightarrow>
          (case cJSON_GetObjectItemCaseSensitive j ''expires_at'' of
             Some (JNumber e) \<Rightarrow> map_option (\<lambda>e. (0, Some e, n)) (to_int64 e)
           | _ \<Rightarrow> Some (0, None, n))
     }"

definition client_api_status ::
  "'n client_env \<Rightarrow> client_globals \<Rightarrow> string \<Rightarrow> 'n \<Rightarrow> (int \<times> wg_client_status option \<times> 'n) ub" where
  "client_api_status E G token n =
     do {
       (resp, n) \<leftarrow> do_get E G ''/status'' (Some token) n;
       case resp of
         None \<Rightarrow> Some (-1, None, n)
       | Some j \<Rightarrow> do {
           rx \<leftarrow> number_field to_uint64 j ''rx_bytes'';
           tx \<leftarrow> number_field to_uint64 j ''tx_bytes'';
           lh \<leftarrow> number_field to_int64 j ''last_handshake_time'';
           e \<leftarrow> number_field to_int64 j ''expires_at'';
           Some (0, Some \<lparr>st_rx_bytes = rx, st_tx_bytes = tx, st_last_handshake_time = lh, st_expires_at = e\<rparr>, n)
         }
     }"

section \<open>Replies\<close>

lemma receive_all:
  assumes "\<And>n. realloc_ok E n"
  shows "receive E ps (Some m) = (True, Some (m @ concat ps))"
  using assms by (induction ps arbitrary: m) (simp_all add: write_memory_cb_def)

lemma receive_pieces:
  assumes "\<And>n. realloc_ok E n" "ps \<noteq> []"
  shows "receive E ps None = (True, Some (concat ps))"
  using assms receive_all [OF assms(1)] by (cases ps) (simp_all add: write_memory_cb_def)

lemma read_reply_ok:
  assumes "\<And>n. realloc_ok E n" "concat ps \<noteq> []"
  shows "read_reply E (Transfer ps (Some 200)) = Some (client_parse E (cstr (concat ps)))"
proof -
  have "ps \<noteq> []" using assms(2) by auto
  then show ?thesis using assms receive_pieces [OF assms(1)] by (simp add: read_reply_def)
qed

text \<open>
  The answer to a request does not depend on how the transport cuts it: whatever the pieces,
  the client parses the whole body once.\<close>

lemma reply_pieces_irrelevant:
  assumes "\<And>n. realloc_ok E n" "concat ps = concat qs" "concat ps \<noteq> []"
  shows "read_reply E (Transfer ps (Some 200)) = read_reply E (Transfer qs (Some 200)) \<and>
     read_reply E (Transfer ps (Some 200)) = Some (client_parse E (cstr (concat ps)))"
  using assms read_reply_ok [OF assms(1)] by metis

text \<open>
  An error answer without a body makes the client print the buffer it never wrote, whatever
  the request was: one uninitialised byte read as a string.\<close>

lemma empty_error_reply:
  "do_request (E\<lparr>perform := \<lambda>r n. (Some (Transfer [] (Some code)), n)\<rparr>) r n = None"
  by (simp add: do_request_def read_reply_def)

end
