(* ===== verification/WinClient.thy ===== *)
theory WinClient
  imports ClientApi
begin

text \<open>
  The Windows client: \<open>windows/client/src/authwg.cpp\<close>, the library behind the graphical interface,
  and \<open>win_http.cpp\<close>, its HTTP requests. WinHTTP, the processes and the file system are outside
  the program. A function returns \<open>None\<close> where the code has undefined behaviour.
\<close>

section \<open>The environment\<close>

text \<open>
  One request as WinHTTP answers it: which handles it opens, whether sending and receiving the
  headers succeeds, the status code (0 if the query fails), and the turns of the reading loop: the
  query of the available bytes fails, or it gives a number and the read delivers bytes or fails.
  The end of the list is a query that answers 0.\<close>

datatype read_turn = QueryFailed | Available nat "string option"

record http_run =
  session_opened :: bool
  connection_opened :: bool
  request_opened :: bool
  request_sent :: bool
  response_received :: bool
  status_header :: int
  read_turns :: "read_turn list"

record win_request =
  wr_host :: string
  wr_port :: nat
  wr_path :: string
  wr_secure :: bool
  wr_ignore_certificates :: bool
  wr_body :: string

datatype process_result = NotStarted | WaitTimeout | ExitCode nat

record 'n win_env =
  crack_url :: "string \<Rightarrow> (string \<times> nat \<times> string) option"
  winhttp :: "win_request \<Rightarrow> 'n \<Rightarrow> http_run \<times> 'n"
  create_process :: "string \<Rightarrow> string \<Rightarrow> 'n \<Rightarrow> process_result \<times> 'n"
  sleep_second :: "'n \<Rightarrow> 'n"
  module_path :: string
  conf_opens :: bool
  win_parse :: "string \<Rightarrow> json option"
  win_print :: "json \<Rightarrow> string option"

text \<open>The static variables, and the configuration file beside the program.\<close>

record win_client =
  w_server_url :: string
  w_session_token :: string
  w_insecure :: bool
  w_is_running :: bool
  w_is_connected :: bool
  w_status :: string
  w_conf :: "string option"

definition win_start :: win_client where
  "win_start = \<lparr>w_server_url = [], w_session_token = [], w_insecure = False, w_is_running = False,
     w_is_connected = False, w_status = ''Disconnected'', w_conf = None\<rparr>"

section \<open>Requests\<close>

definition MAX_RESPONSE_SIZE :: nat where "MAX_RESPONSE_SIZE = 1024 * 1024"

text \<open>The reading loop: whether it reached its end, and the body.\<close>

fun read_body :: "read_turn list \<Rightarrow> string \<Rightarrow> bool \<times> string" where
  "read_body [] response_body = (True, response_body)"
| "read_body (QueryFailed # ts) response_body = (True, response_body)"
| "read_body (Available n data # ts) response_body =
     (if n = 0 then (True, response_body)
      else let response_body = (case data of None \<Rightarrow> response_body | Some d \<Rightarrow> response_body @ d) in
        if length response_body > MAX_RESPONSE_SIZE then (False, response_body) else read_body ts response_body)"

definition starts_with :: "string \<Rightarrow> string \<Rightarrow> bool" where
  "starts_with p s \<longleftrightarrow> take (length p) s = p"

text \<open>Success, the body and the status code.\<close>

definition PostJson :: "'n win_env \<Rightarrow> string \<Rightarrow> string \<Rightarrow> bool \<Rightarrow> 'n \<Rightarrow> (bool \<times> string \<times> int) \<times> 'n" where
  "PostJson E url_in json_body insecure n =
     (case crack_url E url_in of
        None \<Rightarrow> ((False, [], 0), n)
      | Some (host, port, path) \<Rightarrow>
          let (run, n) = winhttp E \<lparr>wr_host = host, wr_port = port, wr_path = path,
                wr_secure = starts_with ''https://'' url_in, wr_ignore_certificates = insecure, wr_body = json_body\<rparr> n
          in if \<not> session_opened run \<or> \<not> connection_opened run \<or> \<not> request_opened run then ((False, [], 0), n)
             else if \<not> request_sent run \<or> \<not> response_received run then ((False, [], 0), n)
             else let (ok, response_body) = read_body (read_turns run) [] in ((ok, response_body, status_header run), n))"

section \<open>Processes and paths\<close>

definition exe_dir :: "string \<Rightarrow> string" where
  "exe_dir p = (if \<exists>c \<in> set p. c = CHR 0x5C \<or> c = CHR ''/''
     then rev (dropWhile (\<lambda>c. c \<noteq> CHR 0x5C \<and> c \<noteq> CHR ''/'') (rev p)) else p)"

definition GetAbsoluteConfPath :: "'n win_env \<Rightarrow> string" where
  "GetAbsoluteConfPath E = exe_dir (module_path E) @ ''wg-vpn.conf''"

definition quote :: char where "quote = CHR 0x22"

definition wireguard_exe :: "'n win_env \<Rightarrow> string" where
  "wireguard_exe E = exe_dir (module_path E) @ ''wireguard.exe''"

definition InstallTunnel :: "'n win_env \<Rightarrow> string \<Rightarrow> 'n \<Rightarrow> bool \<times> 'n" where
  "InstallTunnel E conf_path n =
     (case create_process E (wireguard_exe E) ([quote] @ wireguard_exe E @ [quote] @ '' /installtunnelservice '' @
             [quote] @ conf_path @ [quote]) n of
        (NotStarted, n) \<Rightarrow> (False, n)
      | (WaitTimeout, n) \<Rightarrow> (False, n)
      | (ExitCode c, n) \<Rightarrow> (c = 0, n))"

definition UninstallTunnel :: "'n win_env \<Rightarrow> 'n \<Rightarrow> 'n" where
  "UninstallTunnel E n =
     snd (create_process E (wireguard_exe E) ([quote] @ wireguard_exe E @ [quote] @ '' /uninstalltunnelservice wg-vpn'') n)"

text \<open>\<open>DeleteFileA\<close> of the configuration, on logout and when the library is unloaded.\<close>

definition DllMain_detach :: "win_client \<Rightarrow> win_client" where
  "DllMain_detach s = s\<lparr>w_conf := None\<rparr>"

definition SetStatus :: "string \<Rightarrow> win_client \<Rightarrow> win_client" where
  "SetStatus status s = s\<lparr>w_status := status\<rparr>"

section \<open>Login\<close>

definition SafeGetString :: "json \<Rightarrow> string \<Rightarrow> string option" where
  "SafeGetString obj key =
     (case cJSON_GetObjectItem obj key of
        None \<Rightarrow> None
      | Some item \<Rightarrow> if cJSON_IsString item then valuestring item else None)"

text \<open>A NULL string adds no item.\<close>

definition cJSON_AddStringToObject :: "string \<Rightarrow> string option \<Rightarrow> json \<Rightarrow> json" where
  "cJSON_AddStringToObject name s obj = (case s of None \<Rightarrow> obj | Some s \<Rightarrow> cJSON_AddItem name (JString s) obj)"

record win_config =
  wc_token :: string
  wc_priv :: string
  wc_addr :: string
  wc_srv_pub :: string
  wc_psk :: string
  wc_endpoint :: string
  wc_allowed_ips :: string
  wc_dns :: string

definition reply_config :: "json \<Rightarrow> win_config option" where
  "reply_config resp =
     do {
       token \<leftarrow> SafeGetString resp ''session_token'';
       priv \<leftarrow> SafeGetString resp ''client_private_key'';
       addr \<leftarrow> SafeGetString resp ''client_address'';
       srv_pub \<leftarrow> SafeGetString resp ''server_public_key'';
       psk \<leftarrow> SafeGetString resp ''preshared_key'';
       endp \<leftarrow> SafeGetString resp ''endpoint'';
       allowed \<leftarrow> SafeGetString resp ''allowed_ips'';
       Some \<lparr>wc_token = token, wc_priv = priv, wc_addr = addr, wc_srv_pub = srv_pub, wc_psk = psk,
         wc_endpoint = endp, wc_allowed_ips = allowed,
         wc_dns = (case SafeGetString resp ''dns'' of None \<Rightarrow> [] | Some d \<Rightarrow> d)\<rparr>
     }"

text \<open>What is written to the file, before the text mode of the stream changes the line ends.\<close>

definition conf_text :: "win_config \<Rightarrow> string" where
  "conf_text c =
     ''[Interface]'' @ [newline] @
     ''PrivateKey = '' @ wc_priv c @ [newline] @
     ''Address = '' @ wc_addr c @ [newline] @
     (if wc_dns c \<noteq> [] then ''DNS = '' @ wc_dns c @ [newline] else []) @
     [newline] @ ''[Peer]'' @ [newline] @
     ''PublicKey = '' @ wc_srv_pub c @ [newline] @
     ''PresharedKey = '' @ wc_psk c @ [newline] @
     ''Endpoint = '' @ wc_endpoint c @ [newline] @
     ''AllowedIPs = '' @ wc_allowed_ips c @ [newline] @
     ''PersistentKeepalive = 25'' @ [newline]"

text \<open>What follows a complete reply.\<close>

definition apply_config :: "'n win_env \<Rightarrow> win_config \<Rightarrow> win_client \<Rightarrow> 'n \<Rightarrow> int \<times> win_client \<times> 'n" where
  "apply_config E c s n =
     (let s = s\<lparr>w_session_token := wc_token c\<rparr> in
      if \<not> conf_opens E then (-3, SetStatus ''Cannot write conf'' s, n)
      else let s = s\<lparr>w_conf := Some (conf_text c)\<rparr>; (ok, n) = InstallTunnel E (GetAbsoluteConfPath E) n in
        if \<not> ok then (-4, SetStatus ''WireGuard Install Failed'' s, n)
        else (0, SetStatus ''Connected'' (s\<lparr>w_is_running := True, w_is_connected := True\<rparr>), n))"

definition read_login_reply :: "'n win_env \<Rightarrow> string \<Rightarrow> int \<Rightarrow> win_client \<Rightarrow> 'n \<Rightarrow> int \<times> win_client \<times> 'n" where
  "read_login_reply E resp_str status_code s n =
     (case win_parse E (cstr resp_str) of
        None \<Rightarrow> (-2, SetStatus ''Invalid Response'' s, n)
      | Some resp \<Rightarrow>
          if status_code \<noteq> 200 then
            (-2, SetStatus (case cJSON_GetObjectItem resp ''error'' of
                 None \<Rightarrow> ''Auth Failed''
               | Some err \<Rightarrow> (case valuestring err of None \<Rightarrow> ''Auth Failed'' | Some e \<Rightarrow> ''Auth Failed: '' @ e)) s, n)
          else (case reply_config resp of
              None \<Rightarrow> (-2, SetStatus ''Invalid server response (missing fields)'' s, n)
            | Some c \<Rightarrow> apply_config E c s n))"

definition strip_slash :: "string \<Rightarrow> string" where
  "strip_slash url = (if url \<noteq> [] \<and> last url = CHR ''/'' then butlast url else url)"

text \<open>A request that cannot be printed becomes a C++ string from NULL, which is undefined.\<close>

definition WgLogin ::
  "'n win_env \<Rightarrow> string option \<Rightarrow> string option \<Rightarrow> string option \<Rightarrow> win_client \<Rightarrow> 'n \<Rightarrow> (int \<times> win_client \<times> 'n) ub" where
  "WgLogin E username password server_url s n =
     (if w_is_running s then Some (0, s, n)
      else let url = (case server_url of None \<Rightarrow> [] | Some u \<Rightarrow> u) in
      if url = [] \<or> \<not> starts_with ''https://'' url \<and> \<not> starts_with ''http://'' url
      then Some (-1, SetStatus ''Server URL must start with https:// or http://'' s, n)
      else let s = SetStatus ''Connecting...'' s;
               req = cJSON_AddStringToObject ''password'' password
                       (cJSON_AddStringToObject ''username'' username cJSON_CreateObject) in
      do {
        req_str \<leftarrow> win_print E req;
        let s = s\<lparr>w_server_url := strip_slash url\<rparr>;
        let ((ok, resp_str, status_code), n) = PostJson E (w_server_url s @ ''/login'') req_str (w_insecure s) n;
        Some (if \<not> ok then (-1, SetStatus ''Network Error'' s, n) else read_login_reply E resp_str status_code s n)
      })"

section \<open>The other operations\<close>

definition token_request :: "win_client \<Rightarrow> json" where
  "token_request s = cJSON_AddStringToObject ''session_token'' (Some (w_session_token s)) cJSON_CreateObject"

definition WgLogout :: "'n win_env \<Rightarrow> win_client \<Rightarrow> 'n \<Rightarrow> (int \<times> win_client \<times> 'n) ub" where
  "WgLogout E s n =
     (if \<not> w_is_running s then Some (0, s, n)
      else let s = (SetStatus ''Disconnecting...'' s)\<lparr>w_is_running := False\<rparr> in
      do {
        req_str \<leftarrow> win_print E (token_request s);
        let n = snd (PostJson E (w_server_url s @ ''/logout'') req_str (w_insecure s) n);
        let n = UninstallTunnel E n;
        let s = s\<lparr>w_conf := None, w_is_connected := False, w_session_token := []\<rparr>;
        Some (0, SetStatus ''Disconnected'' s, n)
      })"

text \<open>The answer and the buffer of \<open>max_len\<close> bytes, \<open>None\<close> where \<open>out_status\<close> is NULL.\<close>

definition WgGetStatus :: "string option \<Rightarrow> int \<Rightarrow> win_client \<Rightarrow> int \<times> string option" where
  "WgGetStatus out_status max_len s =
     (case out_status of
        None \<Rightarrow> (-1, None)
      | Some buf \<Rightarrow>
          if max_len \<le> 0 then (-1, Some buf)
          else let m = nat max_len - 1; copied = take m (w_status s) in
            (0, Some (copied @ replicate (m - length copied) (CHR 0x00) @ CHR 0x00 # drop (m + 1) buf)))"

definition WgSetInsecure :: "int \<Rightarrow> win_client \<Rightarrow> win_client" where
  "WgSetInsecure insecure s = s\<lparr>w_insecure := (insecure \<noteq> 0)\<rparr>"

section \<open>Renewal\<close>

definition renew_seconds :: nat where "renew_seconds = 21600"

definition win_renew_turn :: "'n win_env \<Rightarrow> win_client \<Rightarrow> 'n \<Rightarrow> (win_client \<times> 'n) ub" where
  "win_renew_turn E s n =
     do {
       req_str \<leftarrow> win_print E (token_request s);
       let ((ok, resp, status), n) = PostJson E (w_server_url s @ ''/renew'') req_str (w_insecure s) n;
       Some (if ok \<and> status \<noteq> 200 then SetStatus ''Renew Failed'' s else s, n)
     }"

text \<open>
  The thread for the given number of seconds until \<open>g_is_running\<close> is cleared, with \<open>i\<close> seconds
  of the current wait behind it.\<close>

fun RenewThreadFunc :: "'n win_env \<Rightarrow> nat \<Rightarrow> nat \<Rightarrow> win_client \<Rightarrow> 'n \<Rightarrow> (win_client \<times> 'n) ub" where
  "RenewThreadFunc E 0 i s n = Some (s, n)"
| "RenewThreadFunc E (Suc k) i s n =
     (let n = sleep_second E n in
      if i + 1 < renew_seconds then RenewThreadFunc E k (i + 1) s n
      else do { (s, n) \<leftarrow> win_renew_turn E s n; RenewThreadFunc E k 0 s n })"

section \<open>The life of the client\<close>

text \<open>The calls of the interface, and the turns of the renewal thread while it runs.\<close>

inductive win_step :: "'n win_env \<Rightarrow> win_client \<times> 'n \<Rightarrow> win_client \<times> 'n \<Rightarrow> bool" for E where
  login: "WgLogin E u p url s n = Some (r, s', n') \<Longrightarrow> win_step E (s, n) (s', n')"
| logout: "WgLogout E s n = Some (r, s', n') \<Longrightarrow> win_step E (s, n) (s', n')"
| set_insecure: "win_step E (s, n) (WgSetInsecure i s, n)"
| renew: "w_is_running s \<Longrightarrow> win_renew_turn E s n = Some (s', n') \<Longrightarrow> win_step E (s, n) (s', n')"
| elapse: "win_step E (s, n) (s, sleep_second E n)"

inductive win_reaches :: "'n win_env \<Rightarrow> 'n \<Rightarrow> win_client \<times> 'n \<Rightarrow> bool" for E n0 where
  start: "win_reaches E n0 (win_start, n0)"
| step: "win_reaches E n0 a \<Longrightarrow> win_step E a b \<Longrightarrow> win_reaches E n0 b"

inductive_cases win_stepE: "win_step E (s, n) b"

text \<open>The outcomes of a login of a client that is not running.\<close>

lemma reply_outcome:
  assumes "read_login_reply E resp_str code s n = (r, s', n')" "\<not> w_is_running s"
  shows "r < 0 \<and> w_is_running s' = w_is_running s \<and> w_is_connected s' = w_is_connected s \<and>
      w_status s' \<noteq> ''Connected'' \<and> w_status s' \<noteq> ''Renew Failed'' \<or>
    r = 0 \<and> (\<exists>resp c. win_parse E (cstr resp_str) = Some resp \<and> code = 200 \<and> reply_config resp = Some c \<and>
      s' = SetStatus ''Connected'' (s\<lparr>w_session_token := wc_token c, w_conf := Some (conf_text c),
         w_is_running := True, w_is_connected := True\<rparr>))"
proof (cases "win_parse E (cstr resp_str)")
  case (Some resp)
  show ?thesis
  proof (cases "code = 200")
    case True
    show ?thesis
    proof (cases "reply_config resp")
      case (Some c)
      have a: "apply_config E c s n = (r, s', n')"
        using assms \<open>win_parse E (cstr resp_str) = Some resp\<close> True Some by (simp add: read_login_reply_def)
      then show ?thesis
        using \<open>win_parse E (cstr resp_str) = Some resp\<close> True Some
        by (auto simp: apply_config_def SetStatus_def Let_def split: prod.splits if_splits)
    qed (use assms Some True in \<open>auto simp: read_login_reply_def SetStatus_def\<close>)
  qed (use assms Some in \<open>auto simp: read_login_reply_def SetStatus_def split: option.splits\<close>)
qed (use assms in \<open>auto simp: read_login_reply_def SetStatus_def\<close>)

lemma WgLogin_outcome:
  assumes "WgLogin E u p url s n = Some (r, s', n')" "\<not> w_is_running s"
  shows "r < 0 \<and> w_is_running s' = w_is_running s \<and> w_is_connected s' = w_is_connected s \<and>
      w_status s' \<noteq> ''Connected'' \<and> w_status s' \<noteq> ''Renew Failed'' \<or>
    r = 0 \<and> w_is_running s' \<and> w_is_connected s' \<and> w_status s' = ''Connected'' \<and>
      (\<exists>c. w_session_token s' = wc_token c \<and> w_conf s' = Some (conf_text c))"
  using assms
  by (auto simp: WgLogin_def Let_def SetStatus_def split: if_splits option.splits prod.splits bind_splits
      dest!: reply_outcome)

definition win_ok :: "win_client \<Rightarrow> bool" where
  "win_ok s \<longleftrightarrow> w_is_connected s = w_is_running s \<and>
     (w_is_running s \<longleftrightarrow> w_status s \<in> {''Connected'', ''Renew Failed''}) \<and>
     (w_is_running s \<longrightarrow> (\<exists>c. w_session_token s = wc_token c \<and> w_conf s = Some (conf_text c)))"

lemma win_ok_step: "win_step E a b \<Longrightarrow> win_ok (fst a) \<Longrightarrow> win_ok (fst b)"
proof (induction rule: win_step.induct)
  case (login u p url s n r s' n')
  show ?case
  proof (cases "w_is_running s")
    case False
    then show ?thesis using WgLogin_outcome [OF login.hyps] login.prems by (auto simp: win_ok_def)
  qed (use login in \<open>simp add: WgLogin_def\<close>)
next
  case (logout s n r s' n')
  then show ?case by (auto simp: WgLogout_def SetStatus_def win_ok_def Let_def split: if_splits bind_splits)
next
  case (renew s n s' n')
  then show ?case by (auto simp: win_renew_turn_def SetStatus_def win_ok_def Let_def split: if_splits bind_splits prod.splits)
qed (auto simp: win_ok_def WgSetInsecure_def)


section \<open>A server that lets everyone in\<close>

text \<open>An environment for the closed theorems: every request is answered with the reply \<open>x\<close>.\<close>

definition win_demo_reply :: json where
  "win_demo_reply = JObject [(''session_token'', JString ''t''), (''client_private_key'', JString ''k''),
     (''client_address'', JString ''10.8.1.2/32''), (''server_public_key'', JString ''s''), (''preshared_key'', JString ''p''),
     (''endpoint'', JString ''h:51820''), (''allowed_ips'', JString ''10.8.0.0/23''), (''dns'', JString ''1.1.1.1'')]"

definition win_demo_env :: "json \<Rightarrow> process_result \<Rightarrow> nat win_env" where
  "win_demo_env x p = \<lparr>crack_url = (\<lambda>u. Some (''h'', 443, ''/'')),
     winhttp = (\<lambda>r n. (\<lparr>session_opened = True, connection_opened = True, request_opened = True, request_sent = True,
        response_received = True, status_header = 200, read_turns = [Available 2 (Some ''ok'')]\<rparr>, n + 1)),
     create_process = (\<lambda>a b n. (p, n)), sleep_second = Suc, module_path = ''C:/vpn/authwgui.exe'', conf_opens = True,
     win_parse = (\<lambda>s. Some x), win_print = (\<lambda>j. Some ''q'')\<rparr>"

lemma win_demo_login:
  "\<exists>s n. WgLogin (win_demo_env win_demo_reply (ExitCode 0)) (Some ''ann'') (Some ''pw'') (Some ''https://h'') win_start 0 = Some (0, s, n)
     \<and> w_is_running s"
proof -
  have "case WgLogin (win_demo_env win_demo_reply (ExitCode 0)) (Some ''ann'') (Some ''pw'') (Some ''https://h'') win_start 0 of
     Some (r, s, n) \<Rightarrow> r = 0 \<and> w_is_running s | None \<Rightarrow> False" by code_simp
  then show ?thesis by (auto split: option.splits)
qed


section \<open>The configuration file\<close>

lemma split_on_join: "split_on c (s @ c # t) = split_on c s @ split_on c t"
proof (induction s)
  case (Cons x s)
  then show ?case by (cases "split_on c s") auto
qed simp

lemma split_on_unlines: "\<forall>l \<in> set ls. newline \<notin> set l \<Longrightarrow> split_on newline (unlines ls) = ls @ [[]]"
  by (induction ls) (auto simp: unlines_def split_on_append)

definition interface_lines :: "win_config \<Rightarrow> string list" where
  "interface_lines c = [''[Interface]'', ''PrivateKey = '' @ wc_priv c, ''Address = '' @ wc_addr c]"

definition peer_lines :: "win_config \<Rightarrow> string list" where
  "peer_lines c = [[], ''[Peer]'', ''PublicKey = '' @ wc_srv_pub c, ''PresharedKey = '' @ wc_psk c,
     ''Endpoint = '' @ wc_endpoint c, ''AllowedIPs = '' @ wc_allowed_ips c, ''PersistentKeepalive = 25'']"

text \<open>The lines of the file: each text of the server is the value of its own line as long as it has no line end.\<close>

lemma conf_text_lines:
  assumes "\<forall>t \<in> {wc_priv c, wc_addr c, wc_srv_pub c, wc_psk c, wc_endpoint c, wc_allowed_ips c}. newline \<notin> set t"
  shows "split_on newline (conf_text c) =
     interface_lines c @ (if wc_dns c \<noteq> [] then split_on newline (''DNS = '' @ wc_dns c) else []) @ peer_lines c @ [[]]"
proof -
  have l: "\<forall>l \<in> set (interface_lines c). newline \<notin> set l" "\<forall>l \<in> set (peer_lines c). newline \<notin> set l"
    using assms by (simp_all add: interface_lines_def peer_lines_def newline_def)
  have t: "conf_text c = unlines (interface_lines c) @
      (if wc_dns c \<noteq> [] then (''DNS = '' @ wc_dns c) @ [newline] else []) @ unlines (peer_lines c)"
    by (simp add: conf_text_def interface_lines_def peer_lines_def unlines_def)
  show ?thesis
  proof (cases "wc_dns c = []")
    case True
    then have "conf_text c = unlines (interface_lines c @ peer_lines c)" by (simp add: t unlines_def)
    then show ?thesis using split_on_unlines [of "interface_lines c @ peer_lines c"] l True by auto
  next
    case False
    have "split_on newline (unlines ls @ r) = ls @ split_on newline r" if "\<forall>l \<in> set ls. newline \<notin> set l" for ls r
      using that by (induction ls) (auto simp: unlines_def split_on_append)
    then have "split_on newline (conf_text c) = interface_lines c @
        split_on newline ((''DNS = '' @ wc_dns c) @ newline # unlines (peer_lines c))"
      using l(1) False by (simp add: t)
    then show ?thesis unfolding split_on_join split_on_unlines [OF l(2)] using False by simp
  qed
qed

text \<open>The reply of the demonstration with another DNS server.\<close>

definition win_reply_with_dns :: "string \<Rightarrow> json" where
  "win_reply_with_dns d = JObject [(''session_token'', JString ''t''), (''client_private_key'', JString ''k''),
     (''client_address'', JString ''10.8.1.2/32''), (''server_public_key'', JString ''s''), (''preshared_key'', JString ''p''),
     (''endpoint'', JString ''h:51820''), (''allowed_ips'', JString ''10.8.0.0/23''), (''dns'', JString d)]"

lemma win_reply_config: "reply_config (win_reply_with_dns d) = Some \<lparr>wc_token = ''t'', wc_priv = ''k'', wc_addr = ''10.8.1.2/32'',
     wc_srv_pub = ''s'', wc_psk = ''p'', wc_endpoint = ''h:51820'', wc_allowed_ips = ''10.8.0.0/23'', wc_dns = d\<rparr>"
  by code_simp

text \<open>
  C31: The file is written with whatever the server sends: whatever \<open>x\<close> is, there is a reply whose
  DNS server makes the login succeed and puts the lines of \<open>x\<close> into the interface section of the
  file that the tunnel service reads.\<close>

theorem dns_adds_lines:
  "\<exists>s n c. WgLogin (win_demo_env (win_reply_with_dns (''1.1.1.1'' @ newline # x)) (ExitCode 0))
       (Some ''ann'') (Some ''pw'') (Some ''https://h'') win_start 0 = Some (0, s, n) \<and> w_conf s = Some (conf_text c) \<and>
     split_on newline (conf_text c) = interface_lines c @ ''DNS = 1.1.1.1'' # split_on newline x @ peer_lines c @ [[]]"
proof -
  let ?d = "''1.1.1.1'' @ newline # x"
  let ?c = "\<lparr>wc_token = ''t'', wc_priv = ''k'', wc_addr = ''10.8.1.2/32'',
     wc_srv_pub = ''s'', wc_psk = ''p'', wc_endpoint = ''h:51820'', wc_allowed_ips = ''10.8.0.0/23'', wc_dns = ?d\<rparr>"
  have "\<exists>s n. WgLogin (win_demo_env (win_reply_with_dns ?d) (ExitCode 0)) (Some ''ann'') (Some ''pw'') (Some ''https://h'')
      win_start 0 = Some (0, s, n) \<and> w_conf s = Some (conf_text ?c)"
    by (simp add: WgLogin_def win_start_def win_demo_env_def starts_with_def PostJson_def MAX_RESPONSE_SIZE_def
        read_login_reply_def win_reply_config apply_config_def InstallTunnel_def SetStatus_def Let_def)
  moreover have "split_on newline (conf_text ?c) = interface_lines ?c @ split_on newline ((''DNS = 1.1.1.1'') @ newline # x) @
      peer_lines ?c @ [[]]"
    by (subst conf_text_lines) (simp_all add: newline_def)
  moreover have "split_on newline (''DNS = 1.1.1.1'' @ newline # x) = ''DNS = 1.1.1.1'' # split_on newline x"
    by (rule split_on_append) (simp add: newline_def)
  ultimately show ?thesis by auto
qed

section \<open>Failures\<close>

text \<open>
  A login whose tunnel cannot be installed leaves its traces: the file with the private key stays,
  the token stays and the server is not told, and a logout afterwards does nothing but answer 0, so
  the session on the server lives until it expires.\<close>

lemma failed_install_keeps_key:
  assumes "WgLogin E u p url s n = Some (-4, s', n')"
  shows "\<exists>c. w_conf s' = Some (conf_text c) \<and> w_session_token s' = wc_token c \<and> \<not> w_is_running s' \<and>
     WgLogout E' s' m = Some (0, s', m)"
proof -
  have "\<not> w_is_running s" using assms by (auto simp: WgLogin_def)
  then obtain s1 resp_str code n1 where "read_login_reply E resp_str code s1 n1 = (-4, s', n')" "\<not> w_is_running s1"
    using assms by (auto simp: WgLogin_def SetStatus_def Let_def split: if_splits option.splits prod.splits bind_splits)
  then obtain c where "apply_config E c s1 n1 = (-4, s', n')" "\<not> w_is_running s1"
    by (auto simp: read_login_reply_def split: option.splits if_splits)
  then show ?thesis
    by (auto simp: apply_config_def SetStatus_def WgLogout_def Let_def split: prod.splits if_splits)
qed

lemma failed_install_keeps_key_witness:
  "\<exists>s n c. WgLogin (win_demo_env win_demo_reply NotStarted) (Some ''ann'') (Some ''pw'') (Some ''https://h'') win_start 0 = Some (-4, s, n) \<and>
     w_conf s = Some (conf_text c) \<and> \<not> w_is_running s"
proof -
  have "case WgLogin (win_demo_env win_demo_reply NotStarted) (Some ''ann'') (Some ''pw'') (Some ''https://h'') win_start 0 of
     Some (r, s, n) \<Rightarrow> r = -4 | None \<Rightarrow> False" by code_simp
  then obtain s n where s: "WgLogin (win_demo_env win_demo_reply NotStarted) (Some ''ann'') (Some ''pw'') (Some ''https://h'') win_start 0 =
      Some (-4, s, n)" by (auto split: option.splits)
  from failed_install_keeps_key [OF this, of "win_demo_env win_demo_reply NotStarted" 0] s show ?thesis by blast
qed

text \<open>
  A connection that breaks inside the body is taken for the end of the body: the request succeeds
  with the part that has arrived, whatever would have followed.\<close>

lemma broken_body_accepted:
  "fst (PostJson (E\<lparr>winhttp := \<lambda>r n. (run\<lparr>read_turns := ts @ QueryFailed # us\<rparr>, n)\<rparr>) url b i n) =
   fst (PostJson (E\<lparr>winhttp := \<lambda>r n. (run\<lparr>read_turns := ts\<rparr>, n)\<rparr>) url b i n)"
proof -
  have "read_body (ts @ QueryFailed # us) acc = read_body ts acc" for acc
    by (induction ts acc rule: read_body.induct) (auto simp: Let_def)
  then show ?thesis by (simp add: PostJson_def Let_def split: option.splits prod.splits)
qed

lemma read_body_bounded:
  "length b \<le> MAX_RESPONSE_SIZE \<Longrightarrow> read_body ts b = (True, r) \<Longrightarrow> length r \<le> MAX_RESPONSE_SIZE"
  by (induction ts b rule: read_body.induct) (auto simp: Let_def split: if_splits)

section \<open>Renewal and status\<close>

lemma renew_wait: "i + k < renew_seconds \<Longrightarrow> RenewThreadFunc E k i s n = Some (s, (sleep_second E ^^ k) n)"
  by (induction k arbitrary: i n) (auto simp: Let_def funpow_swap1)

lemma renew_due: "i + Suc k = renew_seconds \<Longrightarrow> RenewThreadFunc E (Suc k + m) i s n =
    do { (s, n) \<leftarrow> win_renew_turn E s ((sleep_second E ^^ Suc k) n); RenewThreadFunc E m 0 s n }"
  by (induction k arbitrary: i n) (auto simp: Let_def funpow_swap1)

text \<open>
  The renewal period is fixed: the thread sends one renewal after each six hours, and nothing in
  between, whatever lifetime the server has given to the session.\<close>

lemma renewal_period:
  "RenewThreadFunc E (renew_seconds + m) 0 s n =
     do { (s, n) \<leftarrow> win_renew_turn E s ((sleep_second E ^^ renew_seconds) n); RenewThreadFunc E m 0 s n } \<and>
   RenewThreadFunc E (m mod renew_seconds) 0 s n = Some (s, (sleep_second E ^^ (m mod renew_seconds)) n)"
proof
  obtain k where k: "renew_seconds = Suc k" by (simp add: renew_seconds_def)
  show "RenewThreadFunc E (renew_seconds + m) 0 s n =
     do { (s, n) \<leftarrow> win_renew_turn E s ((sleep_second E ^^ renew_seconds) n); RenewThreadFunc E m 0 s n }"
    using renew_due [of 0 k E m s n] unfolding k by (simp only: add_0)
  have "m mod renew_seconds < renew_seconds" by (simp add: renew_seconds_def)
  then show "RenewThreadFunc E (m mod renew_seconds) 0 s n = Some (s, (sleep_second E ^^ (m mod renew_seconds)) n)"
    by (intro renew_wait) simp
qed

text \<open>
  The status fits the caller's buffer: the buffer keeps its length and the bytes behind
  \<open>max_len\<close>, and it holds the status as a C string, cut to \<open>max_len - 1\<close> bytes.\<close>

lemma status_fits:
  assumes "0 < max_len" "nat max_len \<le> length buf" "CHR 0x00 \<notin> set (w_status s)"
  shows "\<exists>b. WgGetStatus (Some buf) max_len s = (0, Some b) \<and> length b = length buf \<and>
     drop (nat max_len) b = drop (nat max_len) buf \<and> cstr b = take (nat max_len - 1) (w_status s)"
proof -
  obtain m where m: "nat max_len = Suc m" using assms(1) by (cases "nat max_len") auto
  let ?c = "take m (w_status s)"
  let ?z = "replicate (m - length ?c) (CHR 0x00) @ [CHR 0x00]"
  have g: "WgGetStatus (Some buf) max_len s = (0, Some (?c @ ?z @ drop (Suc m) buf))"
    using assms(1) m by (simp add: WgGetStatus_def Let_def)
  have "length (?c @ ?z) = Suc m" by simp
  then have "length (?c @ ?z @ drop (Suc m) buf) = length buf" "drop (Suc m) (?c @ ?z @ drop (Suc m) buf) = drop (Suc m) buf"
    using assms(2) m by auto
  moreover have "cstr (?c @ ?z @ drop (Suc m) buf) = ?c"
  proof -
    have z: "cstr (?c @ CHR 0x00 # r) = ?c" for r
      using assms(3) by (auto simp: cstr_def takeWhile_append dest: in_set_takeD)
    have "cstr (?c @ replicate k (CHR 0x00) @ CHR 0x00 # r) = ?c" for k r
      using z by (cases k) auto
    from this [of "m - length ?c" "drop (Suc m) buf"] show ?thesis by simp
  qed
  ultimately show ?thesis using g m by auto
qed

lemma status_fits_witness:
  "\<exists>b. WgGetStatus (Some (replicate 6 (CHR ''x''))) 5 win_start = (0, Some b) \<and> length b = 6 \<and> cstr b = ''Disc''"
proof -
  have "\<exists>b. WgGetStatus (Some (replicate 6 (CHR ''x''))) 5 win_start = (0, Some b) \<and> length b = length (replicate 6 (CHR ''x'')) \<and>
     drop (nat 5) b = drop (nat 5) (replicate 6 (CHR ''x'')) \<and> cstr b = take (nat 5 - 1) (w_status win_start)"
    by (rule status_fits) (simp_all add: win_start_def)
  then show ?thesis by (simp add: win_start_def) blast
qed

end
