(* ===== verification/WgKey.thy ===== *)
theory WgKey
  imports CLib
begin

text \<open>
  The key text format of \<open>server/third_party/wireguard.c\<close>: the branch-free base64 coder and
  decoder for 32-byte keys, and the constant-time zero test. A \<open>wg_key\<close> is a list of 32
  bytes. Arithmetic is on the C type \<open>int\<close>, where no value leaves the 32-bit range, with
  \<open>>>\<close> on negative values as the arithmetic shift. The theory shows that coding and decoding
  are inverse to each other in both directions, so each key has exactly one accepted text.
\<close>

section \<open>Coding\<close>

definition WG_KEY_LEN :: nat where "WG_KEY_LEN = 32"

definition base64_char :: "int \<Rightarrow> char" where
  "base64_char v = char_of (nat (v + 65 + (drop_bit 8 (25 - v) AND 6) - (drop_bit 8 (51 - v) AND 75)
     - (drop_bit 8 (61 - v) AND 15) + (drop_bit 8 (62 - v) AND 3)))"

definition encode_base64 :: "u8 \<Rightarrow> u8 \<Rightarrow> u8 \<Rightarrow> string" where
  "encode_base64 s0 s1 s2 = map base64_char
     [drop_bit 2 (uint s0) AND 63,
      (push_bit 4 (uint s0) OR drop_bit 4 (uint s1)) AND 63,
      (push_bit 2 (uint s1) OR drop_bit 6 (uint s2)) AND 63,
      uint s2 AND 63]"

text \<open>
  The loop over full groups of three bytes and the final group of two, whose fourth
  character is replaced by the padding.
\<close>

fun wg_key_to_base64 :: "bytes \<Rightarrow> string" where
  "wg_key_to_base64 [a, b] = take 3 (encode_base64 a b 0) @ ''=''"
| "wg_key_to_base64 (a # b # c # key) = encode_base64 a b c @ wg_key_to_base64 key"
| "wg_key_to_base64 _ = []"

section \<open>Decoding\<close>

text \<open>The value of a (signed) \<open>char\<close>.\<close>

definition schar :: "char \<Rightarrow> int" where
  "schar c = signed_take_bit 7 (int (of_char c))"

definition base64_val :: "char \<Rightarrow> int" where
  "base64_val c =
     (let s = schar c in
      -1 + (drop_bit 8 ((64 - s) AND (s - 91)) AND (s - 64))
         + (drop_bit 8 ((96 - s) AND (s - 123)) AND (s - 70))
         + (drop_bit 8 ((47 - s) AND (s - 58)) AND (s + 5))
         + (drop_bit 8 ((42 - s) AND (s - 44)) AND 63)
         + (drop_bit 8 ((46 - s) AND (s - 48)) AND 64))"

definition decode_base64 :: "char \<Rightarrow> char \<Rightarrow> char \<Rightarrow> char \<Rightarrow> int" where
  "decode_base64 c0 c1 c2 c3 =
     push_bit 18 (base64_val c0) OR push_bit 12 (base64_val c1) OR
     push_bit 6 (base64_val c2) OR base64_val c3"

text \<open>\<open>(uint32_t)val >> 31\<close>\<close>

definition sign_bit :: "int \<Rightarrow> u8" where
  "sign_bit val = (if bit val 31 then 1 else 0)"

definition byte_at :: "nat \<Rightarrow> int \<Rightarrow> u8" where
  "byte_at n val = word_of_int (drop_bit n val AND 255)"

text \<open>The decoding loop: the key bytes and the accumulated error byte \<open>ret\<close>.\<close>

fun decode_groups :: "string \<Rightarrow> u8 \<Rightarrow> bytes \<times> u8" where
  "decode_groups [a, b, c, d] ret =
     (let val = decode_base64 a b c (CHR ''A'')
      in ([byte_at 16 val, byte_at 8 val], ret OR (sign_bit val OR byte_at 0 val)))"
| "decode_groups (a # b # c # d # rest) ret =
     (let val = decode_base64 a b c d;
          (key, ret') = decode_groups rest (ret OR sign_bit val)
      in (byte_at 16 val # byte_at 8 val # byte_at 0 val # key, ret'))"
| "decode_groups _ ret = ([], ret)"

definition EINVAL :: int where "EINVAL = 22"

text \<open>The result is \<open>-errno\<close> and the key, which is written even when the text is rejected
  by the error byte.\<close>

definition wg_key_from_base64 :: "bytes \<Rightarrow> string \<Rightarrow> int \<times> bytes" where
  "wg_key_from_base64 key base64 =
     (if length base64 \<noteq> 44 \<or> base64 ! 43 \<noteq> CHR ''='' then (- EINVAL, key)
      else let (key', ret) = decode_groups base64 0
           in (- (EINVAL AND NOT (drop_bit 8 (uint ret - 1))), key'))"

definition wg_key_is_zero :: "bytes \<Rightarrow> bool" where
  "wg_key_is_zero key = (1 AND drop_bit 8 (uint (foldl (OR) 0 key) - 1) \<noteq> (0 :: int))"

section \<open>The alphabet\<close>

text \<open>The masks: a shift by eight turns a small number into all ones or zero.\<close>

lemma shift8: "-256 \<le> x \<Longrightarrow> x < 256 \<Longrightarrow> drop_bit 8 (x :: int) = (if x < 0 then -1 else 0)"
  by (auto simp: drop_bit_eq_div)

lemma shift8_and:
  "-256 \<le> x \<Longrightarrow> x < 256 \<Longrightarrow> -256 \<le> y \<Longrightarrow> y < 256 \<Longrightarrow>
   drop_bit 8 (x AND y :: int) AND z = (if x < 0 \<and> y < 0 then z else 0)"
  by (simp add: shift8)

lemma schar_range: "-128 \<le> schar c \<and> schar c < 128"
  unfolding schar_def
  using signed_take_bit_int_greater_eq_minus_exp [of 7 "int (of_char c)"]
    signed_take_bit_int_less_exp [of 7 "int (of_char c)"] by simp

lemma base64_val_cases_of:
  "base64_val c = -1 + (if 64 < schar c \<and> schar c < 91 then schar c - 64 else 0)
     + (if 96 < schar c \<and> schar c < 123 then schar c - 70 else 0)
     + (if 47 < schar c \<and> schar c < 58 then schar c + 5 else 0)
     + (if schar c = 43 then 63 else 0) + (if schar c = 47 then 64 else 0)"
proof -
  have r: "-128 \<le> schar c" "schar c < 128" using schar_range [of c] by auto
  show ?thesis
    unfolding base64_val_def Let_def using r
      shift8_and [of "64 - schar c" "schar c - 91" "schar c - 64"]
      shift8_and [of "96 - schar c" "schar c - 123" "schar c - 70"]
      shift8_and [of "47 - schar c" "schar c - 58" "schar c + 5"]
      shift8_and [of "42 - schar c" "schar c - 44" 63] shift8_and [of "46 - schar c" "schar c - 48" 64]
    by (simp del: drop_bit_and)
qed

lemma base64_char_cases_of:
  "0 \<le> v \<Longrightarrow> v < 64 \<Longrightarrow> base64_char v = char_of (nat (v + 65 + (if 25 < v then 6 else 0)
     - (if 51 < v then 75 else 0) - (if 61 < v then 15 else 0) + (if 62 < v then 3 else 0)))"
  unfolding base64_char_def by (simp add: shift8)

lemma schar_char_of: "n < 128 \<Longrightarrow> schar (char_of n) = int n"
  by (simp add: schar_def signed_take_bit_int_eq_self_iff)

lemma char_of_schar:
  assumes "0 \<le> schar c" shows "char_of (nat (schar c)) = c"
proof -
  define n where "n = (of_char c :: nat)"
  have "n < 256" by (simp add: n_def)
  have "schar c = (int n + 128) mod 256 - 128"
    by (simp add: schar_def n_def signed_take_bit_eq_take_bit_shift take_bit_eq_mod)
  moreover have "n < 128 \<Longrightarrow> (int n + 128) mod 256 = int n + 128"
    by (rule mod_pos_pos_trivial) auto
  moreover have "\<not> n < 128 \<Longrightarrow> (int n + 128) mod 256 = int n - 128"
  proof -
    assume "\<not> n < 128"
    then have "(int n - 128) mod 256 = int n - 128"
      using \<open>n < 256\<close> by (intro mod_pos_pos_trivial) auto
    then show ?thesis using mod_add_self2 [of "int n - 128" 256] by (simp add: add.commute)
  qed
  ultimately have "schar c = (if n < 128 then int n else int n - 256)"
    by simp
  with assms \<open>n < 256\<close> have "schar c = int n" by (simp split: if_splits)
  then show ?thesis by (simp add: n_def)
qed

lemma base64_val_char [simp]: "0 \<le> v \<Longrightarrow> v < 64 \<Longrightarrow> base64_val (base64_char v) = v"
  by (simp add: base64_char_cases_of base64_val_cases_of schar_char_of)

lemma base64_val_cases:
  "base64_val c = -1 \<or> 0 \<le> base64_val c \<and> base64_val c < 64 \<and> base64_char (base64_val c) = c"
  using schar_range [of c] char_of_schar [of c]
  by (auto simp: base64_val_cases_of base64_char_cases_of)

section \<open>One group\<close>

text \<open>The four sextets of three bytes and the 24-bit value of four sextets.\<close>

definition sextets :: "u8 \<Rightarrow> u8 \<Rightarrow> u8 \<Rightarrow> int list" where
  "sextets s0 s1 s2 =
     [drop_bit 2 (uint s0) AND 63,
      (push_bit 4 (uint s0) OR drop_bit 4 (uint s1)) AND 63,
      (push_bit 2 (uint s1) OR drop_bit 6 (uint s2)) AND 63,
      uint s2 AND 63]"

definition join_sextets :: "int \<Rightarrow> int \<Rightarrow> int \<Rightarrow> int \<Rightarrow> int" where
  "join_sextets v0 v1 v2 v3 = push_bit 18 v0 OR push_bit 12 v1 OR push_bit 6 v2 OR v3"

lemma encode_sextets: "encode_base64 a b c = map base64_char (sextets a b c)"
  by (simp add: encode_base64_def sextets_def)

lemma decode_join:
  "decode_base64 c0 c1 c2 c3 = join_sextets (base64_val c0) (base64_val c1) (base64_val c2) (base64_val c3)"
  by (simp add: decode_base64_def join_sextets_def)

lemma sextets_range: "v \<in> set (sextets a b c) \<Longrightarrow> 0 \<le> v \<and> v < 64"
proof -
  have "0 \<le> x AND 63 \<and> x AND 63 < 64" for x :: int
    using AND_upper2 [of 63 x] by (simp add: order.strict_trans1)
  moreover assume "v \<in> set (sextets a b c)"
  ultimately show ?thesis by (auto simp: sextets_def)
qed

lemma small_nat_cases: "(n :: nat) < 8 \<Longrightarrow> n = 0 \<or> n = 1 \<or> n = 2 \<or> n = 3 \<or> n = 4 \<or> n = 5 \<or> n = 6 \<or> n = 7"
  by auto

lemma bit_63: "bit (63 :: int) n \<longleftrightarrow> n < 6"
  using bit_mask_iff [of 6 n, where ?'a = int] by (simp add: mask_eq_exp_minus_1)

lemma bit_255: "bit (255 :: int) n \<longleftrightarrow> n < 8"
  using bit_mask_iff [of 8 n, where ?'a = int] by (simp add: mask_eq_exp_minus_1)

lemma bit_byte_at: "n < 8 \<Longrightarrow> bit (byte_at k val) n \<longleftrightarrow> bit val (k + n)"
  by (simp add: byte_at_def bit_simps bit_255)

lemma byte_eqI: "(\<And>n. n < 8 \<Longrightarrow> bit a n \<longleftrightarrow> bit b n) \<Longrightarrow> a = (b :: u8)"
  by (rule bit_word_eqI) simp

lemma bit_uint_high: "8 \<le> n \<Longrightarrow> \<not> bit (uint (a :: u8)) n"
  by (simp add: bit_uint_iff)

lemma join_sextets_bytes:
  assumes "sextets a b c = [v0, v1, v2, v3]"
  shows "byte_at 16 (join_sextets v0 v1 v2 v3) = a" "byte_at 8 (join_sextets v0 v1 v2 v3) = b"
    "byte_at 0 (join_sextets v0 v1 v2 v3) = c"
proof -
  have v: "v0 = drop_bit 2 (uint a) AND 63" "v1 = (push_bit 4 (uint a) OR drop_bit 4 (uint b)) AND 63"
    "v2 = (push_bit 2 (uint b) OR drop_bit 6 (uint c)) AND 63" "v3 = uint c AND 63"
    using assms by (auto simp: sextets_def)
  show "byte_at 16 (join_sextets v0 v1 v2 v3) = a"
    by (rule byte_eqI, drule small_nat_cases)
      (auto simp: bit_byte_at join_sextets_def v bit_or_iff bit_and_iff bit_push_bit_iff
        bit_drop_bit_eq bit_63 bit_uint_iff)
  show "byte_at 8 (join_sextets v0 v1 v2 v3) = b"
    by (rule byte_eqI, drule small_nat_cases)
      (auto simp: bit_byte_at join_sextets_def v bit_or_iff bit_and_iff bit_push_bit_iff
        bit_drop_bit_eq bit_63 bit_uint_iff)
  show "byte_at 0 (join_sextets v0 v1 v2 v3) = c"
  proof (rule byte_eqI)
    fix n :: nat assume "n < 8"
    moreover have "n = 6 + (n - 6)" if "\<not> n < 6" using that by simp
    ultimately show "bit (byte_at 0 (join_sextets v0 v1 v2 v3)) n = bit c n"
      by (cases "n < 6") (auto simp: bit_byte_at join_sextets_def v bit_or_iff bit_and_iff
          bit_push_bit_iff bit_drop_bit_eq bit_63 bit_uint_iff simp del: push_bit_numeral)
  qed
qed

lemma bit_sextet: "0 \<le> v \<Longrightarrow> v < 64 \<Longrightarrow> bit (v :: int) n \<longleftrightarrow> n < 6 \<and> bit v n"
  using bit_take_bit_iff [of 6 v n] by (simp add: take_bit_int_eq_self)

lemma bit_uint_byte_at: "bit (uint (byte_at k val)) n \<longleftrightarrow> n < 8 \<and> bit val (k + n)"
  by (auto simp: bit_uint_iff bit_byte_at)

lemma six_cases: "(n :: nat) < 6 \<Longrightarrow> n = 0 \<or> n = 1 \<or> n = 2 \<or> n = 3 \<or> n = 4 \<or> n = 5"
  by auto

lemma sextet_eqI:
  assumes "0 \<le> v" "v < 64" "\<And>n. n < 6 \<Longrightarrow> bit x n \<longleftrightarrow> bit (v :: int) n"
  shows "x AND 63 = v"
  using assms(3) bit_sextet [OF assms(1,2)] by (intro bit_eqI) (auto simp: bit_and_iff bit_63)

lemma bit_join_sextets:
  assumes "0 \<le> v0" "v0 < 64" "0 \<le> v1" "v1 < 64" "0 \<le> v2" "v2 < 64" "0 \<le> v3" "v3 < 64"
  shows "bit (join_sextets v0 v1 v2 v3) n \<longleftrightarrow>
     (18 \<le> n \<and> n < 24 \<and> bit v0 (n - 18)) \<or> (12 \<le> n \<and> n < 18 \<and> bit v1 (n - 12)) \<or>
     (6 \<le> n \<and> n < 12 \<and> bit v2 (n - 6)) \<or> (n < 6 \<and> bit v3 n)"
  unfolding join_sextets_def bit_or_iff bit_push_bit_iff
  using bit_sextet [OF assms(1,2), of "n - 18"] bit_sextet [OF assms(3,4), of "n - 12"]
    bit_sextet [OF assms(5,6), of "n - 6"] bit_sextet [OF assms(7,8), of n] by auto

lemma sextets_join:
  assumes "0 \<le> v0" "v0 < 64" "0 \<le> v1" "v1 < 64" "0 \<le> v2" "v2 < 64" "0 \<le> v3" "v3 < 64"
  defines "j \<equiv> join_sextets v0 v1 v2 v3"
  shows "sextets (byte_at 16 j) (byte_at 8 j) (byte_at 0 j) = [v0, v1, v2, v3]"
proof -
  note b = bit_or_iff bit_push_bit_iff bit_drop_bit_eq bit_uint_byte_at j_def
    bit_join_sextets [OF assms(1-8)]
  have "drop_bit 2 (uint (byte_at 16 j)) AND 63 = v0"
    by (rule sextet_eqI [OF assms(1,2)]) (simp add: b)
  moreover have "(push_bit 4 (uint (byte_at 16 j)) OR drop_bit 4 (uint (byte_at 8 j))) AND 63 = v1"
  proof (rule sextet_eqI [OF assms(3,4)])
    fix n :: nat assume "n < 6"
    then show "bit (push_bit 4 (uint (byte_at 16 j)) OR drop_bit 4 (uint (byte_at 8 j))) n = bit v1 n"
      by (cases "n < 4") (auto simp: b)
  qed
  moreover have "(push_bit 2 (uint (byte_at 8 j)) OR drop_bit 6 (uint (byte_at 0 j))) AND 63 = v2"
  proof (rule sextet_eqI [OF assms(5,6)])
    fix n :: nat assume "n < 6"
    then show "bit (push_bit 2 (uint (byte_at 8 j)) OR drop_bit 6 (uint (byte_at 0 j))) n = bit v2 n"
      by (cases "n < 2") (auto simp: b)
  qed
  moreover have "uint (byte_at 0 j) AND 63 = v3"
    by (rule sextet_eqI [OF assms(7,8)]) (simp add: b)
  ultimately show ?thesis by (simp add: sextets_def)
qed

text \<open>The sign bit reports a character outside the alphabet.\<close>

lemma base64_val_neg: "base64_val c < 0 \<longleftrightarrow> base64_val c = -1"
  using base64_val_cases [of c] by auto

lemma sign_decode:
  "sign_bit (decode_base64 c0 c1 c2 c3) = 0 \<longleftrightarrow>
   0 \<le> base64_val c0 \<and> 0 \<le> base64_val c1 \<and> 0 \<le> base64_val c2 \<and> 0 \<le> base64_val c3"
proof -
  have b: "bit (push_bit k (base64_val c)) 31 \<longleftrightarrow> base64_val c < 0" if "k \<le> 18" for c k
    using base64_val_cases [of c] bit_sextet [of "base64_val c" "31 - k"] that
    by (auto simp: bit_push_bit_iff)
  show ?thesis
    using b [of 0 c3] by (auto simp: sign_bit_def decode_base64_def bit_or_iff b not_less)
qed

section \<open>Round trips\<close>

lemma encode_sextets_base64: "sextets a b c = [v0, v1, v2, v3] \<Longrightarrow>
    encode_base64 a b c = [base64_char v0, base64_char v1, base64_char v2, base64_char v3]"
  by (simp add: encode_sextets)

lemma sextets_Cons:
  obtains v0 v1 v2 v3 where "sextets a b c = [v0, v1, v2, v3]"
    "0 \<le> v0" "v0 < 64" "0 \<le> v1" "v1 < 64" "0 \<le> v2" "v2 < 64" "0 \<le> v3" "v3 < 64"
proof -
  obtain v0 v1 v2 v3 where v: "sextets a b c = [v0, v1, v2, v3]" by (simp add: sextets_def)
  have "0 \<le> v \<and> v < 64" if "v \<in> {v0, v1, v2, v3}" for v
    using sextets_range [of v a b c] v that by auto
  then show thesis using that [OF v] by simp
qed

lemma decode_encode_group:
  assumes "encode_base64 a b c = [c0, c1, c2, c3]"
  shows "byte_at 16 (decode_base64 c0 c1 c2 c3) = a" "byte_at 8 (decode_base64 c0 c1 c2 c3) = b"
    "byte_at 0 (decode_base64 c0 c1 c2 c3) = c" "sign_bit (decode_base64 c0 c1 c2 c3) = 0"
proof -
  obtain v0 v1 v2 v3 where v: "sextets a b c = [v0, v1, v2, v3]"
    "0 \<le> v0" "v0 < 64" "0 \<le> v1" "v1 < 64" "0 \<le> v2" "v2 < 64" "0 \<le> v3" "v3 < 64"
    by (rule sextets_Cons)
  have c: "c0 = base64_char v0" "c1 = base64_char v1" "c2 = base64_char v2" "c3 = base64_char v3"
    using assms v by (simp_all add: encode_sextets)
  show "byte_at 16 (decode_base64 c0 c1 c2 c3) = a" "byte_at 8 (decode_base64 c0 c1 c2 c3) = b"
    "byte_at 0 (decode_base64 c0 c1 c2 c3) = c"
    using join_sextets_bytes [OF v(1)] v(2-) by (simp_all add: decode_join c)
  show "sign_bit (decode_base64 c0 c1 c2 c3) = 0"
    unfolding sign_decode using v(2-) by (simp add: c)
qed

lemma encode_decode_group:
  assumes "sign_bit (decode_base64 c0 c1 c2 c3) = 0"
  defines "j \<equiv> decode_base64 c0 c1 c2 c3"
  shows "encode_base64 (byte_at 16 j) (byte_at 8 j) (byte_at 0 j) = [c0, c1, c2, c3]"
proof -
  have r: "0 \<le> base64_val c \<and> base64_val c < 64 \<and> base64_char (base64_val c) = c"
    if "c \<in> {c0, c1, c2, c3}" for c
    using assms(1) that base64_val_cases [of c] unfolding sign_decode by auto
  then show ?thesis
    unfolding j_def decode_join encode_sextets
    by (subst sextets_join) auto
qed

lemma char_65: "char_of (65 :: nat) = CHR ''A''"
  by code_simp

lemma last_char_two_bytes: "encode_base64 a b 0 ! 3 = CHR ''A''"
  by (simp add: encode_base64_def base64_char_def char_65)

lemma take_three: "length xs = 4 \<Longrightarrow> xs ! 3 = d \<Longrightarrow> xs = take 3 xs @ [d]"
  by (auto simp: length_Suc_conv numeral_eq_Suc)

lemma encode_base64_Cons: obtains c0 c1 c2 c3 where "encode_base64 a b c = [c0, c1, c2, c3]"
  by (simp add: encode_base64_def)

lemma two_bytes_Cons:
  obtains c0 c1 c2 where "encode_base64 a b 0 = [c0, c1, c2, CHR ''A'']"
  using encode_base64_Cons [of a b 0] last_char_two_bytes [of a b]
  by (metis nth_Cons_0 nth_Cons_numeral nth_Cons_Suc numeral_3_eq_3)

lemma to_base64_ne: "length key mod 3 = 2 \<Longrightarrow> wg_key_to_base64 key \<noteq> []"
  by (induction key rule: wg_key_to_base64.induct) (auto simp: encode_base64_def)

lemma decode_groups_Cons:
  "rest \<noteq> [] \<Longrightarrow> decode_groups (a # b # c # d # rest) ret =
     (let val = decode_base64 a b c d;
          (key, ret') = decode_groups rest (ret OR sign_bit val)
      in (byte_at 16 val # byte_at 8 val # byte_at 0 val # key, ret'))"
  by (cases rest) auto

lemma decode_groups_to_base64:
  "length key mod 3 = 2 \<Longrightarrow> decode_groups (wg_key_to_base64 key) r = (key, r)"
proof (induction key arbitrary: r rule: wg_key_to_base64.induct)
  case (1 a b)
  obtain c0 c1 c2 where e: "encode_base64 a b 0 = [c0, c1, c2, CHR ''A'']"
    by (rule two_bytes_Cons)
  show ?case using decode_encode_group [OF e] by (simp add: e Let_def)
next
  case (2 a b c key)
  obtain c0 c1 c2 c3 where e: "encode_base64 a b c = [c0, c1, c2, c3]"
    by (rule encode_base64_Cons)
  have m: "length key mod 3 = 2" using 2(2) by simp
  show ?case
    using decode_encode_group [OF e] 2(1) [OF m]
    by (simp add: e decode_groups_Cons to_base64_ne [OF m])
qed auto

lemma length_to_base64: "length key = 3 * n + 2 \<Longrightarrow> length (wg_key_to_base64 key) = 4 * n + 4"
proof (induction key arbitrary: n rule: wg_key_to_base64.induct)
  case (2 a b c key)
  then obtain m where "n = Suc m" by (cases n) auto
  then show ?case using 2(1) [of m] 2(2) by (simp add: encode_base64_def)
qed (auto simp: encode_base64_def)

lemma last_to_base64: "length key mod 3 = 2 \<Longrightarrow> last (wg_key_to_base64 key) = CHR ''=''"
proof (induction key rule: wg_key_to_base64.induct)
  case (2 a b c key)
  then have "length key mod 3 = 2" by simp
  then show ?case using 2 to_base64_ne by simp
qed auto

lemma to_base64_decode_groups:
  "decode_groups s r = (k, 0) \<Longrightarrow> length s mod 4 = 0 \<Longrightarrow> s \<noteq> [] \<Longrightarrow> last s = CHR ''='' \<Longrightarrow>
   wg_key_to_base64 k = s \<and> r = 0 \<and> Suc (length k) = 3 * (length s div 4)"
proof (induction s r arbitrary: k rule: decode_groups.induct)
  case (1 a b c d r)
  let ?j = "decode_base64 a b c (CHR ''A'')"
  have z: "r = 0" "sign_bit ?j = 0" "byte_at 0 ?j = 0" "k = [byte_at 16 ?j, byte_at 8 ?j]"
    using 1(1) by (auto simp: Let_def or_eq_0_iff)
  show ?case using encode_decode_group [OF z(2)] 1(4) by (simp add: z)
next
  case (2 a b c d e rest r)
  let ?j = "decode_base64 a b c d"
  obtain k' where k: "decode_groups (e # rest) (r OR sign_bit ?j) = (k', 0)"
      "k = byte_at 16 ?j # byte_at 8 ?j # byte_at 0 ?j # k'"
    using 2(2) by (auto simp: Let_def split: prod.splits)
  have "length (a # b # c # d # e # rest) = length (e # rest) + 4" by simp
  then have l: "length (e # rest) mod 4 = 0" "last (e # rest) = CHR ''=''"
    using 2(3,5) by (metis mod_add_self2, simp)
  have ih: "wg_key_to_base64 k' = e # rest" "r OR sign_bit ?j = 0"
      "Suc (length k') = 3 * (length (e # rest) div 4)"
    using 2(1) [OF refl k(1) l(1) _ l(2)] by auto
  have z: "r = 0" "sign_bit ?j = 0" using ih(2) by (auto simp: or_eq_0_iff)
  have "length (a # b # c # d # e # rest) div 4 = length (e # rest) div 4 + 1" by simp
  then show ?case using encode_decode_group [OF z(2)] ih(1,3) by (simp add: k(2) z)
qed auto

lemma borrow8: "0 \<le> x \<Longrightarrow> x < 256 \<Longrightarrow> drop_bit 8 (x - 1) = (if x = 0 then -1 else (0 :: int))"
  by (simp add: shift8)

lemma error_value: "- (EINVAL AND NOT (drop_bit 8 (uint (ret :: u8) - 1))) = (if ret = 0 then 0 else - EINVAL)"
proof (cases "ret = 0")
  case False
  then have "0 < uint ret" by (simp add: less_le uint_0_iff)
  moreover have "uint ret < 256" using uint_lt2p [of ret] by simp
  ultimately show ?thesis using False by (simp add: shift8)
qed simp

lemma from_base64_value:
  "length s = 44 \<Longrightarrow> s ! 43 = CHR ''='' \<Longrightarrow> wg_key_from_base64 key s =
     (case decode_groups s 0 of (k, ret) \<Rightarrow> (if ret = 0 then 0 else - EINVAL, k))"
  by (simp add: wg_key_from_base64_def error_value split: prod.splits)

section \<open>Keys\<close>

lemma or_fold_zero: "foldl (OR) r key = (0 :: u8) \<longleftrightarrow> r = 0 \<and> (\<forall>b \<in> set key. b = 0)"
  by (induction key arbitrary: r) (auto simp: or_eq_0_iff)

lemma all_replicate: "(\<forall>b \<in> set xs. b = c) \<longleftrightarrow> xs = replicate (length xs) c"
  by (induction xs) auto

text \<open>
  The constant-time zero test is the plain one: a key is zero exactly when every byte is.\<close>

lemma wg_key_is_zero_iff: "wg_key_is_zero key \<longleftrightarrow> key = replicate (length key) 0"
proof -
  let ?a = "foldl (OR) 0 key :: u8"
  have "uint ?a < 256" using uint_lt2p [of ?a] by simp
  then have "drop_bit 8 (uint ?a - 1) = (if uint ?a = 0 then -1 else 0)"
    by (intro borrow8 uint_ge_0)
  then have "wg_key_is_zero key \<longleftrightarrow> ?a = 0" by (simp add: wg_key_is_zero_def uint_0_iff)
  then show ?thesis by (simp add: or_fold_zero all_replicate)
qed

lemma from_to_base64:
  assumes "length key = WG_KEY_LEN"
  shows "length (wg_key_to_base64 key) = 44 \<and>
    wg_key_from_base64 old (wg_key_to_base64 key) = (0, key)"
proof -
  have l: "length (wg_key_to_base64 key) = 44"
    using length_to_base64 [of key 10] assms by (simp add: WG_KEY_LEN_def)
  moreover have m: "length key mod 3 = 2" using assms by (simp add: WG_KEY_LEN_def)
  have "wg_key_to_base64 key ! 43 = CHR ''=''"
    using last_to_base64 [OF m] to_base64_ne [OF m] l by (simp add: last_conv_nth)
  ultimately show ?thesis
    by (simp add: from_base64_value decode_groups_to_base64 [OF m])
qed

text \<open>
  C17: Decoding inverts coding: the text of a 32-byte key has 44 characters, decodes without
  error, and gives back the key, whatever the output buffer held.\<close>

theorem wg_key_base64_roundtrip:
  assumes "length key = WG_KEY_LEN"
  shows "length (wg_key_to_base64 key) = 44 \<and>
    wg_key_from_base64 old (wg_key_to_base64 key) = (0, key)"
  using assms by (rule from_to_base64)

theorem wg_key_base64_roundtrip_witness:
  "wg_key_from_base64 [] (wg_key_to_base64 (replicate 32 171)) = (0, replicate 32 171)"
  using wg_key_base64_roundtrip [of "replicate 32 171" "[]"] by (simp add: WG_KEY_LEN_def)

section \<open>The interface of a key codec\<close>

text \<open>
  What the users of key texts rely on: a 32-byte key survives being written and read.\<close>

locale key_codec =
  fixes enc :: "bytes \<Rightarrow> string" and dec :: "string \<Rightarrow> bytes option"
  assumes dec_enc: "length key = WG_KEY_LEN \<Longrightarrow> dec (enc key) = Some key"
begin

lemma enc_inject:
  "length k = WG_KEY_LEN \<Longrightarrow> length k' = WG_KEY_LEN \<Longrightarrow> enc k = enc k' \<longleftrightarrow> k = k'"
  by (metis dec_enc option.inject)

end

definition key_of_text :: "string \<Rightarrow> bytes option" where
  "key_of_text s = (case wg_key_from_base64 [] s of (err, key) \<Rightarrow> if err = 0 then Some key else None)"

interpretation wgkeys: key_codec wg_key_to_base64 key_of_text
  by unfold_locales (simp add: key_of_text_def from_to_base64)

section \<open>Decoding accepts canonical texts only\<close>

text \<open>
  C20: Coding inverts decoding: the decoder accepts only the canonical text of a key (in
  particular the spare bits before the padding must be zero), so no two accepted texts name the
  same key, and the decoded key has 32 bytes.\<close>

theorem wg_key_base64_canonical:
  assumes "wg_key_from_base64 old s = (0, key)"
  shows "wg_key_to_base64 key = s \<and> length key = WG_KEY_LEN"
proof -
  have s: "length s = 44" "s ! 43 = CHR ''=''"
    using assms by (auto simp: wg_key_from_base64_def EINVAL_def split: if_splits)
  then have d: "decode_groups s 0 = (key, 0)"
    using assms by (auto simp: from_base64_value EINVAL_def split: prod.splits if_splits)
  have "s \<noteq> []" using s by auto
  moreover from this have "last s = CHR ''=''" using s by (simp add: last_conv_nth)
  ultimately show ?thesis using to_base64_decode_groups [OF d] s by (auto simp: WG_KEY_LEN_def)
qed

theorem wg_key_base64_canonical_witness:
  "wg_key_to_base64 (replicate 32 0) = replicate 43 (CHR ''A'') @ ''=''"
proof -
  have "wg_key_from_base64 [] (replicate 43 (CHR ''A'') @ ''='') = (0, replicate 32 0)"
    by code_simp
  then show ?thesis by (rule wg_key_base64_canonical [THEN conjunct1])
qed

end
