(* ===== verification/Config.thy ===== *)
theory Config
  imports CLib
begin

text \<open>
  The configuration reader of \<open>server/src/config.c\<close>: the defaults, the trimming and number
  functions, and \<open>load_config\<close> as a fold over the lines that \<open>fgets\<close> delivers (pieces of at
  most 511 characters). The configuration file is \<open>None\<close> when it cannot be opened. The
  theory shows that every number ends up in its documented range whatever the file says,
  that values fit their buffers, and that a configuration written out in the file format is
  read back unchanged.
\<close>

section \<open>The configuration\<close>

record server_config =
  wg_interface :: string
  wg_conf_path :: string
  endpoint_public_addr :: string
  dns :: string
  api_listen_addr :: string
  api_listen_port :: int
  tls_cert :: string
  tls_key :: string
  db_path :: string
  ip_pool_cidr :: string
  ip_pool_exclude :: string
  session_default_ttl_seconds :: int
  session_renew_grace_seconds :: int
  session_reap_interval_seconds :: int
  argon2_time_cost :: int
  argon2_mem_cost_kb :: int

definition MAX_PATH_LEN :: nat where "MAX_PATH_LEN = 256"
definition MAX_IP_LEN :: nat where "MAX_IP_LEN = 64"
definition MAX_HOST_LEN :: nat where "MAX_HOST_LEN = 128"

definition set_default_config :: server_config where
  "set_default_config = \<lparr>wg_interface = ''wg0'', wg_conf_path = ''/etc/wireguard/wg0.conf'',
     endpoint_public_addr = [], dns = [], api_listen_addr = ''127.0.0.1'', api_listen_port = 8443,
     tls_cert = [], tls_key = [], db_path = [], ip_pool_cidr = [], ip_pool_exclude = [],
     session_default_ttl_seconds = 43200, session_renew_grace_seconds = 0,
     session_reap_interval_seconds = 60, argon2_time_cost = 3, argon2_mem_cost_kb = 65536\<rparr>"

definition safe_atoi :: "string \<Rightarrow> int \<Rightarrow> int \<Rightarrow> int \<Rightarrow> int" where
  "safe_atoi str min_val max_val default_val =
     (let (v, endptr) = strtol str in
      if endptr \<noteq> [] \<and> hd endptr \<notin> {newline, CHR 0x0D, CHR '' ''} then default_val
      else if v < min_val \<or> v > max_val then default_val
      else v)"

text \<open>The backward loop stops at the first character of the string.\<close>

definition trim :: "string \<Rightarrow> string" where
  "trim s = (case dropWhile isspace s of [] \<Rightarrow> []
     | c # t \<Rightarrow> c # rev (dropWhile isspace (rev t)))"

text \<open>The assignment of one \<open>key = value\<close> line; \<open>strncpy\<close> keeps one byte for the NUL.\<close>

definition config_set :: "string \<Rightarrow> string \<Rightarrow> string \<Rightarrow> server_config \<Rightarrow> server_config" where
  "config_set sec key val cfg =
    (if sec = ''server'' then
       (if key = ''wg_interface'' then cfg\<lparr>wg_interface := take (MAX_PATH_LEN - 1) val\<rparr>
        else if key = ''wg_conf_path'' then cfg\<lparr>wg_conf_path := take (MAX_PATH_LEN - 1) val\<rparr>
        else if key = ''endpoint_public_addr'' then cfg\<lparr>endpoint_public_addr := take (MAX_HOST_LEN - 1) val\<rparr>
        else if key = ''dns'' then cfg\<lparr>dns := take (MAX_IP_LEN - 1) val\<rparr> else cfg)
     else if sec = ''api'' then
       (if key = ''listen_addr'' then cfg\<lparr>api_listen_addr := take (MAX_IP_LEN - 1) val\<rparr>
        else if key = ''listen_port'' then cfg\<lparr>api_listen_port := safe_atoi val 1 65535 8443\<rparr>
        else if key = ''tls_cert'' then cfg\<lparr>tls_cert := take (MAX_PATH_LEN - 1) val\<rparr>
        else if key = ''tls_key'' then cfg\<lparr>tls_key := take (MAX_PATH_LEN - 1) val\<rparr> else cfg)
     else if sec = ''db'' then
       (if key = ''path'' then cfg\<lparr>db_path := take (MAX_PATH_LEN - 1) val\<rparr> else cfg)
     else if sec = ''ip_pool'' then
       (if key = ''cidr'' then cfg\<lparr>ip_pool_cidr := take (MAX_IP_LEN - 1) val\<rparr>
        else if key = ''exclude'' then cfg\<lparr>ip_pool_exclude := take (MAX_IP_LEN - 1) val\<rparr> else cfg)
     else if sec = ''session'' then
       (if key = ''default_ttl_seconds'' then cfg\<lparr>session_default_ttl_seconds := safe_atoi val 60 (86400 * 30) 3600\<rparr>
        else if key = ''renew_grace_seconds'' then cfg\<lparr>session_renew_grace_seconds := safe_atoi val 0 86400 300\<rparr>
        else if key = ''reap_interval_seconds'' then cfg\<lparr>session_reap_interval_seconds := safe_atoi val 5 3600 60\<rparr>
        else cfg)
     else if sec = ''security'' then
       (if key = ''argon2_time_cost'' then cfg\<lparr>argon2_time_cost := safe_atoi val 1 100 3\<rparr>
        else if key = ''argon2_mem_cost_kb'' then cfg\<lparr>argon2_mem_cost_kb := safe_atoi val 1024 4194304 65536\<rparr>
        else cfg)
     else cfg)"

text \<open>The body of the loop; the state is the current section and the configuration.\<close>

definition config_line :: "string \<Rightarrow> string \<times> server_config \<Rightarrow> string \<times> server_config" where
  "config_line line st =
     (let (sec, cfg) = st; p = trim line in
      if p = [] \<or> hd p = CHR ''#'' \<or> hd p = CHR '';'' then st
      else if hd p = CHR ''['' \<and> CHR '']'' \<in> set p then
        (take 63 (tl (fst (cut_at (CHR '']'') p))), cfg)
      else case cut_at (CHR ''='') p of
        (_, None) \<Rightarrow> st
      | (k, Some v) \<Rightarrow>
          let key = trim k; val = trim v;
              val = (case cut_at (CHR '';'') val of (_, None) \<Rightarrow> val | (v', Some _) \<Rightarrow> trim v')
          in (sec, config_set sec key val cfg))"

definition load_config :: "string option \<Rightarrow> int \<times> server_config" where
  "load_config file =
     (case file of None \<Rightarrow> (-1, set_default_config)
      | Some text \<Rightarrow> (0, snd (fold config_line (fgets_lines 511 text) ([], set_default_config))))"

section \<open>Ranges\<close>

definition config_ok :: "server_config \<Rightarrow> bool" where
  "config_ok c \<longleftrightarrow>
     1 \<le> api_listen_port c \<and> api_listen_port c \<le> 65535 \<and>
     60 \<le> session_default_ttl_seconds c \<and> session_default_ttl_seconds c \<le> 2592000 \<and>
     0 \<le> session_renew_grace_seconds c \<and> session_renew_grace_seconds c \<le> 86400 \<and>
     5 \<le> session_reap_interval_seconds c \<and> session_reap_interval_seconds c \<le> 3600 \<and>
     1 \<le> argon2_time_cost c \<and> argon2_time_cost c \<le> 100 \<and>
     1024 \<le> argon2_mem_cost_kb c \<and> argon2_mem_cost_kb c \<le> 4194304 \<and>
     list_all (\<lambda>s. length s < 256) [wg_interface c, wg_conf_path c, tls_cert c, tls_key c, db_path c] \<and>
     list_all (\<lambda>s. length s < 64) [dns c, api_listen_addr c, ip_pool_cidr c, ip_pool_exclude c] \<and>
     length (endpoint_public_addr c) < 128"

lemma safe_atoi_range: "a \<le> d \<Longrightarrow> d \<le> b \<Longrightarrow> a \<le> safe_atoi s a b d \<and> safe_atoi s a b d \<le> b"
  by (auto simp: safe_atoi_def split: prod.splits)

lemma config_ok_default: "config_ok set_default_config"
  by (simp add: config_ok_def set_default_config_def)

lemma config_ok_set: "config_ok cfg \<Longrightarrow> config_ok (config_set sec key val cfg)"
  unfolding config_ok_def config_set_def MAX_PATH_LEN_def MAX_IP_LEN_def MAX_HOST_LEN_def
  using safe_atoi_range [of 1 8443 65535 val] safe_atoi_range [of 60 3600 2592000 val]
    safe_atoi_range [of 0 300 86400 val] safe_atoi_range [of 5 60 3600 val]
    safe_atoi_range [of 1 3 100 val] safe_atoi_range [of 1024 65536 4194304 val]
  by (simp add: min_less_iff_disj)

lemma config_ok_line: "config_ok (snd st) \<Longrightarrow> config_ok (snd (config_line line st))"
  by (auto simp: config_line_def Let_def config_ok_set split: prod.splits option.splits)

lemma config_ok_loaded: "config_ok (snd (load_config file))"
proof -
  have "config_ok (snd (fold config_line ls st))" if "config_ok (snd st)" for ls st
    using that by (induction ls arbitrary: st) (simp_all add: config_ok_line)
  then show ?thesis
    by (simp add: load_config_def config_ok_default split: option.splits)
qed

text \<open>
  C39: Whatever the configuration file holds (or when there is none), every number of the loaded
  configuration lies in its documented range and every string fits its buffer.\<close>

theorem load_config_ok: "config_ok (snd (load_config file))"
  by (rule config_ok_loaded)

section \<open>Round trip\<close>

text \<open>
  A value that can be written: no newline, NUL or comment sign, and no space at its ends.\<close>

definition plain :: "string \<Rightarrow> bool" where
  "plain s \<longleftrightarrow> (\<forall>c \<in> set s. c \<noteq> newline \<and> c \<noteq> CHR 0x00 \<and> c \<noteq> CHR '';'') \<and>
     (s \<noteq> [] \<longrightarrow> \<not> isspace (hd s) \<and> \<not> isspace (last s))"

definition key_line :: "string \<Rightarrow> string \<Rightarrow> string" where
  "key_line key val = key @ CHR ''='' # val"

definition section_text :: "string \<Rightarrow> string" where
  "section_text sec = CHR ''['' # sec @ '']''"

definition config_lines :: "server_config \<Rightarrow> string list" where
  "config_lines c =
     [section_text ''server'', key_line ''wg_interface'' (wg_interface c), key_line ''wg_conf_path'' (wg_conf_path c),
      key_line ''endpoint_public_addr'' (endpoint_public_addr c), key_line ''dns'' (dns c),
      section_text ''api'', key_line ''listen_addr'' (api_listen_addr c),
      key_line ''listen_port'' (dec_of_int (api_listen_port c)),
      key_line ''tls_cert'' (tls_cert c), key_line ''tls_key'' (tls_key c),
      section_text ''db'', key_line ''path'' (db_path c),
      section_text ''ip_pool'', key_line ''cidr'' (ip_pool_cidr c), key_line ''exclude'' (ip_pool_exclude c),
      section_text ''session'', key_line ''default_ttl_seconds'' (dec_of_int (session_default_ttl_seconds c)),
      key_line ''renew_grace_seconds'' (dec_of_int (session_renew_grace_seconds c)),
      key_line ''reap_interval_seconds'' (dec_of_int (session_reap_interval_seconds c)),
      section_text ''security'', key_line ''argon2_time_cost'' (dec_of_int (argon2_time_cost c)),
      key_line ''argon2_mem_cost_kb'' (dec_of_int (argon2_mem_cost_kb c))]"

definition config_plain :: "server_config \<Rightarrow> bool" where
  "config_plain c \<longleftrightarrow> list_all plain [wg_interface c, wg_conf_path c, endpoint_public_addr c, dns c,
     api_listen_addr c, tls_cert c, tls_key c, db_path c, ip_pool_cidr c, ip_pool_exclude c]"

lemma trim_id [cstring_simps]: "s = [] \<or> \<not> isspace (hd s) \<and> \<not> isspace (last s) \<Longrightarrow> trim s = s"
proof (cases s)
  case (Cons c t)
  moreover assume "s = [] \<or> \<not> isspace (hd s) \<and> \<not> isspace (last s)"
  ultimately have "\<not> isspace c" "t \<noteq> [] \<Longrightarrow> \<not> isspace (last t)" by auto
  then have "dropWhile isspace (rev t) = rev t" by (cases t rule: rev_cases) auto
  then show ?thesis using Cons \<open>\<not> isspace c\<close> by (simp add: trim_def)
qed (simp add: trim_def)

lemma trim_newline [cstring_simps]:
  "s \<noteq> [] \<Longrightarrow> \<not> isspace (hd s) \<Longrightarrow> trim (s @ [newline]) = trim s"
  by (cases s) (auto simp: trim_def newline_def isspace_def)

lemma section_line:
  assumes "CHR '']'' \<notin> set sec" "length sec < 63"
  shows "config_line (section_text sec @ [newline]) (old, cfg) = (sec, cfg)"
proof -
  have "\<not> isspace (CHR ''['')" "\<not> isspace (CHR '']'')" by (simp_all add: isspace_def)
  then have "trim (section_text sec @ [newline]) = CHR ''['' # sec @ '']''"
    unfolding section_text_def by (subst trim_newline) (auto intro: trim_id)
  moreover have "cut_at (CHR '']'') (CHR ''['' # sec @ '']'') = (CHR ''['' # sec, Some [])"
    using cut_at_here [of "CHR '']''" "CHR ''['' # sec" "[]"] assms by simp
  ultimately show ?thesis using assms by (simp add: config_line_def Let_def)
qed

definition key_name :: "string \<Rightarrow> bool" where
  "key_name key \<longleftrightarrow> key \<noteq> [] \<and> (\<forall>c \<in> set key. \<not> isspace c \<and> c \<noteq> CHR ''='' \<and> c \<noteq> CHR 0x00) \<and>
     hd key \<notin> {CHR ''#'', CHR '';'', CHR ''[''}"

lemma value_line:
  assumes "key_name key" "plain val"
  shows "config_line (key_line key val @ [newline]) (sec, cfg) = (sec, config_set sec key val cfg)"
proof -
  have k: "key \<noteq> []" "\<not> isspace (hd key)" "\<not> isspace (last key)" "CHR ''='' \<notin> set key"
    "hd key \<notin> {CHR ''#'', CHR '';'', CHR ''[''}"
    using assms(1) by (auto simp: key_name_def)
  have v: "trim val = val" "CHR '';'' \<notin> set val" "val \<noteq> [] \<Longrightarrow> \<not> isspace (last val)"
    using assms(2) by (auto simp: plain_def intro: trim_id)
  have "\<not> isspace (CHR ''='')" by (simp add: isspace_def)
  then have "\<not> isspace (last (key_line key val))" using v(3) by (auto simp: key_line_def)
  then have "trim (key_line key val @ [newline]) = key_line key val"
    using k by (subst trim_newline) (auto simp: key_line_def intro!: trim_id)
  moreover have "cut_at (CHR ''='') (key_line key val) = (key, Some val)"
    using k by (simp add: key_line_def cut_at_here)
  moreover have "trim key = key" using k by (intro trim_id) auto
  moreover have "hd (key_line key val) = hd key" "key_line key val \<noteq> []"
    using k by (simp_all add: key_line_def)
  ultimately show ?thesis
    using k v by (simp add: config_line_def Let_def cut_at_none)
qed

lemma digit_plain: "isdigit c \<Longrightarrow> c \<noteq> newline \<and> c \<noteq> CHR 0x00 \<and> c \<noteq> CHR '';'' \<and> \<not> isspace c"
  by (auto simp: newline_def isdigit_def isspace_def)

lemma plain_dec [simp]: "0 \<le> n \<Longrightarrow> plain (dec_of_int n)"
  using dec_of_nat_digits [of _ "nat n"] digit_plain
  by (auto simp: plain_def dec_of_int_def)

lemma safe_atoi_dec: "0 \<le> n \<Longrightarrow> a \<le> n \<Longrightarrow> n \<le> b \<Longrightarrow> n < 2 ^ 63 \<Longrightarrow> safe_atoi (dec_of_int n) a b d = n"
  using strtol_digits [of "dec_of_nat (nat n)" "[]"] dec_of_nat_digits
  by (simp add: safe_atoi_def dec_of_int_def)

lemma plain_takes: "length s < n \<Longrightarrow> take (n - 1) s = s"
  by simp

lemma line_clean:
  assumes "key_name key" "plain val" "length key < 30" "length val < 256"
  shows "newline \<notin> set (key_line key val) \<and> CHR 0x00 \<notin> set (key_line key val) \<and> length (key_line key val) < 511"
proof -
  have "isspace newline" by (simp add: isspace_def newline_def)
  then have "newline \<notin> set key" "CHR 0x00 \<notin> set key" using assms(1) by (auto simp: key_name_def)
  moreover have "newline \<notin> set val" "CHR 0x00 \<notin> set val" using assms(2) by (auto simp: plain_def)
  ultimately show ?thesis using assms(3,4) by (simp add: key_line_def newline_def)
qed

lemma length_dec_of_int: "0 \<le> n \<Longrightarrow> n < 10000000 \<Longrightarrow> length (dec_of_int n) < 256"
proof -
  have step: "m div 10 < k \<Longrightarrow> length (dec_of_nat (m div 10)) \<le> l \<Longrightarrow> length (dec_of_nat m) \<le> Suc l" for m k l
    by (subst dec_of_nat.simps) auto
  assume "0 \<le> n" "n < 10000000"
  then have "nat n div 10 div 10 div 10 div 10 < 1000" by simp
  then have "length (dec_of_nat (nat n div 10 div 10 div 10 div 10)) \<le> 3"
    by (rule length_dec_of_nat_le3)
  then have "length (dec_of_nat (nat n)) \<le> Suc (Suc (Suc (Suc 3)))"
    by (intro step [OF lessI])
  then show ?thesis using \<open>0 \<le> n\<close> by (simp add: dec_of_int_def)
qed

text \<open>The whole file.\<close>

lemma config_keys:
  "list_all key_name [''wg_interface'', ''wg_conf_path'', ''endpoint_public_addr'', ''dns'',
     ''listen_addr'', ''listen_port'', ''tls_cert'', ''tls_key'', ''path'', ''cidr'', ''exclude'',
     ''default_ttl_seconds'', ''renew_grace_seconds'', ''reap_interval_seconds'',
     ''argon2_time_cost'', ''argon2_mem_cost_kb'']"
  by (simp add: key_name_def isspace_def)

lemma config_lines_fold:
  assumes "config_ok c" "config_plain c"
  shows "fold config_line (map (\<lambda>l. l @ [newline]) (config_lines c)) (sec, cfg) = (''security'', c)"
  using assms [unfolded config_ok_def config_plain_def] config_keys
  by (simp add: config_lines_def section_line value_line)
    (simp add: config_set_def MAX_PATH_LEN_def MAX_IP_LEN_def MAX_HOST_LEN_def safe_atoi_dec)

lemma config_lines_clean:
  assumes "config_ok c" "config_plain c" "l \<in> set (config_lines c)"
  shows "newline \<notin> set l \<and> CHR 0x00 \<notin> set l \<and> length l < 511"
proof -
  have sec: "newline \<notin> set (section_text s) \<and> CHR 0x00 \<notin> set (section_text s) \<and> length (section_text s) < 511"
    if "s \<in> {''server'', ''api'', ''db'', ''ip_pool'', ''session'', ''security''}" for s
    using that by (auto simp: section_text_def newline_def)
  have num: "length (dec_of_int (api_listen_port c)) < 256"
    "length (dec_of_int (session_default_ttl_seconds c)) < 256"
    "length (dec_of_int (session_renew_grace_seconds c)) < 256"
    "length (dec_of_int (session_reap_interval_seconds c)) < 256"
    "length (dec_of_int (argon2_time_cost c)) < 256" "length (dec_of_int (argon2_mem_cost_kb c)) < 256"
    using assms(1) by (intro length_dec_of_int; simp add: config_ok_def)+
  have "list_all (\<lambda>l. newline \<notin> set l \<and> CHR 0x00 \<notin> set l \<and> length l < 511) (config_lines c)"
    using assms(1,2) config_keys num unfolding config_lines_def config_ok_def config_plain_def
    by (simp add: sec line_clean)
  then show ?thesis using assms(3) by (simp add: list_all_iff)
qed

lemma load_config_lines:
  "config_ok c \<Longrightarrow> config_plain c \<Longrightarrow> load_config (Some (unlines (config_lines c))) = (0, c)"
  using config_lines_fold [of c "[]" set_default_config]
  by (simp add: load_config_def fgets_lines_unlines [OF config_lines_clean])

text \<open>
  C15: A configuration whose values are in range, fit their buffers and can be written on a line,
  written out section by section in the file format, is loaded back unchanged.\<close>

theorem load_config_roundtrip:
  assumes "config_ok c" "config_plain c"
  shows "load_config (Some (unlines (config_lines c))) = (0, c)"
  using assms by (rule load_config_lines)

definition demo_config :: server_config where
  "demo_config = set_default_config\<lparr>dns := ''8.8.8.8'', ip_pool_cidr := ''10.10.0.0/24'',
     session_renew_grace_seconds := 3600\<rparr>"

theorem load_config_roundtrip_witness:
  "load_config (Some (unlines (config_lines demo_config))) = (0, demo_config)"
  by (rule load_config_roundtrip)
    (simp_all add: config_ok_def config_plain_def plain_def demo_config_def set_default_config_def
      newline_def isspace_def)

text \<open>
  A value may be followed by a comment after a semicolon, a line of another section does not
  count, and a number out of range falls back to the fallback of its key, which is not the
  default of the missing key (3600 instead of 43200 seconds for the session lifetime).\<close>

lemma load_config_fallback:
  "session_default_ttl_seconds (snd (load_config (Some
      (''[session]'' @ newline # ''default_ttl_seconds = 59 ; too short'' @ [newline])))) = 3600 \<and>
   session_default_ttl_seconds (snd (load_config (Some
      (''[api]'' @ newline # ''default_ttl_seconds = 60'' @ [newline])))) = 43200"
  by code_simp

end
