(* ===== verification/IpPool.thy ===== *)
theory IpPool
  imports CLib
begin

text \<open>
  The address pool of \<open>server/src/ip_pool.c\<close>. The file's static variables are the record
  \<open>ip_pool\<close>; \<open>bitmap\<close> is \<open>None\<close> while the pointer is NULL, and an access through NULL or
  outside the allocated bytes is undefined behaviour. Every operation on the bitmap runs
  under \<open>pool_mutex\<close>, so each is one step. The theory shows what range a CIDR denotes,
  that the bitmap refines a set of used indices, that an allocated address was free,
  inside the range and outside the excluded range, and that releasing an address makes
  exactly that address free again.
\<close>

section \<open>State\<close>

record ip_pool =
  pool_start :: u32
  pool_end :: u32
  exclude_start :: u32
  exclude_end :: u32
  bitmap :: "bytes option"
  num_ips :: u32

definition pool_statics :: ip_pool where
  "pool_statics = \<lparr>pool_start = 0, pool_end = 0, exclude_start = 0, exclude_end = 0,
     bitmap = None, num_ips = 0\<rparr>"

section \<open>Parsing a CIDR\<close>

definition cidr_mask :: "int \<Rightarrow> u32" where
  "cidr_mask prefix = (if prefix = 0 then 0 else push_bit (nat (32 - prefix)) (NOT 0))"

definition parse_cidr :: "string \<Rightarrow> (u32 \<times> u32) option" where
  "parse_cidr cidr =
     (let (ip_str, slash) = cut_at (CHR ''/'') (take 63 cidr);
          prefix = (case slash of None \<Rightarrow> 32 | Some s \<Rightarrow> atoi s)
      in if prefix < 1 \<or> prefix > 30 then None
         else case inet_pton4 ip_str of
             None \<Rightarrow> None
           | Some ip \<Rightarrow> (let start = ip AND cidr_mask prefix
               in Some (start, start OR NOT (cidr_mask prefix))))"

section \<open>The bitmap\<close>

definition bit_mask :: "nat \<Rightarrow> u8" where
  "bit_mask i = push_bit (i mod 8) 1"

definition bm_get :: "bytes \<Rightarrow> nat \<Rightarrow> bool ub" where
  "bm_get bm i = (if i div 8 < length bm then Some (bm ! (i div 8) AND bit_mask i \<noteq> 0) else None)"

definition bm_set :: "bytes \<Rightarrow> nat \<Rightarrow> bytes ub" where
  "bm_set bm i = (if i div 8 < length bm
     then Some (bm[i div 8 := bm ! (i div 8) OR bit_mask i]) else None)"

definition bm_clear :: "bytes \<Rightarrow> nat \<Rightarrow> bytes ub" where
  "bm_clear bm i = (if i div 8 < length bm
     then Some (bm[i div 8 := bm ! (i div 8) AND NOT (bit_mask i)]) else None)"

section \<open>Operations\<close>

text \<open>
  \<open>ip_pool_init\<close> returns the error code and the statics it leaves. The range is stored
  before the size is checked, and a bad exclude range is only logged. \<open>mem\<close> is whether
  \<open>calloc\<close> finds memory.
\<close>

definition ip_pool_init :: "bool \<Rightarrow> string \<Rightarrow> string \<Rightarrow> ip_pool \<Rightarrow> (int \<times> ip_pool) ub" where
  "ip_pool_init mem cidr exclude p =
     (case parse_cidr cidr of
        None \<Rightarrow> Some (-1, p)
      | Some (s, e) \<Rightarrow>
          (let (xs, xe) = (if exclude = [] then (0, 0)
                 else case parse_cidr exclude of None \<Rightarrow> (0, 0) | Some r \<Rightarrow> r);
               n = e - s + 1;
               p1 = p\<lparr>pool_start := s, pool_end := e, exclude_start := xs, exclude_end := xe,
                     num_ips := n\<rparr>
           in if n \<le> 2 then Some (-1, p1)
              else if n = 0 \<or> n > 1048576 then Some (-1, p1)
              else if \<not> mem then Some (-1, p1\<lparr>bitmap := None\<rparr>)
              else do {
                let bm0 = replicate (unat ((n + 7) div 8)) 0;
                bm1 \<leftarrow> bm_set bm0 0;
                bm2 \<leftarrow> bm_set bm1 (unat (n - 1));
                Some (0, p1\<lparr>bitmap := Some bm2\<rparr>)
              }))"

definition excluded :: "ip_pool \<Rightarrow> u32 \<Rightarrow> bool" where
  "excluded p ip \<longleftrightarrow> ip \<ge> exclude_start p \<and> ip \<le> exclude_end p"

text \<open>
  The loop of \<open>ip_pool_allocate\<close> from index \<open>i\<close> up to \<open>n = num_ips - 1\<close>: the bitmap it
  leaves and the address it stops at.
\<close>

function alloc_from :: "ip_pool \<Rightarrow> bytes \<Rightarrow> nat \<Rightarrow> nat \<Rightarrow> (bytes \<times> u32 option) ub" where
  "alloc_from p bm i n =
     (if i < n then
        do {
          used \<leftarrow> bm_get bm i;
          if \<not> used then
            (let ip = pool_start p + of_nat i in
             do {
               bm' \<leftarrow> bm_set bm i;
               if excluded p ip then alloc_from p bm' (Suc i) n
               else Some (bm', Some ip)
             })
          else alloc_from p bm (Suc i) n
        }
      else Some (bm, None))"
  by pat_completeness auto
termination
  by (relation "measure (\<lambda>(p, bm, i, n). n - i)") auto

declare alloc_from.simps [simp del]

text \<open>The caller's buffer of \<open>max_len\<close> bytes receives the address, cut by \<open>snprintf\<close>.\<close>

definition ip_pool_allocate :: "nat \<Rightarrow> ip_pool \<Rightarrow> (string option \<times> ip_pool) ub" where
  "ip_pool_allocate max_len p =
     do {
       bm \<leftarrow> bitmap p;
       r \<leftarrow> alloc_from p bm 1 (unat (num_ips p - 1));
       (case r of (bm', res) \<Rightarrow>
          Some (map_option (\<lambda>ip. take (max_len - 1) (inet_ntop4 ip @ ''/32'')) res, p\<lparr>bitmap := Some bm'\<rparr>))
     }"

text \<open>The address part of the argument of \<open>ip_pool_release\<close> and \<open>ip_pool_mark_used\<close>.\<close>

definition ip_of_cidr :: "string \<Rightarrow> u32 option" where
  "ip_of_cidr ip_cidr = inet_pton4 (fst (cut_at (CHR ''/'') (take 63 ip_cidr)))"

definition ip_pool_release :: "string \<Rightarrow> ip_pool \<Rightarrow> (int \<times> ip_pool) ub" where
  "ip_pool_release ip_cidr p =
     (case ip_of_cidr ip_cidr of
        None \<Rightarrow> Some (-1, p)
      | Some ip \<Rightarrow>
          if ip < pool_start p \<or> ip > pool_end p then Some (-1, p)
          else do {
            bm \<leftarrow> bitmap p;
            bm' \<leftarrow> bm_clear bm (unat (ip - pool_start p));
            Some (0, p\<lparr>bitmap := Some bm'\<rparr>)
          })"

definition ip_pool_mark_used :: "string \<Rightarrow> ip_pool \<Rightarrow> (int \<times> ip_pool) ub" where
  "ip_pool_mark_used ip_cidr p =
     (case ip_of_cidr ip_cidr of
        None \<Rightarrow> Some (-1, p)
      | Some ip \<Rightarrow>
          if ip < pool_start p \<or> ip > pool_end p then Some (-1, p)
          else do {
            bm \<leftarrow> bitmap p;
            bm' \<leftarrow> bm_set bm (unat (ip - pool_start p));
            Some (0, p\<lparr>bitmap := Some bm'\<rparr>)
          })"

definition ip_pool_destroy :: "ip_pool \<Rightarrow> ip_pool" where
  "ip_pool_destroy p = p\<lparr>bitmap := None\<rparr>"

section \<open>The bitmap as a set of indices\<close>

text \<open>
  What a byte array of flags promises: reads and writes are defined exactly below the
  capacity, and a write changes one flag.
\<close>

definition flags :: "('b \<Rightarrow> nat \<Rightarrow> bool option) \<Rightarrow> 'b \<Rightarrow> nat set" where
  "flags get b = {i. get b i = Some True}"

locale bit_array =
  fixes get :: "'b \<Rightarrow> nat \<Rightarrow> bool option"
    and put :: "'b \<Rightarrow> nat \<Rightarrow> 'b option"
    and del :: "'b \<Rightarrow> nat \<Rightarrow> 'b option"
    and cap :: "'b \<Rightarrow> nat"
  assumes get_None: "get b i = None \<longleftrightarrow> cap b \<le> i"
    and put_None: "put b i = None \<longleftrightarrow> cap b \<le> i"
    and del_None: "del b i = None \<longleftrightarrow> cap b \<le> i"
    and put_cap: "put b i = Some b' \<Longrightarrow> cap b' = cap b"
    and del_cap: "del b i = Some b' \<Longrightarrow> cap b' = cap b"
    and put_get: "put b i = Some b' \<Longrightarrow> j < cap b \<Longrightarrow> get b' j = (if j = i then Some True else get b j)"
    and del_get: "del b i = Some b' \<Longrightarrow> j < cap b \<Longrightarrow> get b' j = (if j = i then Some False else get b j)"
begin

lemma flags_less: "i \<in> flags get b \<Longrightarrow> i < cap b"
  using get_None [of b i] by (cases "cap b \<le> i") (auto simp: flags_def)

lemma get_flags: "i < cap b \<Longrightarrow> get b i = Some (i \<in> flags get b)"
  using get_None [of b i] by (cases "get b i") (auto simp: flags_def)

lemma put_flags:
  assumes "put b i = Some b'" shows "flags get b' = insert i (flags get b)"
proof -
  have i: "i < cap b" using put_None [of b i] assms by force
  have "j \<in> flags get b' \<longleftrightarrow> j \<in> insert i (flags get b)" for j
  proof (cases "j < cap b")
    case True
    with put_get [OF assms True] show ?thesis by (auto simp: flags_def)
  next
    case False
    then show ?thesis using flags_less [of j b'] flags_less [of j b] put_cap [OF assms] i by auto
  qed
  then show ?thesis by blast
qed

lemma del_flags:
  assumes "del b i = Some b'" shows "flags get b' = flags get b - {i}"
proof -
  have "j \<in> flags get b' \<longleftrightarrow> j \<in> flags get b - {i}" for j
  proof (cases "j < cap b")
    case True
    with del_get [OF assms True] show ?thesis by (auto simp: flags_def)
  next
    case False
    then show ?thesis using flags_less [of j b'] flags_less [of j b] del_cap [OF assms] by auto
  qed
  then show ?thesis by blast
qed

lemma put_defined: "i < cap b \<Longrightarrow> \<exists>b'. put b i = Some b' \<and> cap b' = cap b \<and> flags get b' = insert i (flags get b)"
  using put_None [of b i] put_cap put_flags by (cases "put b i") auto

lemma del_defined: "i < cap b \<Longrightarrow> \<exists>b'. del b i = Some b' \<and> cap b' = cap b \<and> flags get b' = flags get b - {i}"
  using del_None [of b i] del_cap del_flags by (cases "del b i") auto

end

lemma and_bit_mask: "(x :: u8) AND bit_mask i = 0 \<longleftrightarrow> \<not> bit x (i mod 8)"
  by (simp add: bit_mask_def push_bit_of_1 and_exp_eq_0_iff_not_bit)

lemma bit_bit_mask: "k < 8 \<Longrightarrow> bit (bit_mask i) k \<longleftrightarrow> k = i mod 8"
  by (auto simp: bit_mask_def push_bit_of_1 bit_exp_iff)

lemma bm_put_get:
  assumes "bm_set b i = Some b'" "j < 8 * length b"
  shows "bm_get b' j = (if j = i then Some True else bm_get b j)"
  using assms same_bit_address [of i j]
  by (auto simp: bm_set_def bm_get_def and_bit_mask bit_or_iff bit_bit_mask nth_list_update
      split: if_splits)

lemma bm_del_get:
  assumes "bm_clear b i = Some b'" "j < 8 * length b"
  shows "bm_get b' j = (if j = i then Some False else bm_get b j)"
  using assms same_bit_address [of i j]
  by (auto simp: bm_clear_def bm_get_def and_bit_mask bit_and_iff bit_not_iff bit_bit_mask
      nth_list_update split: if_splits)

interpretation bm: bit_array bm_get bm_set bm_clear "\<lambda>b. 8 * length b"
proof unfold_locales
  show "bm_get b i = None \<longleftrightarrow> 8 * length b \<le> i" for b i
    by (simp add: bm_get_def) linarith
  show "bm_set b i = None \<longleftrightarrow> 8 * length b \<le> i" for b i
    by (simp add: bm_set_def) linarith
  show "bm_clear b i = None \<longleftrightarrow> 8 * length b \<le> i" for b i
    by (simp add: bm_clear_def) linarith
  show "bm_set b i = Some b' \<Longrightarrow> 8 * length b' = 8 * length b" for b i b'
    by (auto simp: bm_set_def split: if_splits)
  show "bm_clear b i = Some b' \<Longrightarrow> 8 * length b' = 8 * length b" for b i b'
    by (auto simp: bm_clear_def split: if_splits)
qed (simp_all add: bm_put_get bm_del_get)

section \<open>The invariant of an initialised pool\<close>

definition pool_size :: "ip_pool \<Rightarrow> nat" where
  "pool_size p = unat (num_ips p)"

definition pool_addr :: "ip_pool \<Rightarrow> nat \<Rightarrow> u32" where
  "pool_addr p k = pool_start p + of_nat k"

definition pool_ok :: "ip_pool \<Rightarrow> bool" where
  "pool_ok p \<longleftrightarrow>
     (case bitmap p of None \<Rightarrow> False | Some bm \<Rightarrow> length bm = (pool_size p + 7) div 8)
     \<and> 2 < pool_size p \<and> pool_size p \<le> 1048576
     \<and> unat (pool_start p) + pool_size p = unat (pool_end p) + 1"

definition used_at :: "ip_pool \<Rightarrow> nat \<Rightarrow> bool" where
  "used_at p k = (case bitmap p of None \<Rightarrow> False | Some bm \<Rightarrow> bm_get bm k = Some True)"

text \<open>What \<open>ip_pool_allocate\<close> is meant to find: the first free index that is not excluded.\<close>

definition first_free :: "ip_pool \<Rightarrow> nat option" where
  "first_free p =
     List.find (\<lambda>k. \<not> used_at p k \<and> \<not> excluded p (pool_addr p k)) [1..<pool_size p - 1]"

definition ip_string :: "u32 \<Rightarrow> string" where
  "ip_string ip = inet_ntop4 ip @ ''/32''"

definition same_range :: "ip_pool \<Rightarrow> ip_pool \<Rightarrow> bool" where
  "same_range p q \<longleftrightarrow> pool_start p = pool_start q \<and> pool_end p = pool_end q \<and> num_ips p = num_ips q
     \<and> exclude_start p = exclude_start q \<and> exclude_end p = exclude_end q"

lemma pool_okE:
  assumes "pool_ok p"
  obtains bm where "bitmap p = Some bm" "length bm = (pool_size p + 7) div 8"
    "pool_size p \<le> 8 * length bm" "\<And>k. used_at p k \<longleftrightarrow> k \<in> flags bm_get bm"
  using assms by (auto simp: pool_ok_def used_at_def flags_def split: option.splits)

lemma pool_ok_bitmap:
  "pool_ok p \<Longrightarrow> bitmap p = Some bm \<Longrightarrow> length bm' = length bm \<Longrightarrow> pool_ok (p\<lparr>bitmap := Some bm'\<rparr>)"
  by (auto simp: pool_ok_def pool_size_def)

lemma unat_pool_addr: "pool_ok p \<Longrightarrow> k < pool_size p \<Longrightarrow> unat (pool_addr p k) = unat (pool_start p) + k"
  unfolding pool_addr_def
  by (rule word_add_unat_less) (use u32_bound [of "pool_end p"] in \<open>simp add: pool_ok_def\<close>)

lemma pool_addr_in_range:
  "pool_ok p \<Longrightarrow> k < pool_size p \<Longrightarrow> pool_start p \<le> pool_addr p k \<and> pool_addr p k \<le> pool_end p"
  by (simp add: word_le_nat_alt unat_pool_addr) (simp add: pool_ok_def)

lemma pool_addr_index: "pool_size p \<le> 2 ^ 32 \<Longrightarrow> k < pool_size p \<Longrightarrow> unat (pool_addr p k - pool_start p) = k"
  unfolding pool_addr_def by (rule word_add_of_nat_diff) simp

lemma pool_size_le32: "pool_ok p \<Longrightarrow> pool_size p \<le> 2 ^ 32"
  by (simp add: pool_ok_def)

lemma pool_addr_inj:
  "pool_ok p \<Longrightarrow> j < pool_size p \<Longrightarrow> k < pool_size p \<Longrightarrow> pool_addr p j = pool_addr p k \<longleftrightarrow> j = k"
  by (metis pool_addr_index pool_size_le32)

lemma pool_index_in_range:
  assumes "pool_ok p" "pool_start p \<le> ip" "ip \<le> pool_end p"
  shows "unat (ip - pool_start p) < pool_size p \<and> pool_addr p (unat (ip - pool_start p)) = ip"
  using assms unat_sub [OF assms(2)]
  by (auto simp: pool_ok_def word_le_nat_alt pool_addr_def)

lemma unat_num_ips_minus_1: "pool_ok p \<Longrightarrow> unat (num_ips p - 1) = pool_size p - 1"
proof -
  assume "pool_ok p"
  then have "(1 :: u32) \<le> num_ips p" by (simp add: pool_ok_def pool_size_def word_le_nat_alt)
  then show ?thesis using unat_sub [of 1 "num_ips p"] by (simp add: pool_size_def)
qed

section \<open>Allocation\<close>

lemma find_cong_on: "(\<And>x. x \<in> set xs \<Longrightarrow> P x = Q x) \<Longrightarrow> List.find P xs = List.find Q xs"
  by (rule find_cong) auto

definition marked_by :: "nat option \<Rightarrow> nat \<Rightarrow> nat \<Rightarrow> nat set" where
  "marked_by r i n = (case r of None \<Rightarrow> {i..<n} | Some k \<Rightarrow> {i..k})"

lemma alloc_from_first_free:
  assumes "n \<le> 8 * length bm"
  shows "\<exists>bm'. alloc_from p bm i n = Some (bm', map_option (pool_addr p)
           (List.find (\<lambda>k. k \<notin> flags bm_get bm \<and> \<not> excluded p (pool_addr p k)) [i..<n]))
       \<and> length bm' = length bm
       \<and> flags bm_get bm' = flags bm_get bm \<union> marked_by
           (List.find (\<lambda>k. k \<notin> flags bm_get bm \<and> \<not> excluded p (pool_addr p k)) [i..<n]) i n"
  using assms
proof (induction p bm i n rule: alloc_from.induct)
  case (1 p bm i n)
  let ?Q = "\<lambda>b k. k \<notin> flags bm_get b \<and> \<not> excluded p (pool_addr p k)"
  show ?case
  proof (cases "i < n")
    case False
    then show ?thesis by (simp add: alloc_from.simps [of p bm i n] marked_by_def)
  next
    case True
    then have i: "i < 8 * length bm" using "1.prems" by simp
    have upt: "[i..<n] = i # [Suc i..<n]" using True by (rule upt_conv_Cons)
    obtain b where b: "bm_set bm i = Some b" "8 * length b = 8 * length bm"
      "flags bm_get b = insert i (flags bm_get bm)"
      using bm.put_defined [OF i] by auto
    have get: "bm_get bm i = Some (i \<in> flags bm_get bm)" by (rule bm.get_flags [OF i])
    have find_b: "List.find (?Q b) [Suc i..<n] = List.find (?Q bm) [Suc i..<n]"
      by (rule find_cong_on) (auto simp: b(3))
    let ?r = "List.find (?Q bm) [Suc i..<n]"
    have "?r = Some k \<Longrightarrow> Suc i \<le> k" for k
      by (drule find_Some_set) simp
    then have "marked_by ?r i n = insert i (marked_by ?r (Suc i) n)"
      using True by (cases ?r) (auto simp: marked_by_def)
    then have un: "F \<union> marked_by ?r i n = insert i F \<union> marked_by ?r (Suc i) n" for F
      by simp
    consider (used) "i \<in> flags bm_get bm"
      | (skip) "i \<notin> flags bm_get bm" "excluded p (pool_addr p i)"
      | (hit) "i \<notin> flags bm_get bm" "\<not> excluded p (pool_addr p i)" by blast
    then show ?thesis
    proof cases
      case used
      then show ?thesis
        using "1.IH"(2) [OF True get] get "1.prems" True un [of "flags bm_get bm"] upt
        by (simp add: alloc_from.simps [of p bm i n] insert_absorb)
    next
      case skip
      have "n \<le> 8 * length b" using "1.prems" b(2) by simp
      then show ?thesis
        using "1.IH"(1) [OF True get skip(1) refl b(1)] get skip True un [of "flags bm_get bm"] upt find_b b
        by (simp add: alloc_from.simps [of p bm i n] flip: pool_addr_def)
    next
      case hit
      then show ?thesis
        using get True upt b
        by (simp add: alloc_from.simps [of p bm i n] marked_by_def flip: pool_addr_def)
    qed
  qed
qed

lemma first_free_less: "first_free p = Some k \<Longrightarrow> 0 < k \<and> k < pool_size p - 1"
  unfolding first_free_def by (drule find_Some_set) simp

lemma length_ip_string: "length (ip_string ip) \<le> 18"
  using length_inet_ntop4 [of ip] by (simp add: ip_string_def)

lemma ip_of_cidr_ip_string [cstring_simps]: "ip_of_cidr (ip_string ip) = Some ip"
proof -
  have "take 63 (ip_string ip) = inet_ntop4 ip @ CHR ''/'' # ''32''"
    using length_ip_string [of ip] by (simp add: ip_string_def)
  then show ?thesis
    by (simp add: ip_of_cidr_def cut_at_here inet_pton4_ntop4)
qed

lemma ip_string_inj: "ip_string a = ip_string b \<longleftrightarrow> a = b"
  by (metis ip_of_cidr_ip_string option.inject)

lemma allocate_refines:
  assumes "pool_ok p" "19 \<le> max_len"
  shows "\<exists>p'. ip_pool_allocate max_len p =
           Some (map_option (\<lambda>k. ip_string (pool_addr p k)) (first_free p), p')
       \<and> pool_ok p' \<and> same_range p' p
       \<and> (\<forall>k. used_at p' k \<longleftrightarrow> used_at p k \<or> k \<in> marked_by (first_free p) 1 (pool_size p - 1))"
proof -
  obtain bm where bm: "bitmap p = Some bm" "pool_size p \<le> 8 * length bm"
    "\<And>k. used_at p k \<longleftrightarrow> k \<in> flags bm_get bm" using pool_okE [OF assms(1)] by metis
  then have "pool_size p - 1 \<le> 8 * length bm" by simp
  from alloc_from_first_free [OF this, of p 1] obtain bm' where bm':
    "alloc_from p bm 1 (pool_size p - 1) = Some (bm', map_option (pool_addr p) (first_free p))"
    "length bm' = length bm"
    "flags bm_get bm' = flags bm_get bm \<union> marked_by (first_free p) 1 (pool_size p - 1)"
    unfolding first_free_def bm(3) by blast
  let ?p' = "p\<lparr>bitmap := Some bm'\<rparr>"
  have "take (max_len - 1) (ip_string ip) = ip_string ip" for ip
    using length_ip_string [of ip] assms(2) by simp
  then have "ip_pool_allocate max_len p =
      Some (map_option (\<lambda>k. ip_string (pool_addr p k)) (first_free p), ?p')"
    by (simp only: ip_pool_allocate_def bm(1) unat_num_ips_minus_1 [OF assms(1)] bm'(1)
        option.map_comp comp_def Option.bind.bind_lunit prod.case flip: ip_string_def)
  moreover have "pool_ok ?p'" by (rule pool_ok_bitmap [OF assms(1) bm(1) bm'(2)])
  moreover have "used_at ?p' k \<longleftrightarrow> used_at p k \<or> k \<in> marked_by (first_free p) 1 (pool_size p - 1)" for k
    using bm'(3) by (simp add: bm(3)) (simp add: used_at_def flags_def set_eq_iff)
  ultimately show ?thesis by (auto simp: same_range_def)
qed

section \<open>Release and reservation\<close>

lemma pool_write:
  assumes "pool_ok p" "pool_start p \<le> ip" "ip \<le> pool_end p"
  shows "\<exists>p'. ip_pool_release (ip_string ip) p = Some (0, p') \<and> pool_ok p' \<and> same_range p' p
           \<and> (\<forall>k. used_at p' k \<longleftrightarrow> used_at p k \<and> k \<noteq> unat (ip - pool_start p))"
    and "\<exists>p'. ip_pool_mark_used (ip_string ip) p = Some (0, p') \<and> pool_ok p' \<and> same_range p' p
           \<and> (\<forall>k. used_at p' k \<longleftrightarrow> used_at p k \<or> k = unat (ip - pool_start p))"
proof -
  let ?i = "unat (ip - pool_start p)"
  obtain bm where bm: "bitmap p = Some bm" "pool_size p \<le> 8 * length bm"
    "\<And>k. used_at p k \<longleftrightarrow> k \<in> flags bm_get bm" using pool_okE [OF assms(1)] by metis
  have i: "?i < 8 * length bm" using pool_index_in_range [OF assms] bm(2) by simp
  have in_range: "\<not> (ip < pool_start p \<or> ip > pool_end p)" using assms(2,3) by (simp add: not_less)
  obtain bc where bc: "bm_clear bm ?i = Some bc" "length bc = length bm"
    "flags bm_get bc = flags bm_get bm - {?i}" using bm.del_defined [OF i] by auto
  obtain bs where bs: "bm_set bm ?i = Some bs" "length bs = length bm"
    "flags bm_get bs = insert ?i (flags bm_get bm)" using bm.put_defined [OF i] by auto
  have used: "used_at (p\<lparr>bitmap := Some b\<rparr>) k \<longleftrightarrow> k \<in> flags bm_get b" for b k
    by (simp add: used_at_def flags_def)
  show "\<exists>p'. ip_pool_release (ip_string ip) p = Some (0, p') \<and> pool_ok p' \<and> same_range p' p
           \<and> (\<forall>k. used_at p' k \<longleftrightarrow> used_at p k \<and> k \<noteq> ?i)"
    using in_range bm(1) bc pool_ok_bitmap [OF assms(1) bm(1) bc(2)]
    by (intro exI [of _ "p\<lparr>bitmap := Some bc\<rparr>"])
      (simp add: ip_pool_release_def ip_of_cidr_ip_string used bm(3) same_range_def)
  show "\<exists>p'. ip_pool_mark_used (ip_string ip) p = Some (0, p') \<and> pool_ok p' \<and> same_range p' p
           \<and> (\<forall>k. used_at p' k \<longleftrightarrow> used_at p k \<or> k = ?i)"
    using in_range bm(1) bs pool_ok_bitmap [OF assms(1) bm(1) bs(2)]
    by (intro exI [of _ "p\<lparr>bitmap := Some bs\<rparr>"])
      (auto simp add: ip_pool_mark_used_def ip_of_cidr_ip_string used bm(3) same_range_def)
qed

lemma release_rejected:
  "ip_of_cidr s = None \<or> (\<exists>ip. ip_of_cidr s = Some ip \<and> (ip < pool_start p \<or> ip > pool_end p)) \<Longrightarrow>
   ip_pool_release s p = Some (-1, p)"
  by (auto simp: ip_pool_release_def)

lemma release_by_address: "ip_of_cidr s = Some ip \<Longrightarrow> ip_pool_release s p = ip_pool_release (ip_string ip) p"
  by (simp add: ip_pool_release_def ip_of_cidr_ip_string)

section \<open>Initialisation\<close>

lemma cidr_mask_push: "0 < p \<Longrightarrow> cidr_mask p = push_bit (nat (32 - p)) (NOT 0)"
  by (simp add: cidr_mask_def)

lemma parse_cidr_cases:
  assumes "parse_cidr c = Some (s, e)"
  obtains ip :: u32 and h where "2 \<le> h" "h \<le> 31" "unat s = unat ip div 2 ^ h * 2 ^ h"
    "unat e = unat s + (2 ^ h - 1)"
proof -
  obtain ip n where n: "1 \<le> n" "n \<le> 30" "s = ip AND cidr_mask n"
    "e = s OR NOT (cidr_mask n)"
    using assms by (auto simp: parse_cidr_def Let_def not_less split: prod.splits option.splits if_splits)
  let ?h = "nat (32 - n)"
  have m: "cidr_mask n = push_bit ?h (NOT 0)" using n(1) by (simp add: cidr_mask_push)
  have h: "2 \<le> ?h" "?h \<le> 31" using n(1,2) by auto
  moreover have s: "unat s = unat ip div 2 ^ ?h * 2 ^ ?h"
    unfolding n(3) m using h by (intro unat_aligned) simp
  moreover have "unat e = unat s + (2 ^ ?h - 1)"
    unfolding s unfolding n(4,3) m not_push_ones using h by (intro unat_aligned_or) simp
  ultimately show ?thesis by (rule that)
qed

lemma parse_cidr_size:
  assumes "parse_cidr c = Some (s, e)"
  obtains h where "2 \<le> h" "h \<le> 31" "unat (e - s + 1) = 2 ^ h" "unat s + 2 ^ h = unat e + 1"
proof -
  obtain h where h: "2 \<le> h" "h \<le> 31" and "unat e = unat s + (2 ^ h - 1)"
    using parse_cidr_cases [OF assms] by metis
  moreover have "(1 :: nat) \<le> 2 ^ h" by simp
  ultimately have u: "unat s + 2 ^ h = unat e + 1" by linarith
  have "s \<le> e" unfolding word_le_nat_alt using u \<open>1 \<le> 2 ^ h\<close> by linarith
  then have "unat (e - s) = 2 ^ h - 1" using u unat_sub [of s e] by linarith
  moreover have "(2 :: nat) ^ h < 2 ^ 32" using h(2) by (intro power_strict_increasing) auto
  ultimately have "unat (e - s + 1) = 2 ^ h"
    using word_add_unat_less [of "e - s" 1] by simp
  then show ?thesis using h u by (intro that)
qed

lemma unat_bitmap_bytes: "n \<le> 1048576 \<Longrightarrow> unat ((n + 7 :: u32) div 8) = (unat n + 7) div 8"
  by (simp add: unat_div word_add_unat_less [of n 7, simplified] word_le_nat_alt)

lemma flags_replicate: "flags bm_get (replicate n 0) = {}"
  by (auto simp: flags_def bm_get_def)

lemma init_pool_ok:
  assumes "ip_pool_init mem c x p = Some (0, p')"
  shows "pool_ok p' \<and> (\<forall>k. used_at p' k \<longleftrightarrow> k = 0 \<or> k = pool_size p' - 1)
    \<and> parse_cidr c = Some (pool_start p', pool_end p')"
proof -
  obtain s e where se: "parse_cidr c = Some (s, e)"
    using assms by (auto simp: ip_pool_init_def split: option.splits)
  obtain h where h: "unat (e - s + 1) = 2 ^ h" "2 \<le> h" "unat s + 2 ^ h = unat e + 1"
    using parse_cidr_size [OF se] by metis
  let ?n = "e - s + 1"
  let ?b = "replicate (unat ((?n + 7) div 8)) (0 :: u8)"
  have n: "2 < ?n" "?n \<le> 1048576"
    using assms se by (auto simp: ip_pool_init_def Let_def split: prod.splits if_splits)
  have len: "length ?b = (2 ^ h + 7) div 8" using unat_bitmap_bytes [OF n(2)] h(1) by simp
  then have big: "2 ^ h \<le> 8 * length ?b" by simp
  moreover have "(0 :: nat) < 2 ^ h" by simp
  ultimately have "0 < 8 * length ?b" by linarith
  obtain b1 where b1: "bm_set ?b 0 = Some b1" "length b1 = length ?b"
    "flags bm_get b1 = {0}" using bm.put_defined [OF \<open>0 < 8 * length ?b\<close>] by (auto simp: flags_replicate)
  have "unat (?n - 1) = 2 ^ h - 1"
    using unat_sub [of 1 ?n] n(1) h(1) by (simp add: word_le_nat_alt word_less_nat_alt)
  then have last: "unat (?n - 1) < 8 * length b1"
    using big b1(2) \<open>0 < 2 ^ h\<close> by linarith
  obtain b2 where b2: "bm_set b1 (unat (?n - 1)) = Some b2" "length b2 = length ?b"
    "flags bm_get b2 = {0, 2 ^ h - 1}"
    using bm.put_defined [OF last] b1 \<open>unat (?n - 1) = _\<close> by auto
  have p': "bitmap p' = Some b2" "pool_start p' = s" "pool_end p' = e" "num_ips p' = ?n"
    using assms se b1(1) b2(1)
    by (auto simp: ip_pool_init_def Let_def split: prod.splits if_splits)
  have "pool_size p' = 2 ^ h" by (simp add: pool_size_def p'(4) h(1))
  then show ?thesis
    using p' len b2 se n h by (auto simp: pool_ok_def used_at_def word_less_nat_alt word_le_nat_alt
        flags_def set_eq_iff)
qed

section \<open>The pool as a provider of leases\<close>

text \<open>
  What the request handlers and the reaper rely on. \<open>held p\<close> are the addresses nobody may
  be given; the lemmas follow a list of leases that are held and pairwise different.
\<close>

locale address_pool =
  fixes alloc :: "'p \<Rightarrow> ('a option \<times> 'p) option"
    and release :: "'a \<Rightarrow> 'p \<Rightarrow> (int \<times> 'p) option"
    and inv :: "'p \<Rightarrow> bool"
    and held :: "'p \<Rightarrow> 'a set"
  assumes alloc_total: "inv p \<Longrightarrow> \<exists>r p'. alloc p = Some (r, p') \<and> inv p' \<and> held p \<subseteq> held p'"
    and alloc_fresh: "inv p \<Longrightarrow> alloc p = Some (Some a, p') \<Longrightarrow> a \<notin> held p \<and> a \<in> held p'"
    and release_total: "inv p \<Longrightarrow> \<exists>r p'. release a p = Some (r, p') \<and> inv p'"
    and release_held: "inv p \<Longrightarrow> a \<in> held p \<Longrightarrow> release a p = Some (r, p') \<Longrightarrow>
          r = 0 \<and> held p' = held p - {a}"
begin

definition leased :: "'p \<Rightarrow> 'a list \<Rightarrow> bool" where
  "leased p L \<longleftrightarrow> inv p \<and> distinct L \<and> set L \<subseteq> held p"

lemma leased_alloc:
  assumes "leased p L" "alloc p = Some (r, p')"
  shows "leased p' (case r of None \<Rightarrow> L | Some a \<Rightarrow> L @ [a])"
  using assms alloc_total [of p] alloc_fresh [of p _ p']
  by (cases r) (auto simp: leased_def)

lemma leased_release:
  assumes "leased p L" "a \<in> set L" "release a p = Some (r, p')"
  shows "r = 0 \<and> leased p' (filter (\<lambda>b. b \<noteq> a) L)"
  using assms release_total [of p a] release_held [of p a r p'] by (auto simp: leased_def)

lemma leased_subset:
  "leased p L \<Longrightarrow> distinct L' \<Longrightarrow> set L' \<subseteq> set L \<Longrightarrow> leased p L'"
  by (auto simp: leased_def)

lemma leased_undo:
  assumes "leased p L" "alloc p = Some (Some a, p1)" "release a p1 = Some (r, p2)"
  shows "leased p2 L"
proof -
  have "leased p1 (L @ [a])" using leased_alloc [OF assms(1,2)] by simp
  then have "leased p2 (filter (\<lambda>b. b \<noteq> a) (L @ [a]))"
    using leased_release [of p1 "L @ [a]", OF _ _ assms(3)] by (metis in_set_conv_decomp)
  moreover have "a \<notin> set L"
    using assms(1,2) alloc_fresh [of p a p1] by (auto simp: leased_def)
  then have "filter (\<lambda>b. b \<noteq> a) (L @ [a]) = L" by (auto simp: filter_id_conv)
  ultimately show ?thesis by simp
qed

end

definition held_ips :: "ip_pool \<Rightarrow> string set" where
  "held_ips p = {ip_string (pool_addr p k) | k. k < pool_size p \<and> used_at p k}"

lemma held_ips_iff:
  "pool_ok p \<Longrightarrow> k < pool_size p \<Longrightarrow> ip_string (pool_addr p k) \<in> held_ips p \<longleftrightarrow> used_at p k"
  by (auto simp: held_ips_def ip_string_inj pool_addr_inj)

lemma same_range_addr: "same_range p q \<Longrightarrow> pool_addr p = pool_addr q \<and> pool_size p = pool_size q"
  by (auto simp: same_range_def pool_addr_def pool_size_def fun_eq_iff)

lemma held_ips_mono:
  "same_range p' p \<Longrightarrow> (\<And>k. used_at p k \<Longrightarrow> used_at p' k) \<Longrightarrow> held_ips p \<subseteq> held_ips p'"
  using same_range_addr [of p' p] by (auto simp: held_ips_def)

lemma held_ips_release:
  assumes "pool_ok p" "pool_ok p'" "same_range p' p" "k < pool_size p"
    and "\<And>j. used_at p' j \<longleftrightarrow> used_at p j \<and> j \<noteq> k"
  shows "held_ips p' = held_ips p - {ip_string (pool_addr p k)}"
proof -
  have eqs: "pool_addr p' = pool_addr p" "pool_size p' = pool_size p"
    using same_range_addr [OF assms(3)] by auto
  have inj: "ip_string (pool_addr p j) = ip_string (pool_addr p k) \<longleftrightarrow> j = k" if "j < pool_size p" for j
    using pool_addr_inj [OF assms(1) that assms(4)] by (simp add: ip_string_inj)
  have "s \<in> held_ips p' \<longleftrightarrow> s \<in> held_ips p - {ip_string (pool_addr p k)}" for s
    unfolding held_ips_def eqs mem_Collect_eq Diff_iff singleton_iff assms(5) using inj by metis
  then show ?thesis by blast
qed

lemma pool_alloc_total:
  assumes "pool_ok p"
  shows "\<exists>r p'. ip_pool_allocate 32 p = Some (r, p') \<and> pool_ok p' \<and> held_ips p \<subseteq> held_ips p'"
proof -
  obtain r p' where "ip_pool_allocate 32 p = Some (r, p')" "pool_ok p'" "same_range p' p"
    "\<And>k. used_at p k \<Longrightarrow> used_at p' k"
    using allocate_refines [OF assms, of 32] by auto
  then show ?thesis using held_ips_mono [of p' p] by blast
qed

lemma pool_alloc_fresh:
  assumes "pool_ok p" "ip_pool_allocate 32 p = Some (Some a, p')"
  shows "a \<notin> held_ips p \<and> a \<in> held_ips p'"
proof -
  obtain k where k: "first_free p = Some k" "a = ip_string (pool_addr p k)"
    using allocate_refines [OF assms(1), of 32] assms(2) by (cases "first_free p") auto
  have "k \<in> marked_by (first_free p) 1 (pool_size p - 1)"
    using first_free_less [OF k(1)] k(1) by (simp add: marked_by_def)
  then have p': "pool_ok p'" "same_range p' p" "used_at p' k"
    using allocate_refines [OF assms(1), of 32] assms(2) by auto
  have "k < pool_size p" "\<not> used_at p k"
    using first_free_less [OF k(1)] k(1) by (auto simp: first_free_def dest: find_Some_set)
  then show ?thesis
    using held_ips_iff [OF assms(1)] held_ips_iff [OF p'(1)] p' k(2) same_range_addr [OF p'(2)]
    by auto
qed

lemma pool_release_total:
  assumes "pool_ok p" shows "\<exists>r p'. ip_pool_release s p = Some (r, p') \<and> pool_ok p'"
proof (cases "ip_of_cidr s")
  case None
  then show ?thesis using assms by (simp add: ip_pool_release_def)
next
  case (Some ip)
  then show ?thesis
    using pool_write(1) [OF assms, of ip] release_by_address [OF Some] release_rejected [of s p] assms
    by (cases "pool_start p \<le> ip \<and> ip \<le> pool_end p") (auto simp: not_le)
qed

lemma pool_release_held:
  assumes "pool_ok p" "a \<in> held_ips p" "ip_pool_release a p = Some (r, p')"
  shows "r = 0 \<and> held_ips p' = held_ips p - {a}"
proof -
  obtain k where k: "k < pool_size p" "used_at p k" "a = ip_string (pool_addr p k)"
    using assms(2) by (auto simp: held_ips_def)
  have "unat (pool_addr p k - pool_start p) = k"
    using pool_addr_index [OF pool_size_le32 [OF assms(1)] k(1)] .
  then obtain q where "ip_pool_release a p = Some (0, q)" "pool_ok q" "same_range q p"
    "\<forall>j. used_at q j \<longleftrightarrow> used_at p j \<and> j \<noteq> k"
    using pool_write(1) [OF assms(1), of "pool_addr p k"] pool_addr_in_range [OF assms(1) k(1)] k(3)
    by auto
  then show ?thesis
    using held_ips_release [OF assms(1) _ _ k(1)] assms(3) k(3) by auto
qed

interpretation pool: address_pool "ip_pool_allocate 32" ip_pool_release pool_ok held_ips
  by unfold_locales
    (use pool_alloc_total pool_alloc_fresh pool_release_total pool_release_held in blast)+

section \<open>Properties\<close>

lemma find_upt_Some:
  "List.find P [i..<n] = Some k \<longleftrightarrow> i \<le> k \<and> k < n \<and> P k \<and> (\<forall>j. i \<le> j \<and> j < k \<longrightarrow> \<not> P j)"
proof (induction "n - i" arbitrary: i)
  case 0
  then show ?case by auto
next
  case (Suc d)
  then have "[i..<n] = i # [Suc i..<n]" by (intro upt_conv_Cons) simp
  then show ?case using Suc.hyps(1) [of "Suc i"] Suc.hyps(2)
    by (auto simp: Suc_le_eq) (metis le_neq_implies_less not_less_eq_eq)+
qed

lemma parse_cidr_text:
  assumes "n \<le> 32"
  shows "parse_cidr (inet_ntop4 ip @ ''/'' @ dec_of_nat n) =
     (if n < 1 \<or> n > 30 then None
      else Some (ip AND push_bit (32 - n) (NOT 0), (ip AND push_bit (32 - n) (NOT 0)) OR mask (32 - n)))"
proof -
  have "length (dec_of_nat n) \<le> 3" using assms by (intro length_dec_of_nat_le3) simp
  then have "take 63 (inet_ntop4 ip @ CHR ''/'' # dec_of_nat n) = inet_ntop4 ip @ CHR ''/'' # dec_of_nat n"
    using length_inet_ntop4 [of ip] by simp
  then have cut: "cut_at (CHR ''/'') (take 63 (inet_ntop4 ip @ ''/'' @ dec_of_nat n)) =
      (inet_ntop4 ip, Some (dec_of_nat n))"
    by (simp add: cut_at_here)
  have "atoi (dec_of_nat n) = int n" using assms by (intro atoi_dec_of_nat) simp
  then show ?thesis
    by (simp only: parse_cidr_def cut Let_def prod.case option.case inet_pton4_ntop4)
       (auto simp: cidr_mask_push nat_diff_distrib not_push_ones)
qed

lemma parse_cidr_block_facts:
  assumes "1 \<le> n" "n \<le> 30"
  obtains s e where "parse_cidr (inet_ntop4 ip @ ''/'' @ dec_of_nat n) = Some (s, e)"
    "unat s = unat ip div 2 ^ (32 - n) * 2 ^ (32 - n)" "unat e = unat s + (2 ^ (32 - n) - 1)"
    "s \<le> ip" "ip \<le> e"
proof -
  let ?h = "32 - n"
  let ?s = "ip AND push_bit ?h (NOT 0)"
  have s: "unat ?s = unat ip div 2 ^ ?h * 2 ^ ?h" by (rule unat_aligned) simp
  have e: "unat (?s OR mask ?h) = unat ?s + (2 ^ ?h - 1)"
    unfolding s using assms by (intro unat_aligned_or) simp
  have "unat ip mod 2 ^ ?h < 2 ^ ?h" by simp
  then have "unat ?s \<le> unat ip" "unat ip \<le> unat (?s OR mask ?h)"
    unfolding e unfolding s using div_mult_mod_eq [of "unat ip" "2 ^ ?h"] by linarith+
  moreover have "parse_cidr (inet_ntop4 ip @ ''/'' @ dec_of_nat n) = Some (?s, ?s OR mask ?h)"
    using assms by (subst parse_cidr_text) auto
  ultimately show ?thesis using s e that unfolding word_le_nat_alt by blast
qed

lemma init_defined:
  assumes "parse_cidr c = Some (s, e)" "unat (e - s + 1) = 2 ^ h" "2 \<le> h"
  shows "\<exists>p'. ip_pool_init True c x p = Some (if h \<le> 20 then 0 else -1, p')"
proof -
  let ?n = "e - s + 1"
  let ?b = "replicate (unat ((?n + 7) div 8)) (0 :: u8)"
  have "(4 :: nat) \<le> 2 ^ h" using power_increasing [OF assms(3), of "2 :: nat"] by simp
  then have small: "\<not> ?n \<le> 2" "?n \<noteq> 0" using assms(2) by (auto simp: word_le_nat_alt)
  show ?thesis
  proof (cases "h \<le> 20")
    case False
    then have "(2 :: nat) ^ 20 < 2 ^ h" by (intro power_strict_increasing) auto
    then have "?n > 1048576" using assms(2) by (simp add: word_less_nat_alt)
    then show ?thesis using assms(1) small False
      by (auto simp: ip_pool_init_def Let_def split: prod.splits)
  next
    case True
    then have "(2 :: nat) ^ h \<le> 2 ^ 20" by (intro power_increasing) auto
    then have n: "?n \<le> 1048576" using assms(2) by (simp add: word_le_nat_alt)
    have "8 * length ?b \<ge> 2 ^ h" using unat_bitmap_bytes [OF n] assms(2) by simp
    moreover have "unat (?n - 1) = 2 ^ h - 1"
      using unat_sub [of 1 ?n] assms(2) by (simp add: word_le_nat_alt)
    ultimately have "0 < 8 * length ?b" "unat (?n - 1) < 8 * length ?b"
      using \<open>4 \<le> 2 ^ h\<close> by linarith+
    then obtain b1 b2 where "bm_set ?b 0 = Some b1" "bm_set b1 (unat (?n - 1)) = Some b2"
      using bm.put_defined [of 0 ?b] bm.put_defined [of "unat (?n - 1)"] by metis
    then show ?thesis using assms(1) small n True
      by (auto simp: ip_pool_init_def Let_def not_less split: prod.splits)
  qed
qed

text \<open>
  For every address and every prefix length from 1 to 30, \<open>parse_cidr\<close> accepts the text
  \<open>a.b.c.d/n\<close> and yields the block of \<open>2 ^ (32 - n)\<close> addresses, aligned to its size, that
  contains the address.
\<close>

lemma parse_cidr_block:
  assumes "1 \<le> n" and "n \<le> 30"
  shows "\<exists>s e. parse_cidr (inet_ntop4 ip @ ''/'' @ dec_of_nat n) = Some (s, e)
    \<and> unat s = unat ip div 2 ^ (32 - n) * 2 ^ (32 - n)
    \<and> unat e = unat s + (2 ^ (32 - n) - 1) \<and> s \<le> ip \<and> ip \<le> e"
  using parse_cidr_block_facts [OF assms, of ip] by metis

text \<open>
  Whether \<open>ip_pool_init\<close> accepts a range depends on the prefix length alone: it accepts
  12 to 30 and rejects everything else, although its message promises 1 to 30.
\<close>

lemma ip_pool_init_accepts:
  assumes "n \<le> 32"
  shows "(\<exists>p'. ip_pool_init True (inet_ntop4 ip @ ''/'' @ dec_of_nat n) x p = Some (0, p'))
    \<longleftrightarrow> 12 \<le> n \<and> n \<le> 30"
proof (cases "1 \<le> n \<and> n \<le> 30")
  case False
  then have "parse_cidr (inet_ntop4 ip @ ''/'' @ dec_of_nat n) = None"
    using assms by (subst parse_cidr_text) auto
  then show ?thesis using False by (auto simp only: ip_pool_init_def option.case)
next
  case True
  then obtain s e where se: "parse_cidr (inet_ntop4 ip @ ''/'' @ dec_of_nat n) = Some (s, e)"
    "unat e = unat s + (2 ^ (32 - n) - 1)" using parse_cidr_block_facts by metis
  obtain h where h: "2 \<le> h" "unat (e - s + 1) = 2 ^ h" "unat s + 2 ^ h = unat e + 1"
    using parse_cidr_size [OF se(1)] by metis
  have "(2 :: nat) ^ h = 2 ^ (32 - n)" using h(3) se(2) by simp
  then have "h = 32 - n" by simp
  then show ?thesis using init_defined [OF se(1) h(2,1), of x p] True by (auto split: if_splits)
qed

lemma ip_pool_init_accepts_witness:
  "(\<exists>p'. ip_pool_init True (inet_ntop4 167772160 @ ''/'' @ dec_of_nat 8) '''' pool_statics = Some (0, p'))
    \<longleftrightarrow> 12 \<le> (8 :: nat) \<and> (8 :: nat) \<le> 30"
  by (rule ip_pool_init_accepts) simp

text \<open>
  C5: Refinement. On an initialised pool \<open>ip_pool_allocate\<close> never leaves the bitmap, returns
  the text of the first index that is neither used nor excluded (and fails when there is
  none), and marks exactly the indices it passed and the one it returned.
\<close>

theorem ip_pool_allocate_first_free:
  assumes "pool_ok p"
  shows "\<exists>p'. ip_pool_allocate 32 p =
           Some (map_option (\<lambda>k. ip_string (pool_addr p k)) (first_free p), p')
       \<and> pool_ok p' \<and> same_range p' p
       \<and> (\<forall>k. used_at p' k \<longleftrightarrow> used_at p k \<or> (case first_free p of
             None \<Rightarrow> 1 \<le> k \<and> k < pool_size p - 1 | Some m \<Rightarrow> 1 \<le> k \<and> k \<le> m))"
  using allocate_refines [OF assms, of 32] by (cases "first_free p") (auto simp: marked_by_def)

definition demo_pool :: ip_pool where
  "demo_pool = \<lparr>pool_start = 168296712, pool_end = 168296719, exclude_start = 168296712,
     exclude_end = 168296715, bitmap = Some [129], num_ips = 8\<rparr>"

lemma demo_pool_init: "ip_pool_init True ''10.8.1.8/29'' ''10.8.1.8/30'' pool_statics = Some (0, demo_pool)"
  by code_simp

lemma demo_pool_ok: "pool_ok demo_pool"
  using init_pool_ok [OF demo_pool_init] by simp

theorem ip_pool_allocate_first_free_witness:
  "first_free demo_pool = Some 4 \<and> (\<exists>p'. ip_pool_allocate 32 demo_pool =
           Some (map_option (\<lambda>k. ip_string (pool_addr demo_pool k)) (first_free demo_pool), p')
       \<and> pool_ok p' \<and> same_range p' demo_pool
       \<and> (\<forall>k. used_at p' k \<longleftrightarrow> used_at demo_pool k \<or> (case first_free demo_pool of
             None \<Rightarrow> 1 \<le> k \<and> k < pool_size demo_pool - 1 | Some m \<Rightarrow> 1 \<le> k \<and> k \<le> m)))"
proof
  show "first_free demo_pool = Some 4" by code_simp
qed (rule ip_pool_allocate_first_free [OF demo_pool_ok])

text \<open>
  Round trip. Releasing the address just allocated succeeds and makes it available
  again: the next allocation returns the same address.
\<close>

lemma allocate_release_allocate:
  assumes "pool_ok p" and "ip_pool_allocate 32 p = Some (Some a, p1)"
  shows "\<exists>p2 p3. ip_pool_release a p1 = Some (0, p2) \<and> ip_pool_allocate 32 p2 = Some (Some a, p3)"
proof -
  obtain k where k: "first_free p = Some k" "a = ip_string (pool_addr p k)"
    using allocate_refines [OF assms(1), of 32] assms(2) by (cases "first_free p") auto
  then have k': "1 \<le> k" "k < pool_size p" using first_free_less [of p k] by auto
  have p1: "pool_ok p1" "same_range p1 p" "\<And>j. used_at p1 j \<longleftrightarrow> used_at p j \<or> 1 \<le> j \<and> j \<le> k"
    using allocate_refines [OF assms(1), of 32] assms(2) k(1) by (auto simp: marked_by_def)
  have addr: "pool_addr p1 = pool_addr p" "pool_size p1 = pool_size p"
    using same_range_addr [OF p1(2)] by auto
  have idx: "unat (pool_addr p k - pool_start p1) = k"
    using pool_addr_index [OF pool_size_le32 [OF p1(1)], of k] k'(2) addr by simp
  obtain p2 where p2: "ip_pool_release a p1 = Some (0, p2)" "pool_ok p2" "same_range p2 p1"
    "\<And>j. used_at p2 j \<longleftrightarrow> used_at p1 j \<and> j \<noteq> k"
    using pool_write(1) [OF p1(1), of "pool_addr p k"] pool_addr_in_range [OF p1(1), of k]
      k(2) k'(2) addr idx by auto
  have same: "pool_addr p2 = pool_addr p" "pool_size p2 = pool_size p" "excluded p2 = excluded p"
    using same_range_addr [OF p2(3)] addr p1(2) p2(3)
    by (auto simp: same_range_def excluded_def fun_eq_iff)
  have "first_free p2 = Some k"
    using k(1) by (auto simp: first_free_def find_upt_Some same p2(4) p1(3))
  then show ?thesis
    using p2(1) allocate_refines [OF p2(2), of 32] k(2) same by auto
qed

text \<open>
  A client of the pool: it takes addresses and gives back only addresses it holds. The
  second component are the leases it holds.
\<close>

datatype lease_op = Take | GiveBack string

fun lease_run :: "lease_op list \<Rightarrow> ip_pool \<times> string list \<Rightarrow> (ip_pool \<times> string list) ub" where
  "lease_run [] s = Some s"
| "lease_run (Take # ops) (p, L) =
     do { (r, p') \<leftarrow> ip_pool_allocate 32 p;
          lease_run ops (p', case r of None \<Rightarrow> L | Some a \<Rightarrow> L @ [a]) }"
| "lease_run (GiveBack a # ops) (p, L) =
     (if a \<in> set L
      then do { (r, p') \<leftarrow> ip_pool_release a p; lease_run ops (p', filter (\<lambda>b. b \<noteq> a) L) }
      else lease_run ops (p, L))"

lemma lease_run_leased:
  "pool.leased p L \<Longrightarrow> \<exists>p' L'. lease_run ops (p, L) = Some (p', L') \<and> pool.leased p' L'"
proof (induction ops arbitrary: p L)
  case Nil
  then show ?case by simp
next
  case (Cons x ops)
  have ok: "pool_ok p" using Cons.prems by (simp add: pool.leased_def)
  show ?case
  proof (cases x)
    case Take
    obtain r p' where r: "ip_pool_allocate 32 p = Some (r, p')" using pool_alloc_total [OF ok] by auto
    show ?thesis using Cons.IH [OF pool.leased_alloc [OF Cons.prems r]] r Take by simp
  next
    case (GiveBack a)
    obtain r p' where r: "ip_pool_release a p = Some (r, p')" using pool_release_total [OF ok] by blast
    show ?thesis
    proof (cases "a \<in> set L")
      case True
      then show ?thesis
        using Cons.IH [of p' "filter (\<lambda>b. b \<noteq> a) L"] pool.leased_release [OF Cons.prems True r] r GiveBack
        by simp
    next
      case False
      then show ?thesis using Cons.IH [OF Cons.prems] GiveBack by simp
    qed
  qed
qed

text \<open>
  Exclusivity. From a freshly initialised pool, any sequence of allocations and returns of
  held addresses runs without undefined behaviour, and the addresses held at its end are
  pairwise different.
\<close>

lemma lease_run_distinct:
  assumes "ip_pool_init mem cidr exclude p0 = Some (0, p)"
  shows "\<exists>p' L. lease_run ops (p, []) = Some (p', L) \<and> distinct L"
proof -
  have "pool.leased p []" using init_pool_ok [OF assms] by (simp add: pool.leased_def)
  from lease_run_leased [OF this, of ops] show ?thesis by (auto simp: pool.leased_def)
qed

lemma lease_run_distinct_witness:
  "\<exists>p' L. lease_run [Take, Take, GiveBack ''10.8.1.12/32'', Take] (demo_pool, []) = Some (p', L) \<and> distinct L"
  by (rule lease_run_distinct [OF demo_pool_init])

text \<open>
  An exclusion that names a single host as \<open>a.b.c.d/32\<close>, or without a prefix, is not
  applied: the pool initialises, and the excluded host is not excluded.
\<close>

lemma exclude_single_host_ignored:
  assumes "ip_pool_init mem cidr (inet_ntop4 h @ t) p0 = Some (0, p)" and "t = [] \<or> t = ''/32''" and "h \<noteq> 0"
  shows "\<not> excluded p h"
proof -
  have "parse_cidr (inet_ntop4 h @ t) = None"
  proof (cases "t = []")
    case True
    have "take 63 (inet_ntop4 h) = inet_ntop4 h" using length_inet_ntop4 [of h] by simp
    then show ?thesis by (simp add: True parse_cidr_def cut_at_none)
  next
    case False
    have "dec_of_nat 32 = ''32''" by code_simp
    then show ?thesis using False assms(2) parse_cidr_text [of 32 h] by simp
  qed
  then have "exclude_start p = 0" "exclude_end p = 0"
    using assms(1) by (auto simp: ip_pool_init_def Let_def Option.bind_eq_Some_conv split: option.splits prod.splits if_splits)
  then show ?thesis using assms(3) by (simp add: excluded_def)
qed

lemma exclude_single_host_ignored_witness:
  "\<exists>p. ip_pool_init True ''10.8.1.8/29'' (inet_ntop4 168296713 @ ''/32'') pool_statics = Some (0, p)
     \<and> \<not> excluded p 168296713"
proof -
  have "\<exists>p. ip_pool_init True ''10.8.1.8/29'' (inet_ntop4 168296713 @ ''/32'') pool_statics = Some (0, p)"
    by (rule exI [of _ "demo_pool\<lparr>exclude_start := 0, exclude_end := 0\<rparr>"]) code_simp
  then show ?thesis using exclude_single_host_ignored [of True _ 168296713 "''/32''"] by fastforce
qed

text \<open>
  With the built-in default range \<open>10.8.1.0/23\<close> and no exclusion, the first address
  handed out is 10.8.0.1, outside the documented dynamic range and the address the
  documentation gives to the server itself.
\<close>

lemma default_pool_first_address:
  "map_option fst (do { (r, p) \<leftarrow> ip_pool_init True ''10.8.1.0/23'' '''' pool_statics;
                        ip_pool_allocate 32 p })
   = Some (Some ''10.8.0.1/32'')"
  by code_simp

end
