(* ===== verification/WgCtl.thy ===== *)
theory WgCtl
  imports WgKey Config IpPool
begin

text \<open>
  Control of the WireGuard interface, \<open>server/src/wg_ctl.c\<close>: the address parser, the reader of
  the static configuration file as a state machine over its lines, and the requests that add
  a peer, remove a peer and read peers back. The data types are those of
  \<open>server/third_party/wireguard.h\<close>, with the linked lists as lists. The netlink calls and
  the \<open>ip\<close> command act on a kernel state of an arbitrary type \<open>'k\<close> and are arguments of
  the functions that use them, as is the base64 decoder of libsodium.
\<close>

section \<open>Data\<close>

datatype wg_ip = Ip4 u32 | Ip6 bytes

text \<open>The \<open>sockaddr\<close> of a peer, with the address and the port in host order; all zeros is no endpoint.\<close>

datatype wg_endpoint = NoEndpoint | Endpoint4 u32 u16 | Endpoint6 bytes u16

record wg_allowedip =
  aip_addr :: wg_ip
  aip_cidr :: u8

record wg_peer =
  peer_flags :: u32
  public_key :: bytes
  preshared_key :: bytes
  endpoint :: wg_endpoint
  last_handshake_time :: int
  rx_bytes :: u64
  tx_bytes :: u64
  persistent_keepalive_interval :: u16
  allowedips :: "wg_allowedip list"

record wg_device =
  dev_name :: string
  dev_flags :: u32
  dev_public_key :: bytes
  private_key :: bytes
  fwmark :: u32
  listen_port :: u16
  peers :: "wg_peer list"

definition WGPEER_REMOVE_ME :: u32 where "WGPEER_REMOVE_ME = 1"
definition WGPEER_REPLACE_ALLOWEDIPS :: u32 where "WGPEER_REPLACE_ALLOWEDIPS = 2"
definition WGPEER_HAS_PUBLIC_KEY :: u32 where "WGPEER_HAS_PUBLIC_KEY = 4"
definition WGPEER_HAS_PRESHARED_KEY :: u32 where "WGPEER_HAS_PRESHARED_KEY = 8"
definition WGPEER_HAS_PERSISTENT_KEEPALIVE_INTERVAL :: u32 where "WGPEER_HAS_PERSISTENT_KEEPALIVE_INTERVAL = 16"
definition WGDEVICE_REPLACE_PEERS :: u32 where "WGDEVICE_REPLACE_PEERS = 1"
definition WGDEVICE_HAS_PRIVATE_KEY :: u32 where "WGDEVICE_HAS_PRIVATE_KEY = 2"
definition WGDEVICE_HAS_LISTEN_PORT :: u32 where "WGDEVICE_HAS_LISTEN_PORT = 8"

lemmas wg_flag_defs = WGPEER_REMOVE_ME_def WGPEER_REPLACE_ALLOWEDIPS_def WGPEER_HAS_PUBLIC_KEY_def
  WGPEER_HAS_PRESHARED_KEY_def WGPEER_HAS_PERSISTENT_KEEPALIVE_INTERVAL_def WGDEVICE_REPLACE_PEERS_def
  WGDEVICE_HAS_PRIVATE_KEY_def WGDEVICE_HAS_LISTEN_PORT_def

text \<open>\<open>memset (&dev, 0, sizeof dev)\<close> with the name filled in, and the zeroed peer.\<close>

definition zero_key :: bytes where "zero_key = replicate WG_KEY_LEN 0"

definition new_device :: "string \<Rightarrow> wg_device" where
  "new_device ifname = \<lparr>dev_name = take 15 ifname, dev_flags = 0, dev_public_key = zero_key,
     private_key = zero_key, fwmark = 0, listen_port = 0, peers = []\<rparr>"

definition new_peer :: "u32 \<Rightarrow> wg_peer" where
  "new_peer fl = \<lparr>peer_flags = fl, public_key = zero_key, preshared_key = zero_key,
     endpoint = NoEndpoint, last_handshake_time = 0, rx_bytes = 0, tx_bytes = 0, persistent_keepalive_interval = 0,
     allowedips = []\<rparr>"

section \<open>Addresses\<close>

text \<open>
  \<open>inet_pton\<close> for AF_INET6: groups of one to four hexadecimal digits, at most one \<open>::\<close>
  standing for at least one zero group, and an IPv4 address allowed as the last 32 bits.\<close>

definition hex_val :: "char \<Rightarrow> nat" where
  "hex_val c = (if isdigit c then of_char c - 48 else of_char (tolower c) - 87)"

definition hex_group :: "string \<Rightarrow> bytes option" where
  "hex_group g =
     (if 1 \<le> length g \<and> length g \<le> 4 \<and> list_all isxdigit g
      then let v = foldl (\<lambda>a c. 16 * a + hex_val c) 0 g in Some [of_nat (v div 256), of_nat (v mod 256)]
      else None)"

definition ip4_bytes :: "u32 \<Rightarrow> bytes" where
  "ip4_bytes ip = map (\<lambda>k. ucast (drop_bit k ip)) [24, 16, 8, 0]"

fun hex_groups :: "bool \<Rightarrow> string list \<Rightarrow> bytes option" where
  "hex_groups v4 [] = Some []"
| "hex_groups v4 (g # gs) =
     (case if gs = [] \<and> v4 \<and> CHR ''.'' \<in> set g then map_option ip4_bytes (inet_pton4 g) else hex_group g of
        None \<Rightarrow> None | Some b \<Rightarrow> map_option (\<lambda>r. b @ r) (hex_groups v4 gs))"

definition groups_of :: "string \<Rightarrow> string list" where
  "groups_of s = (if s = [] then [] else split_on (CHR '':'') s)"

text \<open>The text before and after the first \<open>::\<close>.\<close>

fun cut_colons :: "string \<Rightarrow> string \<times> string option" where
  "cut_colons (a # b # s) = (if a = CHR '':'' \<and> b = CHR '':'' then ([], Some s)
     else (let (l, r) = cut_colons (b # s) in (a # l, r)))"
| "cut_colons s = (s, None)"

definition inet_pton6 :: "string \<Rightarrow> bytes option" where
  "inet_pton6 s =
     (case cut_colons s of
        (l, None) \<Rightarrow> (case hex_groups True (groups_of l) of
            Some b \<Rightarrow> if length b = 16 then Some b else None | None \<Rightarrow> None)
      | (l, Some r) \<Rightarrow> (case (hex_groups False (groups_of l), hex_groups True (groups_of r)) of
            (Some b, Some c) \<Rightarrow> if length b + length c < 16
               then Some (b @ replicate (16 - length b - length c) 0 @ c) else None
          | _ \<Rightarrow> None))"

text \<open>
  \<open>parse_allowed_ip\<close>: \<open>None\<close> is the error code. The prefix is stored in a \<open>uint8_t\<close>.\<close>

definition parse_allowed_ip :: "string \<Rightarrow> wg_allowedip option" where
  "parse_allowed_ip cidr =
     (let (ip_str, slash) = cut_at (CHR ''/'') (take 63 cidr);
          prefix = (case slash of None \<Rightarrow> 32 | Some s \<Rightarrow> atoi s);
          addr = (if CHR '':'' \<in> set ip_str then map_option Ip6 (inet_pton6 ip_str)
                  else map_option Ip4 (inet_pton4 ip_str))
      in map_option (\<lambda>a. \<lparr>aip_addr = a, aip_cidr = word_of_int prefix\<rparr>) addr)"

section \<open>The static configuration file\<close>

definition wg_trim :: "string \<Rightarrow> string" where
  "wg_trim s = (case dropWhile isspace s of [] \<Rightarrow> []
     | c # t \<Rightarrow> c # rev (dropWhile isspace (rev t)))"

definition strip_inline_comment :: "string \<Rightarrow> string" where
  "strip_inline_comment s = takeWhile (\<lambda>c. c \<noteq> CHR '';'') s"

datatype parse_state = STATE_NONE | STATE_INTERFACE | STATE_PEER

text \<open>
  The local variables of the loop. The peer chain is the list \<open>peers\<close> of the device, its last
  element is \<open>cur_peer\<close>. \<open>mem\<close> counts the calls of \<open>calloc\<close> that still succeed.\<close>

record conf =
  pstate :: parse_state
  dev :: wg_device
  interface_address :: string
  mem :: nat

text \<open>How the loop body ends: on to the next line, at a key that does not decode, or at the
  label \<open>oom\<close>.\<close>

datatype conf_end = Next conf | BadKey conf | Oom conf

definition set_cur_peer :: "(wg_peer \<Rightarrow> wg_peer) \<Rightarrow> conf \<Rightarrow> conf" where
  "set_cur_peer f c = c\<lparr>dev := (dev c)\<lparr>peers := butlast (peers (dev c)) @ [f (last (peers (dev c)))]\<rparr>\<rparr>"

definition decode_key :: "(string \<Rightarrow> nat \<Rightarrow> bytes option) \<Rightarrow> string \<Rightarrow> bytes option" where
  "decode_key base64_decode val =
     (case base64_decode val WG_KEY_LEN of
        None \<Rightarrow> None | Some k \<Rightarrow> if length k \<noteq> WG_KEY_LEN then None else Some k)"

definition conf_interface :: "(string \<Rightarrow> nat \<Rightarrow> bytes option) \<Rightarrow> string \<Rightarrow> string \<Rightarrow> conf \<Rightarrow> conf_end" where
  "conf_interface base64_decode key val c =
     (if strcasecmp_eq key ''PrivateKey'' then
        (case decode_key base64_decode val of
           None \<Rightarrow> BadKey c
         | Some k \<Rightarrow> Next (c\<lparr>dev := (dev c)\<lparr>private_key := k,
                         dev_flags := dev_flags (dev c) OR WGDEVICE_HAS_PRIVATE_KEY\<rparr>\<rparr>))
      else if strcasecmp_eq key ''ListenPort'' then
        Next (c\<lparr>dev := (dev c)\<lparr>listen_port := word_of_int (atoi val),
                 dev_flags := dev_flags (dev c) OR WGDEVICE_HAS_LISTEN_PORT\<rparr>\<rparr>)
      else if strcasecmp_eq key ''Address'' then Next (c\<lparr>interface_address := take 63 val\<rparr>)
      else Next c)"

text \<open>The loop over the comma-separated list; an address that does not parse is skipped.\<close>

fun conf_allowed_ips :: "string list \<Rightarrow> conf \<Rightarrow> conf_end" where
  "conf_allowed_ips [] c = Next c"
| "conf_allowed_ips (tok # toks) c =
     (let token = wg_trim tok in
      if token = [] then conf_allowed_ips toks c
      else if mem c = 0 then Oom c
      else let c = c\<lparr>mem := mem c - 1\<rparr> in
        case parse_allowed_ip token of
          None \<Rightarrow> conf_allowed_ips toks c
        | Some aip \<Rightarrow> conf_allowed_ips toks
            (set_cur_peer (\<lambda>p. p\<lparr>allowedips := allowedips p @ [aip]\<rparr>) c))"

definition strtok_commas :: "string \<Rightarrow> string list" where
  "strtok_commas val = filter (\<lambda>t. t \<noteq> []) (split_on (CHR '','') val)"

definition conf_peer :: "(string \<Rightarrow> nat \<Rightarrow> bytes option) \<Rightarrow> string \<Rightarrow> string \<Rightarrow> conf \<Rightarrow> conf_end" where
  "conf_peer base64_decode key val c =
     (if strcasecmp_eq key ''PublicKey'' then
        (case decode_key base64_decode val of
           None \<Rightarrow> BadKey c
         | Some k \<Rightarrow> Next (set_cur_peer (\<lambda>p. p\<lparr>public_key := k\<rparr>) c))
      else if strcasecmp_eq key ''PresharedKey'' then
        (case decode_key base64_decode val of
           None \<Rightarrow> BadKey c
         | Some k \<Rightarrow> Next (set_cur_peer (\<lambda>p. p\<lparr>preshared_key := k,
                         peer_flags := peer_flags p OR WGPEER_HAS_PRESHARED_KEY\<rparr>) c))
      else if strcasecmp_eq key ''AllowedIPs'' then conf_allowed_ips (strtok_commas val) c
      else Next c)"

definition conf_section :: "string \<Rightarrow> conf \<Rightarrow> conf_end" where
  "conf_section p c =
     (if strcasecmp_eq (take 11 p) ''[Interface]'' then Next (c\<lparr>pstate := STATE_INTERFACE\<rparr>)
      else if strcasecmp_eq (take 6 p) ''[Peer]'' then
        (let c = c\<lparr>pstate := STATE_PEER\<rparr> in
         if mem c = 0 then Oom c
         else Next (c\<lparr>mem := mem c - 1, dev := (dev c)\<lparr>peers := peers (dev c) @
                  [new_peer (WGPEER_HAS_PUBLIC_KEY OR WGPEER_REPLACE_ALLOWEDIPS)]\<rparr>\<rparr>))
      else Next c)"

definition conf_line :: "(string \<Rightarrow> nat \<Rightarrow> bytes option) \<Rightarrow> string \<Rightarrow> conf \<Rightarrow> conf_end" where
  "conf_line base64_decode line c =
     (let p = wg_trim (takeWhile (\<lambda>x. x \<noteq> CHR 0x0D \<and> x \<noteq> newline) line) in
      if p = [] \<or> hd p = CHR ''#'' \<or> hd p = CHR '';'' then Next c
      else if hd p = CHR ''['' then conf_section p c
      else case cut_at (CHR ''='') p of
        (_, None) \<Rightarrow> Next c
      | (k, Some v) \<Rightarrow>
          let key = wg_trim k; val = wg_trim (strip_inline_comment (wg_trim v)) in
          case pstate c of
            STATE_INTERFACE \<Rightarrow> conf_interface base64_decode key val c
          | STATE_PEER \<Rightarrow> conf_peer base64_decode key val c
          | STATE_NONE \<Rightarrow> Next c)"

fun conf_lines :: "(string \<Rightarrow> nat \<Rightarrow> bytes option) \<Rightarrow> string list \<Rightarrow> conf \<Rightarrow> conf_end" where
  "conf_lines base64_decode [] c = Next c"
| "conf_lines base64_decode (l # ls) c =
     (case conf_line base64_decode l c of Next c' \<Rightarrow> conf_lines base64_decode ls c' | e \<Rightarrow> e)"

text \<open>The characters an interface address may have before it is passed to \<open>ip addr add\<close>.\<close>

definition safe_address :: "string \<Rightarrow> bool" where
  "safe_address s = list_all (\<lambda>c. isdigit c \<or> c = CHR ''.'' \<or> c = CHR '':'' \<or> c = CHR ''/'' \<or> isxdigit c) s"

text \<open>
  The whole function. Its value is \<open>None\<close> where the code returns the value of \<open>rc\<close> without
  having assigned it (a jump to \<open>cleanup\<close> from inside the loop). \<open>run_cmd\<close> and the netlink
  calls change the kernel state.\<close>

definition wgctl_load_static_config ::
  "(string \<Rightarrow> nat \<Rightarrow> bytes option) \<Rightarrow> (string \<Rightarrow> 'k \<Rightarrow> int \<times> 'k) \<Rightarrow> (wg_device \<Rightarrow> 'k \<Rightarrow> int \<times> 'k) \<Rightarrow>
   (string list \<Rightarrow> 'k \<Rightarrow> int \<times> 'k) \<Rightarrow> nat \<Rightarrow> string \<Rightarrow> string option \<Rightarrow> 'k \<Rightarrow> int option \<times> 'k" where
  "wgctl_load_static_config base64_decode add_device set_device run_cmd callocs ifname file k =
     (case file of
        None \<Rightarrow> (Some (-1), k)
      | Some text \<Rightarrow>
         (case conf_lines base64_decode (fgets_lines 1023 text)
              \<lparr>pstate = STATE_NONE, dev = new_device ifname, interface_address = [], mem = callocs\<rparr> of
            Oom _ \<Rightarrow> (Some (-1), k)
          | BadKey _ \<Rightarrow> (None, k)
          | Next c \<Rightarrow>
             (let k1 = snd (add_device (dev_name (dev c)) k);
                  (rc, k2) = set_device (dev c) k1 in
              if rc < 0 then (Some (-1), k2)
              else if interface_address c \<noteq> [] \<and> \<not> safe_address (interface_address c) then (Some (-1), k2)
              else let k3 = (if interface_address c \<noteq> [] then
                       snd (run_cmd [''ip'', ''addr'', ''add'', interface_address c, ''dev'', dev_name (dev c)] k2)
                     else k2);
                     k4 = snd (run_cmd [''ip'', ''link'', ''set'', ''up'', ''dev'', dev_name (dev c)] k3)
                   in (Some 0, k4))))"

section \<open>Dynamic peers\<close>

definition wgctl_add_peer ::
  "(wg_device \<Rightarrow> 'k \<Rightarrow> int \<times> 'k) \<Rightarrow> string \<Rightarrow> bytes \<Rightarrow> bytes option \<Rightarrow> string \<Rightarrow> 'k \<Rightarrow> int \<times> 'k" where
  "wgctl_add_peer set_device ifname pubkey psk allowed_ip_cidr k =
     (let peer = (new_peer (WGPEER_HAS_PUBLIC_KEY OR WGPEER_REPLACE_ALLOWEDIPS))\<lparr>public_key := pubkey\<rparr>;
          peer = (case psk of None \<Rightarrow> peer
            | Some s \<Rightarrow> peer\<lparr>peer_flags := peer_flags peer OR WGPEER_HAS_PRESHARED_KEY, preshared_key := s\<rparr>);
          peer = (case parse_allowed_ip allowed_ip_cidr of None \<Rightarrow> peer
            | Some a \<Rightarrow> peer\<lparr>allowedips := [a]\<rparr>);
          (rc, k') = set_device ((new_device ifname)\<lparr>peers := [peer]\<rparr>) k
      in if rc < 0 then (-1, k') else (0, k'))"

definition wgctl_remove_peer ::
  "(wg_device \<Rightarrow> 'k \<Rightarrow> int \<times> 'k) \<Rightarrow> string \<Rightarrow> bytes \<Rightarrow> 'k \<Rightarrow> int \<times> 'k" where
  "wgctl_remove_peer set_device ifname pubkey k =
     (let peer = (new_peer (WGPEER_HAS_PUBLIC_KEY OR WGPEER_REMOVE_ME))\<lparr>public_key := pubkey\<rparr>;
          (rc, k') = set_device ((new_device ifname)\<lparr>peers := [peer]\<rparr>) k
      in if rc < 0 then (-1, k') else (0, k'))"

text \<open>\<open>None\<close> is the error code, with the output variables unchanged.\<close>

definition wgctl_get_peer_stats ::
  "(string \<Rightarrow> 'k \<Rightarrow> wg_device option) \<Rightarrow> string \<Rightarrow> bytes \<Rightarrow> 'k \<Rightarrow> (u64 \<times> u64 \<times> int) option" where
  "wgctl_get_peer_stats get_device ifname pubkey k =
     (case get_device ifname k of
        None \<Rightarrow> None
      | Some d \<Rightarrow> map_option (\<lambda>p. (rx_bytes p, tx_bytes p, last_handshake_time p))
           (List.find (\<lambda>p. public_key p = pubkey) (peers d)))"

definition wgctl_get_server_pubkey :: "(string \<Rightarrow> 'k \<Rightarrow> wg_device option) \<Rightarrow> string \<Rightarrow> 'k \<Rightarrow> bytes option" where
  "wgctl_get_server_pubkey get_device ifname k = map_option dev_public_key (get_device ifname k)"

section \<open>Requests for pool addresses\<close>

lemma colon_not_digit: "\<not> isdigit (CHR '':'')"
  by (simp add: isdigit_def)

lemma colon_not_in_ntop4 [simp]: "CHR '':'' \<notin> set (inet_ntop4 ip)"
  using dec_of_nat_digits colon_not_digit by (auto simp: inet_ntop4_def Let_def)

lemma parse_allowed_ip4:
  assumes "n < 1000"
  shows "parse_allowed_ip (inet_ntop4 ip @ CHR ''/'' # dec_of_nat n) = Some \<lparr>aip_addr = Ip4 ip, aip_cidr = of_nat n\<rparr>"
proof -
  have "length (inet_ntop4 ip @ CHR ''/'' # dec_of_nat n) \<le> 63"
    using length_inet_ntop4 [of ip] length_dec_of_nat_le3 [OF assms] by simp
  then show ?thesis
    using assms by (simp add: parse_allowed_ip_def cut_at_here inet_pton4_ntop4 atoi_dec_of_nat)
qed

lemma parse_ip_string: "parse_allowed_ip (ip_string ip) = Some \<lparr>aip_addr = Ip4 ip, aip_cidr = 32\<rparr>"
proof -
  have "dec_of_nat 32 = ''32''" by code_simp
  then show ?thesis using parse_allowed_ip4 [of 32 ip] by (simp add: ip_string_def)
qed

definition client_peer :: "bytes \<Rightarrow> bytes \<Rightarrow> u32 \<Rightarrow> wg_peer" where
  "client_peer pubkey psk ip = \<lparr>peer_flags = 14, public_key = pubkey, preshared_key = psk,
     endpoint = NoEndpoint, last_handshake_time = 0, rx_bytes = 0, tx_bytes = 0, persistent_keepalive_interval = 0,
     allowedips = [\<lparr>aip_addr = Ip4 ip, aip_cidr = 32\<rparr>]\<rparr>"

lemma add_peer_request:
  "wgctl_add_peer set_device ifname pubkey (Some psk) (ip_string ip) k =
   (let (rc, k') = set_device ((new_device ifname)\<lparr>peers := [client_peer pubkey psk ip]\<rparr>) k
    in (if rc < 0 then -1 else 0, k'))"
  by (simp add: wgctl_add_peer_def parse_ip_string client_peer_def new_peer_def wg_flag_defs
      split: prod.splits)

text \<open>
  A peer added for an address of the pool is one request to the kernel for exactly one peer,
  with that public key and preshared key, its allowed addresses replaced by that single address
  as a \<open>/32\<close>; no other peer is touched.\<close>

lemma wgctl_add_peer_request:
  "wgctl_add_peer set_device ifname pubkey (Some psk) (ip_string ip) k =
   (let (rc, k') = set_device ((new_device ifname)\<lparr>peers := [client_peer pubkey psk ip]\<rparr>) k
    in (if rc < 0 then -1 else 0, k'))"
  by (rule add_peer_request)

text \<open>
  The prefix length of an allowed address goes through a \<open>uint8_t\<close> unchecked: a prefix
  written as 256 more denotes the same network, so \<open>/256\<close> allows every address.\<close>

lemma prefix_wraps:
  assumes "n < 700"
  shows "parse_allowed_ip (inet_ntop4 ip @ CHR ''/'' # dec_of_nat (n + 256)) =
         parse_allowed_ip (inet_ntop4 ip @ CHR ''/'' # dec_of_nat n)"
  using assms by (simp add: parse_allowed_ip4)

lemma prefix_wraps_witness:
  "parse_allowed_ip (inet_ntop4 0 @ CHR ''/'' # dec_of_nat (0 + 256)) = Some \<lparr>aip_addr = Ip4 0, aip_cidr = 0\<rparr>"
  using prefix_wraps [of 0 0] parse_allowed_ip4 [of 0 0] by simp

section \<open>Commands run\<close>

text \<open>The commands that configure the address and bring the interface up.\<close>

definition ip_command :: "string \<Rightarrow> string list \<Rightarrow> bool" where
  "ip_command name argv \<longleftrightarrow>
     (\<exists>a. argv = [''ip'', ''addr'', ''add'', a, ''dev'', name] \<and> a \<noteq> [] \<and>
          (\<forall>c \<in> set a. isxdigit c \<or> c \<in> {CHR ''.'', CHR '':'', CHR ''/''})) \<or>
     argv = [''ip'', ''link'', ''set'', ''up'', ''dev'', name]"

lemma conf_name:
  "conf_lines d ls c \<in> {Next c', BadKey c', Oom c'} \<Longrightarrow> dev_name (dev c') = dev_name (dev c)"
proof -
  have ips: "conf_allowed_ips ts c \<in> {Next c', BadKey c', Oom c'} \<Longrightarrow> dev_name (dev c') = dev_name (dev c)" for ts c c'
    by (induction ts c rule: conf_allowed_ips.induct)
       (auto simp: Let_def set_cur_peer_def split: if_splits option.splits)
  have line: "conf_line d l c \<in> {Next c', BadKey c', Oom c'} \<Longrightarrow> dev_name (dev c') = dev_name (dev c)" for l c c'
    using ips by (auto simp: conf_line_def conf_section_def conf_interface_def conf_peer_def Let_def
        set_cur_peer_def split: if_splits option.splits prod.splits parse_state.splits)
  show "conf_lines d ls c \<in> {Next c', BadKey c', Oom c'} \<Longrightarrow> dev_name (dev c') = dev_name (dev c)"
    using line by (induction ls arbitrary: c) (fastforce split: conf_end.splits)+
qed

lemma safe_address_chars: "safe_address a \<Longrightarrow> c \<in> set a \<Longrightarrow> isxdigit c \<or> c \<in> {CHR ''.'', CHR '':'', CHR ''/''}"
  by (auto simp: safe_address_def list_all_iff isxdigit_def)


text \<open>
  C36: Whatever the static configuration file says, every command the reader runs is either
  \<open>ip link set up dev N\<close> or \<open>ip addr add A dev N\<close>, where \<open>A\<close> is not empty and has
  hexadecimal digits, dots, colons and slashes only: two ways of running commands that agree on
  those commands give the same result.\<close>

theorem static_config_commands:
  assumes "\<And>argv k. ip_command (take 15 ifname) argv \<Longrightarrow> run1 argv k = run2 argv k"
  shows "wgctl_load_static_config b64 add_device set_device run1 callocs ifname file k =
         wgctl_load_static_config b64 add_device set_device run2 callocs ifname file k"
proof -
  have link: "run1 [''ip'', ''link'', ''set'', ''up'', ''dev'', take 15 ifname] k =
      run2 [''ip'', ''link'', ''set'', ''up'', ''dev'', take 15 ifname] k" for k
    by (rule assms) (simp add: ip_command_def)
  have addr: "run1 [''ip'', ''addr'', ''add'', a, ''dev'', take 15 ifname] k =
      run2 [''ip'', ''addr'', ''add'', a, ''dev'', take 15 ifname] k" if "a \<noteq> []" "safe_address a" for a k
    using that safe_address_chars [of a] by (intro assms) (auto simp: ip_command_def)
  have name: "dev_name (dev c) = take 15 ifname"
    if "conf_lines b64 ls \<lparr>pstate = STATE_NONE, dev = new_device ifname, interface_address = [], mem = callocs\<rparr> = Next c"
    for ls c
  proof -
    have "dev_name (dev c) = dev_name (new_device ifname)"
      using conf_name [of b64 ls _ c] that by (metis conf.select_convs(2) insertI1)
    then show ?thesis by (simp add: new_device_def)
  qed
  show ?thesis
    by (auto simp: wgctl_load_static_config_def Let_def link addr name
        split: option.splits conf_end.splits prod.splits)
qed

theorem static_config_commands_witness:
  "\<forall>file. wgctl_load_static_config (\<lambda>s n. key_of_text s) (\<lambda>n k. (0, k)) (\<lambda>d k. (0, k)) (\<lambda>argv k. (0, k)) 9 ''wg0'' file 0 =
     wgctl_load_static_config (\<lambda>s n. key_of_text s) (\<lambda>n k. (0, k)) (\<lambda>d k. (0, k))
       (\<lambda>argv k. (0, if hd argv = ''sh'' then 1 else k)) 9 ''wg0'' file (0 :: nat)"
  by (intro allI static_config_commands) (auto simp: ip_command_def)

section \<open>Round trip of the static configuration\<close>

text \<open>
  A peer as an administrator writes it: its public key, possibly a preshared key, and the IPv4
  networks it may use. \<open>static_text\<close> is the file for an interface and its peers in the format
  of \<open>wg showconf\<close>, \<open>static_device\<close> the device it describes.\<close>

type_synonym static_peer = "bytes \<times> bytes option \<times> (u32 \<times> nat) list"

definition network_text :: "u32 \<times> nat \<Rightarrow> string" where
  "network_text = (\<lambda>(ip, n). inet_ntop4 ip @ CHR ''/'' # dec_of_nat n)"

definition network_aip :: "u32 \<times> nat \<Rightarrow> wg_allowedip" where
  "network_aip = (\<lambda>(ip, n). \<lparr>aip_addr = Ip4 ip, aip_cidr = of_nat n\<rparr>)"

fun peer_lines :: "static_peer \<Rightarrow> string list" where
  "peer_lines (pk, psk, nets) = ''[Peer]'' # key_line ''PublicKey'' (wg_key_to_base64 pk) #
     (case psk of None \<Rightarrow> [] | Some s \<Rightarrow> [key_line ''PresharedKey'' (wg_key_to_base64 s)]) @
     map (\<lambda>n. key_line ''AllowedIPs'' (network_text n)) nets"

fun static_peer :: "static_peer \<Rightarrow> wg_peer" where
  "static_peer (pk, psk, nets) = (new_peer (case psk of None \<Rightarrow> 6 | Some s \<Rightarrow> 14))\<lparr>public_key := pk,
     preshared_key := (case psk of None \<Rightarrow> zero_key | Some s \<Rightarrow> s), allowedips := map network_aip nets\<rparr>"

definition static_text :: "bytes \<Rightarrow> u16 \<Rightarrow> static_peer list \<Rightarrow> string" where
  "static_text priv port ps = unlines (''[Interface]'' # key_line ''PrivateKey'' (wg_key_to_base64 priv) #
     key_line ''ListenPort'' (dec_of_nat (unat port)) # concat (map peer_lines ps))"

definition static_device :: "string \<Rightarrow> bytes \<Rightarrow> u16 \<Rightarrow> static_peer list \<Rightarrow> wg_device" where
  "static_device ifname priv port ps = (new_device ifname)\<lparr>private_key := priv, listen_port := port,
     dev_flags := 10, peers := map static_peer ps\<rparr>"

definition peer_wf :: "static_peer \<Rightarrow> bool" where
  "peer_wf = (\<lambda>(pk, psk, nets). length pk = WG_KEY_LEN \<and> (case psk of None \<Rightarrow> True | Some s \<Rightarrow> length s = WG_KEY_LEN) \<and>
     (\<forall>(ip, n) \<in> set nets. n \<le> 32))"

definition peer_allocs :: "static_peer \<Rightarrow> nat" where
  "peer_allocs = (\<lambda>(pk, psk, nets). Suc (length nets))"

lemma base64_char_code:
  assumes "0 \<le> v" "v < 64"
  shows "(of_char (base64_char v) :: nat) \<in> {43, 47} \<union> {48..57} \<union> {65..90} \<union> {97..122}"
  using assms by (auto simp: base64_char_cases_of)

definition key_chars :: "string \<Rightarrow> bool" where
  "key_chars s \<longleftrightarrow> (\<forall>c \<in> set s. (of_char c :: nat) \<in> {43, 47, 61} \<union> {48..57} \<union> {65..90} \<union> {97..122})"

lemma encode_chars: "key_chars (encode_base64 a b c)"
  using base64_char_code sextets_range [of _ a b c] by (fastforce simp: key_chars_def encode_sextets)

lemma to_base64_chars: "key_chars (wg_key_to_base64 k)"
proof (induction k rule: wg_key_to_base64.induct)
  case (1 a b)
  then show ?case using encode_chars [of a b 0] by (auto simp: key_chars_def dest: in_set_takeD)
next
  case (2 a b c key)
  then show ?case using encode_chars [of a b c] by (auto simp: key_chars_def)
qed (auto simp: key_chars_def)

lemma code_neq: "(of_char c :: nat) \<noteq> of_char d \<Longrightarrow> c \<noteq> d"
  by auto

lemma key_chars_plain:
  assumes "key_chars s"
  shows "plain s \<and> CHR 0x0D \<notin> set s"
proof -
  have "c \<noteq> newline \<and> c \<noteq> CHR 0x00 \<and> c \<noteq> CHR '';'' \<and> c \<noteq> CHR 0x0D \<and> \<not> isspace c" if "c \<in> set s" for c
    using that assms by (force simp: key_chars_def newline_def isspace_def)
  then show ?thesis by (auto simp: plain_def)
qed

lemma wg_trim_eq: "wg_trim = trim"
  by (rule ext) (simp add: wg_trim_def trim_def)

text \<open>One line of the file.\<close>

lemma conf_value_line:
  assumes "key_name key" "plain val" "CHR 0x0D \<notin> set val"
  shows "conf_line d (key_line key val @ [newline]) c =
     (case pstate c of STATE_INTERFACE \<Rightarrow> conf_interface d key val c
      | STATE_PEER \<Rightarrow> conf_peer d key val c | STATE_NONE \<Rightarrow> Next c)"
proof -
  have k: "key \<noteq> []" "\<not> isspace (hd key)" "\<not> isspace (last key)" "CHR ''='' \<notin> set key"
    "hd key \<notin> {CHR ''#'', CHR '';'', CHR ''[''}"
    using assms(1) by (auto simp: key_name_def)
  have v: "trim val = val" "CHR '';'' \<notin> set val" "val \<noteq> [] \<Longrightarrow> \<not> isspace (last val)"
    using assms(2) by (auto simp: plain_def intro: trim_id)
  have ret: "isspace newline" "isspace (CHR 0x0D)" "\<not> isspace (CHR ''='')"
    by (simp_all add: isspace_def newline_def)
  have "x \<noteq> CHR 0x0D \<and> x \<noteq> newline" if "x \<in> set (key_line key val)" for x
    using that assms ret by (auto simp: key_line_def key_name_def plain_def newline_def)
  then have cut: "takeWhile (\<lambda>x. x \<noteq> CHR 0x0D \<and> x \<noteq> newline) (key_line key val @ [newline]) = key_line key val"
    by (simp add: takeWhile_append2)
  have "\<not> isspace (last (key_line key val))" using v(3) ret by (auto simp: key_line_def)
  then have "trim (key_line key val) = key_line key val"
    using k by (intro trim_id) (auto simp: key_line_def)
  moreover have "cut_at (CHR ''='') (key_line key val) = (key, Some val)"
    using k by (simp add: key_line_def cut_at_here)
  moreover have "trim key = key" using k by (intro trim_id) auto
  moreover have "strip_inline_comment val = val"
    unfolding strip_inline_comment_def using v(2) by (intro takeWhile_all) auto
  moreover have "hd (key_line key val) = hd key" "key_line key val \<noteq> []"
    using k by (simp_all add: key_line_def)
  ultimately show ?thesis
    using k v unfolding conf_line_def wg_trim_eq cut by (cases "pstate c") (simp_all add: Let_def)
qed

lemma conf_section_line:
  assumes "p \<in> {''[Interface]'', ''[Peer]''}"
  shows "conf_line d (p @ [newline]) c = conf_section p c"
proof -
  have "takeWhile (\<lambda>x. x \<noteq> CHR 0x0D \<and> x \<noteq> newline) (p @ [newline]) = p" "trim p = p"
    "p \<noteq> []" "hd p = CHR ''[''"
    using assms by (auto simp: newline_def isspace_def intro!: trim_id)
  then show ?thesis unfolding conf_line_def wg_trim_eq by (simp add: Let_def)
qed

lemma conf_lines_append:
  "conf_lines d (xs @ ys) c = (case conf_lines d xs c of Next c' \<Rightarrow> conf_lines d ys c' | e \<Rightarrow> e)"
  by (induction xs arbitrary: c) (auto split: conf_end.splits)


lemma network_text_chars: "c \<in> set (network_text n) \<Longrightarrow> isdigit c \<or> c = CHR ''.'' \<or> c = CHR ''/''"
  using dec_of_nat_digits by (auto simp: network_text_def inet_ntop4_def Let_def split: prod.splits)

lemma network_text_plain:
  "plain (network_text n)" "CHR 0x0D \<notin> set (network_text n)" "CHR '','' \<notin> set (network_text n)"
  "network_text n \<noteq> []" "trim (network_text n) = network_text n"
proof -
  have c: "c \<noteq> newline \<and> c \<noteq> CHR 0x00 \<and> c \<noteq> CHR '';'' \<and> c \<noteq> CHR 0x0D \<and> c \<noteq> CHR '','' \<and> \<not> isspace c"
    if "c \<in> set (network_text n)" for c
    using network_text_chars [OF that] by (auto simp: newline_def isdigit_def isspace_def)
  then show "plain (network_text n)" "CHR 0x0D \<notin> set (network_text n)" "CHR '','' \<notin> set (network_text n)"
    by (auto simp: plain_def)
  show "network_text n \<noteq> []" by (simp add: network_text_def split: prod.splits)
  then show "trim (network_text n) = network_text n" using c by (intro trim_id) auto
qed

lemma network_parse: "snd n \<le> 32 \<Longrightarrow> parse_allowed_ip (network_text n) = Some (network_aip n)"
  by (cases n) (simp add: network_text_def network_aip_def parse_allowed_ip4)

lemma set_cur_peer_last:
  "peers (dev c) = xs @ [p] \<Longrightarrow> set_cur_peer f c = c\<lparr>dev := (dev c)\<lparr>peers := xs @ [f p]\<rparr>\<rparr>"
  by (simp add: set_cur_peer_def)

lemma static_keys:
  "key_name ''PrivateKey''" "key_name ''ListenPort''" "key_name ''PublicKey''" "key_name ''PresharedKey''"
  "key_name ''AllowedIPs''"
  by (simp_all add: key_name_def isspace_def)

lemma conf_network:
  assumes "pstate c = STATE_PEER" "peers (dev c) = xs @ [p]" "0 < mem c" "snd n \<le> 32"
  shows "conf_line d (key_line ''AllowedIPs'' (network_text n) @ [newline]) c =
     Next (c\<lparr>dev := (dev c)\<lparr>peers := xs @ [p\<lparr>allowedips := allowedips p @ [network_aip n]\<rparr>]\<rparr>, mem := mem c - 1\<rparr>)"
proof -
  have "\<not> strcasecmp_eq ''AllowedIPs'' ''PublicKey''" "\<not> strcasecmp_eq ''AllowedIPs'' ''PresharedKey''"
    "strcasecmp_eq ''AllowedIPs'' ''AllowedIPs''" by (code_simp+)
  moreover have "strtok_commas (network_text n) = [network_text n]"
    using network_text_plain [of n] by (simp add: strtok_commas_def split_on_last)
  moreover have "set_cur_peer f (c\<lparr>mem := m\<rparr>) = c\<lparr>dev := (dev c)\<lparr>peers := xs @ [f p]\<rparr>, mem := m\<rparr>" for f m
    using assms(2) by (simp add: set_cur_peer_def)
  ultimately show ?thesis
    using assms network_text_plain [of n] network_parse [OF assms(4)]
    by (simp add: conf_value_line static_keys conf_peer_def wg_trim_eq Let_def)
qed

lemma conf_networks:
  assumes "pstate c = STATE_PEER" "peers (dev c) = xs @ [p]" "length nets \<le> mem c" "\<forall>n \<in> set nets. snd n \<le> 32"
  shows "conf_lines d (map (\<lambda>l. l @ [newline]) (map (\<lambda>n. key_line ''AllowedIPs'' (network_text n)) nets)) c =
     Next (c\<lparr>dev := (dev c)\<lparr>peers := xs @ [p\<lparr>allowedips := allowedips p @ map network_aip nets\<rparr>]\<rparr>,
             mem := mem c - length nets\<rparr>)"
  using assms
proof (induction nets arbitrary: c p)
  case Nil
  then show ?case by simp
next
  case (Cons n nets)
  let ?c = "c\<lparr>dev := (dev c)\<lparr>peers := xs @ [p\<lparr>allowedips := allowedips p @ [network_aip n]\<rparr>]\<rparr>, mem := mem c - 1\<rparr>"
  have "conf_line d (key_line ''AllowedIPs'' (network_text n) @ [newline]) c = Next ?c"
    using Cons.prems by (intro conf_network) auto
  moreover have "pstate ?c = STATE_PEER" "length nets \<le> mem ?c" "\<forall>n \<in> set nets. snd n \<le> 32"
    "peers (dev ?c) = xs @ [p\<lparr>allowedips := allowedips p @ [network_aip n]\<rparr>]"
    using Cons.prems by auto
  note Cons.IH [OF this(1,4,2,3)]
  ultimately show ?case by (simp del: map_map)
qed


text \<open>What the reader relies on: libsodium decodes the standard text of a key.\<close>

definition key_decoder :: "(string \<Rightarrow> nat \<Rightarrow> bytes option) \<Rightarrow> bool" where
  "key_decoder d \<longleftrightarrow> (\<forall>k. length k = WG_KEY_LEN \<longrightarrow> d (wg_key_to_base64 k) WG_KEY_LEN = Some k)"

lemma decode_key_static:
  "key_decoder d \<Longrightarrow> length k = WG_KEY_LEN \<Longrightarrow> decode_key d (wg_key_to_base64 k) = Some k"
  by (simp add: decode_key_def key_decoder_def)

lemma static_key_cases:
  "\<not> strcasecmp_eq ''PresharedKey'' ''PublicKey''" "strcasecmp_eq ''PresharedKey'' ''PresharedKey''"
  "strcasecmp_eq ''PublicKey'' ''PublicKey''" "strcasecmp_eq ''PrivateKey'' ''PrivateKey''"
  "\<not> strcasecmp_eq ''ListenPort'' ''PrivateKey''" "strcasecmp_eq ''ListenPort'' ''ListenPort''"
  "\<not> strcasecmp_eq (take 11 ''[Peer]'') ''[Interface]''" "strcasecmp_eq (take 6 ''[Peer]'') ''[Peer]''"
  "strcasecmp_eq (take 11 ''[Interface]'') ''[Interface]''"
  by code_simp+

lemma conf_peer_block:
  assumes dec: "key_decoder d"
    and "peer_wf p" "peer_allocs p \<le> mem c"
  shows "conf_lines d (map (\<lambda>l. l @ [newline]) (peer_lines p)) c =
     Next (c\<lparr>pstate := STATE_PEER, dev := (dev c)\<lparr>peers := peers (dev c) @ [static_peer p]\<rparr>,
             mem := mem c - peer_allocs p\<rparr>)"
proof -
  obtain pk psk nets where p: "p = (pk, psk, nets)" by (cases p)
  have wf: "length pk = WG_KEY_LEN" "psk = Some s \<Longrightarrow> length s = WG_KEY_LEN" "\<forall>n \<in> set nets. snd n \<le> 32" for s
    using assms(2) by (auto simp: p peer_wf_def)
  note keys = key_chars_plain [OF to_base64_chars]
  let ?p0 = "(new_peer 6)\<lparr>public_key := pk\<rparr>"
  let ?p1 = "case psk of None \<Rightarrow> ?p0 | Some s \<Rightarrow> ?p0\<lparr>preshared_key := s, peer_flags := 14\<rparr>"
  let ?c1 = "c\<lparr>pstate := STATE_PEER, mem := mem c - 1, dev := (dev c)\<lparr>peers := peers (dev c) @ [?p1]\<rparr>\<rparr>"
  have start: "conf_lines d (map (\<lambda>l. l @ [newline]) (''[Peer]'' # key_line ''PublicKey'' (wg_key_to_base64 pk) #
      (case psk of None \<Rightarrow> [] | Some s \<Rightarrow> [key_line ''PresharedKey'' (wg_key_to_base64 s)]))) c = Next ?c1"
  proof -
    have sec: "conf_line d (''[Peer]'' @ [newline]) c = Next (c\<lparr>pstate := STATE_PEER, mem := mem c - 1,
        dev := (dev c)\<lparr>peers := peers (dev c) @ [new_peer 6]\<rparr>\<rparr>)"
      using assms(3) static_key_cases(7,8)
      by (subst conf_section_line) (simp_all add: conf_section_def peer_allocs_def p wg_flag_defs del: take_Cons_numeral)
    show ?thesis
      unfolding list.map conf_lines.simps sec
      by (cases psk) (simp_all add: conf_value_line static_keys keys conf_peer_def static_key_cases
          decode_key_static [OF dec] wf set_cur_peer_def wg_flag_defs new_peer_def)
  qed
  have "conf_lines d (map (\<lambda>l. l @ [newline]) (map (\<lambda>n. key_line ''AllowedIPs'' (network_text n)) nets)) ?c1 =
     Next (?c1\<lparr>dev := (dev ?c1)\<lparr>peers := peers (dev c) @ [?p1\<lparr>allowedips := allowedips ?p1 @ map network_aip nets\<rparr>]\<rparr>,
             mem := mem ?c1 - length nets\<rparr>)"
    using assms(3) by (intro conf_networks) (simp_all add: wf p peer_allocs_def)
  moreover have "?p1\<lparr>allowedips := allowedips ?p1 @ map network_aip nets\<rparr> = static_peer p"
    by (simp add: p new_peer_def split: option.splits)
  moreover have "peer_lines p = (''[Peer]'' # key_line ''PublicKey'' (wg_key_to_base64 pk) #
      (case psk of None \<Rightarrow> [] | Some s \<Rightarrow> [key_line ''PresharedKey'' (wg_key_to_base64 s)])) @
      map (\<lambda>n. key_line ''AllowedIPs'' (network_text n)) nets"
    by (simp add: p)
  ultimately show ?thesis
    using start by (simp only: map_append conf_lines_append conf_end.case) (simp add: p peer_allocs_def)
qed


lemma conf_peer_blocks:
  assumes dec: "key_decoder d" and "list_all peer_wf ps" "sum_list (map peer_allocs ps) \<le> mem c"
    "pstate c \<noteq> STATE_NONE"
  shows "\<exists>st m. conf_lines d (map (\<lambda>l. l @ [newline]) (concat (map peer_lines ps))) c =
     Next (c\<lparr>pstate := st, dev := (dev c)\<lparr>peers := peers (dev c) @ map static_peer ps\<rparr>, mem := m\<rparr>)"
  using assms(2-)
proof (induction ps arbitrary: c)
  case Nil
  show ?case by (intro exI [of _ "pstate c"] exI [of _ "mem c"]) simp
next
  case (Cons p ps)
  let ?c = "c\<lparr>pstate := STATE_PEER, dev := (dev c)\<lparr>peers := peers (dev c) @ [static_peer p]\<rparr>,
             mem := mem c - peer_allocs p\<rparr>"
  have "conf_lines d (map (\<lambda>l. l @ [newline]) (peer_lines p)) c = Next ?c"
    using Cons.prems by (intro conf_peer_block dec) auto
  moreover have "list_all peer_wf ps" "sum_list (map peer_allocs ps) \<le> mem ?c" "pstate ?c \<noteq> STATE_NONE"
    using Cons.prems by auto
  note Cons.IH [OF this]
  ultimately show ?case by (auto simp: conf_lines_append)
qed

lemma u16_bound: "unat (w :: u16) < 65536" "uint (w :: u16) < 65536"
  by (rule order.strict_trans2 [OF unsigned_less], simp)+

lemma static_line_clean:
  assumes "l \<in> set (''[Interface]'' # key_line ''PrivateKey'' (wg_key_to_base64 priv) #
     key_line ''ListenPort'' (dec_of_nat (unat (port :: u16))) # concat (map peer_lines ps))"
    "length priv = WG_KEY_LEN" "list_all peer_wf ps"
  shows "newline \<notin> set l \<and> CHR 0x00 \<notin> set l \<and> length l < 1023"
proof -
  have clean: "newline \<notin> set (key_line key v) \<and> CHR 0x00 \<notin> set (key_line key v) \<and> length (key_line key v) < 1023"
    if "key_name key" "plain v" "length key < 30" "length v < 256" for key v
    using line_clean [OF that] by simp
  have key: "plain (wg_key_to_base64 k) \<and> length (wg_key_to_base64 k) < 256" if "length k = WG_KEY_LEN" for k
    using from_to_base64 [OF that] key_chars_plain [OF to_base64_chars] by simp
  have net: "length (network_text n) < 256" if "snd n \<le> 32" for n
    using length_inet_ntop4 [of "fst n"] length_dec_of_nat_le3 [of "snd n"] that
    by (cases n) (simp add: network_text_def)
  have port: "plain (dec_of_nat (unat port))" "length (dec_of_nat (unat port)) < 256"
    using plain_dec [of "int (unat port)"] length_dec_of_int [of "int (unat port)"] u16_bound [of port]
    by (simp_all add: dec_of_int_def)
  have peer: "newline \<notin> set l \<and> CHR 0x00 \<notin> set l \<and> length l < 1023" if "peer_wf p" "l \<in> set (peer_lines p)" for p l
    using that clean key net network_text_plain(1)
    by (cases p) (auto simp: peer_wf_def static_keys newline_def split: option.splits)
  have head: "newline \<notin> set ''[Interface]'' \<and> CHR 0x00 \<notin> set ''[Interface]''" by (simp add: newline_def)
  from assms(1) consider "l = ''[Interface]''" | "l = key_line ''PrivateKey'' (wg_key_to_base64 priv)"
    | "l = key_line ''ListenPort'' (dec_of_nat (unat port))" | p where "p \<in> set ps" "l \<in> set (peer_lines p)"
    by auto
  then show ?thesis
  proof cases
    case 4
    then show ?thesis using assms(3) by (intro peer) (auto simp: list_all_iff)
  qed (use head clean key assms(2) static_keys port in simp_all)
qed


text \<open>
  C16: A static configuration file that states a private key, a port and any number of peers, each
  with its public key, an optional preshared key and its networks, makes the reader configure
  exactly that device: one request with those peers in the order of the file. Assumed: the
  standard text of a key is decoded, and the memory suffices.\<close>

theorem static_config_applied:
  assumes "key_decoder d" "length priv = WG_KEY_LEN" "list_all peer_wf ps"
    "sum_list (map peer_allocs ps) \<le> callocs"
  shows "wgctl_load_static_config d add_device set_device run_cmd callocs ifname
           (Some (static_text priv port ps)) k =
     (let k1 = snd (add_device (take 15 ifname) k);
          (rc, k2) = set_device (static_device ifname priv port ps) k1
      in if rc < 0 then (Some (-1), k2)
         else (Some 0, snd (run_cmd [''ip'', ''link'', ''set'', ''up'', ''dev'', take 15 ifname] k2)))"
proof -
  let ?c0 = "\<lparr>pstate = STATE_NONE, dev = new_device ifname, interface_address = [], mem = callocs\<rparr>"
  let ?c1 = "?c0\<lparr>pstate := STATE_INTERFACE, dev := (new_device ifname)\<lparr>private_key := priv,
     dev_flags := 10, listen_port := port\<rparr>\<rparr>"
  have port: "plain (dec_of_nat (unat port))" "CHR 0x0D \<notin> set (dec_of_nat (unat port))"
    "atoi (dec_of_nat (unat port)) = int (unat port)"
    using plain_dec [of "int (unat port)"] dec_of_nat_digits [of "CHR 0x0D" "unat port"] u16_bound [of port]
      atoi_dec_of_nat [of "unat port"]
    by (auto simp: dec_of_int_def isdigit_def)
  have sec: "conf_line d (''[Interface]'' @ [newline]) ?c0 = Next (?c0\<lparr>pstate := STATE_INTERFACE\<rparr>)"
    using static_key_cases(9)
    by (subst conf_section_line) (simp_all add: conf_section_def del: take_Cons_numeral)
  note keys = key_chars_plain [OF to_base64_chars]
  have "conf_lines d (map (\<lambda>l. l @ [newline]) [''[Interface]'', key_line ''PrivateKey'' (wg_key_to_base64 priv),
     key_line ''ListenPort'' (dec_of_nat (unat port))]) ?c0 = Next ?c1"
    unfolding list.map conf_lines.simps sec
    using assms(2) by (simp add: conf_value_line static_keys keys port conf_interface_def static_key_cases
        decode_key_static [OF assms(1)] wg_flag_defs new_device_def)
  moreover obtain st m where "conf_lines d (map (\<lambda>l. l @ [newline]) (concat (map peer_lines ps))) ?c1 =
     Next (?c1\<lparr>pstate := st, dev := (dev ?c1)\<lparr>peers := peers (dev ?c1) @ map static_peer ps\<rparr>, mem := m\<rparr>)"
    using conf_peer_blocks [OF assms(1,3), of ?c1] assms(4) by auto
  moreover have "fgets_lines 1023 (static_text priv port ps) =
     map (\<lambda>l. l @ [newline]) ([''[Interface]'', key_line ''PrivateKey'' (wg_key_to_base64 priv),
       key_line ''ListenPort'' (dec_of_nat (unat port))] @ concat (map peer_lines ps))"
    unfolding static_text_def using static_line_clean [OF _ assms(2,3)]
    by (subst fgets_lines_unlines) auto
  ultimately have "conf_lines d (fgets_lines 1023 (static_text priv port ps)) ?c0 =
     Next (?c1\<lparr>pstate := st, dev := static_device ifname priv port ps, mem := m\<rparr>)"
    by (simp only: map_append conf_lines_append conf_end.case) (simp add: static_device_def new_device_def)
  then show ?thesis
    by (simp add: wgctl_load_static_config_def static_device_def new_device_def Let_def split: prod.splits)
qed

lemma key_decoder_wgkeys: "key_decoder (\<lambda>s n. key_of_text s)"
  by (simp add: key_decoder_def wgkeys.dec_enc)

theorem static_config_applied_witness:
  "fst (wgctl_load_static_config (\<lambda>s n. key_of_text s) (\<lambda>n k. (0, k)) (\<lambda>d k. (0, d # k)) (\<lambda>a k. (0, k)) 2
     ''wg0'' (Some (static_text zero_key 51820 [(zero_key, None, [(0, 0)])])) []) = Some 0 \<and>
   snd (wgctl_load_static_config (\<lambda>s n. key_of_text s) (\<lambda>n k. (0, k)) (\<lambda>d k. (0, d # k)) (\<lambda>a k. (0, k)) 2
     ''wg0'' (Some (static_text zero_key 51820 [(zero_key, None, [(0, 0)])])) []) =
     [static_device ''wg0'' zero_key 51820 [(zero_key, None, [(0, 0)])]]"
  by (subst static_config_applied, rule key_decoder_wgkeys; simp add: zero_key_def peer_wf_def peer_allocs_def)+

text \<open>
  A key that does not decode ends the reader by a jump past the assignment of the result: the
  kernel is left alone, and the value returned is that of an uninitialised variable.\<close>

lemma static_config_bad_key:
  "wgctl_load_static_config (\<lambda>s n. key_of_text s) add_device set_device run_cmd callocs ifname
     (Some (''[Interface]'' @ newline # ''PrivateKey = ?'')) k = (None, k)"
proof -
  have "fgets_lines 1023 (''[Interface]'' @ newline # ''PrivateKey = ?'') =
      [''[Interface]'' @ [newline], ''PrivateKey = ?'']" by code_simp
  moreover have "key_of_text ''?'' = None" by code_simp
  moreover have "cut_at (CHR ''='') ''PrivateKey = ?'' = (''PrivateKey '', Some '' ?'')" by code_simp
  moreover have "wg_trim ''PrivateKey = ?'' = ''PrivateKey = ?'' \<and> wg_trim ''PrivateKey '' = ''PrivateKey'' \<and>
     wg_trim '' ?'' = ''?'' \<and> wg_trim ''?'' = ''?'' \<and> strip_inline_comment ''?'' = ''?''" by code_simp
  moreover have "conf_line (\<lambda>s n. key_of_text s) (''[Interface]'' @ [newline]) c =
      Next (c\<lparr>pstate := STATE_INTERFACE\<rparr>)" for c
    using static_key_cases(9)
    by (subst conf_section_line) (simp_all add: conf_section_def del: take_Cons_numeral)
  ultimately show ?thesis
    by (simp add: wgctl_load_static_config_def conf_line_def newline_def Let_def conf_interface_def
        static_key_cases decode_key_def)
qed

end
