(* ===== verification/Database.thy ===== *)
theory Database
  imports CLib IpPool
begin

text \<open>
  The account and session store of \<open>server/src/db.c\<close>. The three tables are lists of rows in
  insertion order, and each function of the file is its SQL statement executed on them.
  SQLite itself is outside the program: \<open>sql_outcome\<close> says how it answers a statement (a
  failed prepare, a failed step, or success), the order in which a scan delivers rows is an
  argument, and so is the clock. Row identifiers come from AUTOINCREMENT, are never reused,
  and are taken to stay below \<open>2 ^ 31\<close>, where reading them as \<open>int\<close> is exact. The theory
  shows the table invariant, that the row copied into a C structure is the row itself, and
  that the store keeps the book of leases that the address pool needs.
\<close>

section \<open>Rows and tables\<close>

record account =
  acc_id :: int
  username :: string
  password_hash :: string
  acc_created_at :: int
  disabled :: int

record session =
  sess_id :: int
  account_id :: int
  device_pubkey :: string
  allowed_ip :: string
  session_token :: string
  created_at :: int
  expires_at :: int
  revoked :: int
  last_seen_at :: int

record audit_entry =
  audit_account_id :: int
  action :: string
  detail :: string
  audit_created_at :: int

record db =
  accounts :: "account list"
  next_account_id :: int
  sessions :: "session list"
  next_session_id :: int
  audit_log :: "audit_entry list"

definition empty_db :: db where
  "empty_db = \<lparr>accounts = [], next_account_id = 1, sessions = [], next_session_id = 1, audit_log = []\<rparr>"

text \<open>
  How SQLite answers one statement. \<open>SqlStepError n\<close>: stepping fails after \<open>n\<close> rows. The
  out-of-memory exits of the two listing functions have the same effect: \<open>malloc\<close> failing is
  a failed prepare, \<open>realloc\<close> failing ends the loop after the rows read so far.
\<close>

datatype sql_outcome = SqlOk | SqlPrepareError | SqlStepError nat

definition rows_read :: "sql_outcome \<Rightarrow> 'r list \<Rightarrow> 'r list" where
  "rows_read out rs = (case out of SqlOk \<Rightarrow> rs | SqlPrepareError \<Rightarrow> [] | SqlStepError n \<Rightarrow> take n rs)"

lemma rows_read_subset: "r \<in> set (rows_read out rs) \<Longrightarrow> r \<in> set rs"
  by (auto simp: rows_read_def split: sql_outcome.splits dest: in_set_takeD)

definition exec_sql :: "sql_outcome \<Rightarrow> int" where
  "exec_sql out = (if out = SqlOk then 0 else -1)"

text \<open>
  \<open>db_init\<close> opens the file (\<open>None\<close>: a new one) and creates the tables that are missing; the
  index statements may fail without effect on the tables.
\<close>

definition db_init :: "bool \<Rightarrow> sql_outcome \<Rightarrow> sql_outcome \<Rightarrow> sql_outcome \<Rightarrow> db option \<Rightarrow> int \<times> db option" where
  "db_init opened o_accounts o_sessions o_audit file =
     (if \<not> opened then (-1, file)
      else if exec_sql o_accounts \<noteq> 0 then (-1, file)
      else if exec_sql o_sessions \<noteq> 0 then (-1, file)
      else if exec_sql o_audit \<noteq> 0 then (-1, file)
      else (0, Some (case file of None \<Rightarrow> empty_db | Some d \<Rightarrow> d)))"

section \<open>Accounts\<close>

text \<open>The copy of a row into \<open>account_t\<close>, whose fields have fixed sizes.\<close>

definition account_of_row :: "account \<Rightarrow> account" where
  "account_of_row r = r\<lparr>username := take 63 (username r), password_hash := take 255 (password_hash r)\<rparr>"

text \<open>A NULL user name is bound as SQL NULL and equals no row.\<close>

definition db_get_account_by_username :: "sql_outcome \<Rightarrow> string option \<Rightarrow> db \<Rightarrow> account option" where
  "db_get_account_by_username out user d =
     (case rows_read out (filter (\<lambda>r. Some (username r) = user) (accounts d)) of
        [] \<Rightarrow> None | r # _ \<Rightarrow> Some (account_of_row r))"

definition db_create_account :: "sql_outcome \<Rightarrow> int \<Rightarrow> string \<Rightarrow> string \<Rightarrow> db \<Rightarrow> int \<times> db" where
  "db_create_account out now user hash d =
     (if out \<noteq> SqlOk \<or> user \<in> username ` set (accounts d) then (-1, d)
      else (0, d\<lparr>accounts := accounts d @ [\<lparr>acc_id = next_account_id d, username = user,
                    password_hash = hash, acc_created_at = now, disabled = 0\<rparr>],
                 next_account_id := next_account_id d + 1\<rparr>))"

section \<open>Sessions\<close>

definition db_create_session ::
  "sql_outcome \<Rightarrow> int \<Rightarrow> int \<Rightarrow> string \<Rightarrow> string \<Rightarrow> string \<Rightarrow> int \<Rightarrow> db \<Rightarrow> int \<times> db" where
  "db_create_session out now acc pubkey ip token expires d =
     (if out \<noteq> SqlOk \<or> token \<in> session_token ` set (sessions d) then (-1, d)
      else (0, d\<lparr>sessions := sessions d @ [\<lparr>sess_id = next_session_id d, account_id = acc,
                    device_pubkey = pubkey, allowed_ip = ip, session_token = token,
                    created_at = now, expires_at = expires, revoked = 0, last_seen_at = 0\<rparr>],
                 next_session_id := next_session_id d + 1\<rparr>))"

text \<open>The copy of a row into \<open>session_t\<close>; the listing functions fill five fields only.\<close>

definition session_of_row :: "session \<Rightarrow> session" where
  "session_of_row r = r\<lparr>device_pubkey := take 63 (device_pubkey r),
     allowed_ip := take 31 (allowed_ip r), session_token := take 63 (session_token r)\<rparr>"

definition session_listed :: "session \<Rightarrow> session" where
  "session_listed r = (session_of_row r)\<lparr>created_at := 0, expires_at := 0, revoked := 0, last_seen_at := 0\<rparr>"

definition db_get_session_by_token :: "sql_outcome \<Rightarrow> string \<Rightarrow> db \<Rightarrow> session option" where
  "db_get_session_by_token out token d =
     (case rows_read out (filter (\<lambda>r. session_token r = token) (sessions d)) of
        [] \<Rightarrow> None | r # _ \<Rightarrow> Some (session_of_row r))"

definition update_sessions :: "(session \<Rightarrow> bool) \<Rightarrow> (session \<Rightarrow> session) \<Rightarrow> db \<Rightarrow> db" where
  "update_sessions P f d = d\<lparr>sessions := map (\<lambda>r. if P r then f r else r) (sessions d)\<rparr>"

definition db_revoke_session :: "sql_outcome \<Rightarrow> int \<Rightarrow> db \<Rightarrow> int \<times> db" where
  "db_revoke_session out sid d =
     (if out \<noteq> SqlOk then (-1, d)
      else (0, update_sessions (\<lambda>r. sess_id r = sid) (\<lambda>r. r\<lparr>revoked := 1\<rparr>) d))"

definition db_update_session_expiry :: "sql_outcome \<Rightarrow> int \<Rightarrow> int \<Rightarrow> db \<Rightarrow> int \<times> db" where
  "db_update_session_expiry out sid expires d =
     (if out \<noteq> SqlOk then (-1, d)
      else (0, update_sessions (\<lambda>r. sess_id r = sid) (\<lambda>r. r\<lparr>expires_at := expires\<rparr>) d))"

text \<open>\<open>None\<close> is the error code; \<open>ord\<close> is the order in which the scan delivers the rows.\<close>

definition db_get_expired_sessions ::
  "sql_outcome \<Rightarrow> (session list \<Rightarrow> session list) \<Rightarrow> int \<Rightarrow> db \<Rightarrow> session list option" where
  "db_get_expired_sessions out ord now d =
     (if out = SqlPrepareError then None
      else Some (map session_listed (rows_read out (take 100
        (filter (\<lambda>r. revoked r = 0 \<and> expires_at r < now) (ord (sessions d)))))))"

definition db_get_active_sessions ::
  "sql_outcome \<Rightarrow> (session list \<Rightarrow> session list) \<Rightarrow> int \<Rightarrow> db \<Rightarrow> session list option" where
  "db_get_active_sessions out ord now d =
     (if out = SqlPrepareError then None
      else Some (map session_listed (rows_read out
        (filter (\<lambda>r. revoked r = 0 \<and> expires_at r \<ge> now) (ord (sessions d))))))"

definition db_log_audit :: "sql_outcome \<Rightarrow> int \<Rightarrow> int \<Rightarrow> string \<Rightarrow> string \<Rightarrow> db \<Rightarrow> int \<times> db" where
  "db_log_audit out now acc act det d =
     (if out \<noteq> SqlOk then (-1, d)
      else (0, d\<lparr>audit_log := audit_log d @ [\<lparr>audit_account_id = acc, action = act, detail = det,
                    audit_created_at = now\<rparr>]\<rparr>))"

definition is_active :: "int \<Rightarrow> int \<Rightarrow> session \<Rightarrow> bool" where
  "is_active acc now r \<longleftrightarrow> account_id r = acc \<and> revoked r = 0 \<and> expires_at r \<ge> now"

definition db_count_active_sessions :: "sql_outcome \<Rightarrow> int \<Rightarrow> int \<Rightarrow> db \<Rightarrow> int" where
  "db_count_active_sessions out now acc d =
     (if out \<noteq> SqlOk then 0 else int (length (filter (is_active acc now) (sessions d))))"

definition db_revoke_all_active_sessions :: "sql_outcome \<Rightarrow> db \<Rightarrow> db" where
  "db_revoke_all_active_sessions out d =
     (if out \<noteq> SqlOk then d else update_sessions (\<lambda>r. revoked r = 0) (\<lambda>r. r\<lparr>revoked := 1\<rparr>) d)"

section \<open>The table invariant\<close>

definition fits :: "session \<Rightarrow> bool" where
  "fits r \<longleftrightarrow> length (device_pubkey r) \<le> 63 \<and> length (allowed_ip r) \<le> 31 \<and> length (session_token r) \<le> 63"

definition db_ok :: "db \<Rightarrow> bool" where
  "db_ok d \<longleftrightarrow> distinct (map sess_id (sessions d)) \<and> distinct (map session_token (sessions d))
     \<and> (\<forall>r \<in> set (sessions d). sess_id r < next_session_id d \<and> fits r)"

text \<open>The addresses of the sessions that are not revoked: the leases the store accounts for.\<close>

definition live_ips :: "db \<Rightarrow> string list" where
  "live_ips d = map allowed_ip (filter (\<lambda>r. revoked r = 0) (sessions d))"

lemma db_ok_empty: "db_ok empty_db"
  by (simp add: db_ok_def empty_db_def)

lemma session_of_row_fits [simp]: "fits r \<Longrightarrow> session_of_row r = r"
  by (simp add: session_of_row_def fits_def)

lemma session_listed_fields [simp]:
  "fits r \<Longrightarrow> sess_id (session_listed r) = sess_id r \<and> account_id (session_listed r) = account_id r
    \<and> device_pubkey (session_listed r) = device_pubkey r \<and> allowed_ip (session_listed r) = allowed_ip r"
  by (simp add: session_listed_def)

lemma db_ok_create_session:
  assumes "db_ok d" "length pubkey \<le> 63" "length ip \<le> 31" "length token \<le> 63"
  shows "db_ok (snd (db_create_session out now acc pubkey ip token expires d))"
  using assms by (force simp: db_ok_def db_create_session_def fits_def)

lemma map_update_same:
  "(\<And>r. g (f r) = g r) \<Longrightarrow> map g (sessions (update_sessions P f d)) = map g (sessions d)"
  by (auto simp: update_sessions_def)

lemma db_ok_update:
  assumes "db_ok d" "\<And>r. sess_id (f r) = sess_id r" "\<And>r. session_token (f r) = session_token r"
    "\<And>r. fits r \<Longrightarrow> fits (f r)"
  shows "db_ok (update_sessions P f d)"
proof -
  have "map sess_id (sessions (update_sessions P f d)) = map sess_id (sessions d)"
    "map session_token (sessions (update_sessions P f d)) = map session_token (sessions d)"
    using assms(2,3) by (intro map_update_same; simp)+
  moreover have "\<forall>r \<in> set (sessions (update_sessions P f d)).
      sess_id r < next_session_id (update_sessions P f d) \<and> fits r"
    using assms by (auto simp: db_ok_def update_sessions_def)
  ultimately show ?thesis using assms(1) by (simp add: db_ok_def)
qed

lemma fits_update [simp]: "fits (r\<lparr>revoked := v\<rparr>) = fits r" "fits (r\<lparr>expires_at := x\<rparr>) = fits r"
  by (simp_all add: fits_def)

lemma db_ok_revoke: "db_ok d \<Longrightarrow> db_ok (snd (db_revoke_session out sid d))"
  by (auto simp: db_revoke_session_def intro: db_ok_update)

lemma db_ok_expiry: "db_ok d \<Longrightarrow> db_ok (snd (db_update_session_expiry out sid x d))"
  by (auto simp: db_update_session_expiry_def intro: db_ok_update)

lemma db_ok_revoke_all: "db_ok d \<Longrightarrow> db_ok (db_revoke_all_active_sessions out d)"
  by (auto simp: db_revoke_all_active_sessions_def intro: db_ok_update)

lemma db_ok_log: "db_ok d \<Longrightarrow> db_ok (snd (db_log_audit out now acc act det d))"
  by (auto simp: db_log_audit_def db_ok_def)

lemma sessions_log [frame_simps]: "sessions (snd (db_log_audit out now acc act det d)) = sessions d"
  by (simp add: db_log_audit_def)

lemma live_ips_log [frame_simps]: "live_ips (snd (db_log_audit out now acc act det d)) = live_ips d"
  by (simp add: live_ips_def sessions_log)

lemma live_ips_create:
  "db_create_session out now acc pubkey ip token expires d = (r, d') \<Longrightarrow>
   live_ips d' = (if r = 0 then live_ips d @ [ip] else live_ips d)"
  by (auto simp: db_create_session_def live_ips_def split: if_splits)

lemma live_ips_expiry [frame_simps]:
  "live_ips (snd (db_update_session_expiry out sid x d)) = live_ips d"
  by (auto simp: db_update_session_expiry_def live_ips_def update_sessions_def filter_map comp_def
      intro!: arg_cong [of _ _ "map allowed_ip"] map_idI filter_cong)

lemma live_ips_revoke_all: "live_ips (db_revoke_all_active_sessions SqlOk d) = []"
  by (auto simp: db_revoke_all_active_sessions_def live_ips_def update_sessions_def filter_empty_conv)

section \<open>The store as a book of leases\<close>

lemma inj_on_live:
  assumes "distinct (live_ips d)" "r \<in> set (sessions d)" "r' \<in> set (sessions d)"
    "revoked r = 0" "revoked r' = 0" "allowed_ip r = allowed_ip r'"
  shows "r = r'"
  using assms by (auto simp: live_ips_def distinct_map dest: inj_onD)

lemma inj_on_ids: "db_ok d \<Longrightarrow> r \<in> set (sessions d) \<Longrightarrow> r' \<in> set (sessions d) \<Longrightarrow> sess_id r = sess_id r' \<Longrightarrow> r = r'"
  by (auto simp: db_ok_def distinct_map dest: inj_onD)

definition lease_owner :: "db \<Rightarrow> int \<Rightarrow> string option" where
  "lease_owner d sid = map_option allowed_ip
     (List.find (\<lambda>r. sess_id r = sid \<and> revoked r = 0) (sessions d))"

lemma lease_owner_row:
  "db_ok d \<Longrightarrow> r \<in> set (sessions d) \<Longrightarrow> revoked r = 0 \<Longrightarrow> lease_owner d (sess_id r) = Some (allowed_ip r)"
proof -
  assume a: "db_ok d" "r \<in> set (sessions d)" "revoked r = 0"
  then obtain r' where r': "List.find (\<lambda>r'. sess_id r' = sess_id r \<and> revoked r' = 0) (sessions d) = Some r'"
    by (cases "List.find (\<lambda>r'. sess_id r' = sess_id r \<and> revoked r' = 0) (sessions d)")
       (auto simp: find_None_iff_all)
  then have "r' = r" using a inj_on_ids [of d r' r] by (auto dest: find_Some_set)
  then show ?thesis using r' by (simp add: lease_owner_def)
qed

lemma live_ips_revoke:
  assumes "db_ok d" "distinct (live_ips d)" "lease_owner d sid = Some ip"
  shows "live_ips (snd (db_revoke_session SqlOk sid d)) = filter (\<lambda>b. b \<noteq> ip) (live_ips d)"
proof -
  obtain r where r: "r \<in> set (sessions d)" "sess_id r = sid" "revoked r = 0" "allowed_ip r = ip"
    using assms(3) by (auto simp: lease_owner_def dest!: find_Some_set)
  have same: "sess_id x = sid \<longleftrightarrow> allowed_ip x = ip" if "x \<in> set (sessions d)" "revoked x = 0" for x
    using inj_on_ids [OF assms(1) that(1) r(1)] inj_on_live [OF assms(2) that(1) r(1) that(2) r(3)] r
    by auto
  have "filter (\<lambda>x. revoked x = 0) (sessions (snd (db_revoke_session SqlOk sid d))) =
        filter (\<lambda>x. revoked x = 0 \<and> allowed_ip x \<noteq> ip) (sessions d)"
  proof -
    have "filter (\<lambda>x. revoked x = 0) (map (\<lambda>x. if sess_id x = sid then x\<lparr>revoked := 1\<rparr> else x) xs) =
        filter (\<lambda>x. revoked x = 0 \<and> sess_id x \<noteq> sid) xs" for xs
      by (induction xs) auto
    also have "filter (\<lambda>x. revoked x = 0 \<and> sess_id x \<noteq> sid) (sessions d) =
        filter (\<lambda>x. revoked x = 0 \<and> allowed_ip x \<noteq> ip) (sessions d)"
      using same by (auto intro: filter_cong)
    finally show ?thesis by (simp add: db_revoke_session_def update_sessions_def)
  qed
  then show ?thesis by (simp add: live_ips_def filter_map comp_def)
qed

text \<open>
  A store that keeps the book of the leases of an address pool: opening an entry appends an
  address, closing an entry removes the address it owns. Pool and book stay consistent when
  the operations are paired as the handlers pair them.
\<close>

locale lease_book = address_pool alloc release inv held
  for alloc :: "'p \<Rightarrow> ('a option \<times> 'p) option" and release :: "'a \<Rightarrow> 'p \<Rightarrow> (int \<times> 'p) option"
    and inv :: "'p \<Rightarrow> bool" and held :: "'p \<Rightarrow> 'a set" +
  fixes live :: "'d \<Rightarrow> 'a list"
    and enter :: "'x \<Rightarrow> 'a \<Rightarrow> 'd \<Rightarrow> int \<times> 'd"
    and drop :: "'k \<Rightarrow> 'd \<Rightarrow> 'd"
    and owner :: "'d \<Rightarrow> 'k \<Rightarrow> 'a option"
    and ok :: "'d \<Rightarrow> bool"
  assumes enter_live: "enter x a d = (r, d') \<Longrightarrow> live d' = (if r = 0 then live d @ [a] else live d)"
    and drop_live: "ok d \<Longrightarrow> distinct (live d) \<Longrightarrow> owner d k = Some a \<Longrightarrow>
          live (drop k d) = filter (\<lambda>b. b \<noteq> a) (live d)"
    and owner_live: "owner d k = Some a \<Longrightarrow> a \<in> set (live d)"
begin

definition consistent :: "'p \<Rightarrow> 'd \<Rightarrow> bool" where
  "consistent p d \<longleftrightarrow> leased p (live d)"

lemma consistent_frame: "consistent p d \<Longrightarrow> live d' = live d \<Longrightarrow> consistent p d'"
  by (simp add: consistent_def)

lemma open_lease:
  assumes "consistent p d" "alloc p = Some (Some a, p')" "enter x a d = (0, d')"
  shows "consistent p' d'"
  using leased_alloc [of p "live d" "Some a" p'] assms enter_live [OF assms(3)]
  by (simp add: consistent_def)

lemma no_lease: "consistent p d \<Longrightarrow> alloc p = Some (None, p') \<Longrightarrow> consistent p' d"
  using leased_alloc [of p "live d" None p'] by (simp add: consistent_def)

lemma undo_lease:
  "consistent p d \<Longrightarrow> alloc p = Some (Some a, p1) \<Longrightarrow> release a p1 = Some (r, p2) \<Longrightarrow> consistent p2 d"
  using leased_undo [of p "live d" a p1 r p2] by (simp add: consistent_def)

lemma close_lease:
  assumes "consistent p d" "ok d" "owner d k = Some a" "release a p = Some (r, p')"
  shows "r = 0 \<and> consistent p' (drop k d)"
proof -
  have "leased p (live d)" using assms(1) by (simp add: consistent_def)
  then show ?thesis
    using leased_release [OF _ owner_live [OF assms(3)] assms(4)] drop_live [OF assms(2) _ assms(3)]
    by (auto simp: consistent_def leased_def)
qed

end

definition enter_session :: "sql_outcome \<times> int \<times> int \<times> string \<times> string \<times> int \<Rightarrow> string \<Rightarrow> db \<Rightarrow> int \<times> db" where
  "enter_session = (\<lambda>(out, now, acc, pubkey, token, expires) ip d.
     db_create_session out now acc pubkey ip token expires d)"

interpretation book: lease_book "ip_pool_allocate 32" ip_pool_release pool_ok held_ips live_ips
  enter_session "\<lambda>sid d. snd (db_revoke_session SqlOk sid d)" lease_owner db_ok
proof unfold_locales
  show "enter_session x a d = (r, d') \<Longrightarrow> live_ips d' = (if r = 0 then live_ips d @ [a] else live_ips d)"
    for x a d r d' by (auto simp: enter_session_def split: prod.splits dest: live_ips_create)
  show "db_ok d \<Longrightarrow> distinct (live_ips d) \<Longrightarrow> lease_owner d k = Some a \<Longrightarrow>
      live_ips (snd (db_revoke_session SqlOk k d)) = filter (\<lambda>b. b \<noteq> a) (live_ips d)" for d k a
    by (rule live_ips_revoke)
  show "lease_owner d k = Some a \<Longrightarrow> a \<in> set (live_ips d)" for d k a
    by (auto simp: lease_owner_def live_ips_def dest!: find_Some_set)
qed

end
