(* ===== verification/Auth.thy ===== *)
theory Auth
  imports WgCtl Database Json
begin

text \<open>
  The services outside the program, and the authentication functions of
  \<open>server/src/auth.c\<close> and \<open>server/src/util.c\<close> on top of them. \<open>env\<close> collects what the
  system and the libraries provide: the clock (the \<open>n\<close>-th call of \<open>time\<close>), random bytes
  (the \<open>n\<close>-th request), the password hash, the curve and the base64 coders of libsodium, the
  answers of SQLite, the JSON parser and printer, and the netlink calls, which act on a
  kernel state \<open>'k\<close>. \<open>stale\<close> is what an uninitialised key buffer happens to hold.
\<close>

section \<open>Services\<close>

record 'k env =
  sys_time :: "nat \<Rightarrow> int"
  randombytes :: "nat \<Rightarrow> nat \<Rightarrow> bytes"
  pwhash_str_verify :: "string \<Rightarrow> string \<Rightarrow> bool"
  pwhash_str :: "string \<Rightarrow> nat \<Rightarrow> nat \<Rightarrow> string option"
  scalarmult_base :: "bytes \<Rightarrow> bytes option"
  bin2base64 :: "bytes \<Rightarrow> string"
  bin2base64url :: "bytes \<Rightarrow> string"
  base642bin :: "string \<Rightarrow> nat \<Rightarrow> bytes option"
  stale :: bytes
  sql :: "nat \<Rightarrow> sql_outcome"
  scan :: "session list \<Rightarrow> session list"
  json_parse :: "string \<Rightarrow> json option"
  json_print :: "json \<Rightarrow> string option"
  inet_ntop6 :: "bytes \<Rightarrow> string"
  wg_set_device :: "wg_device \<Rightarrow> 'k \<Rightarrow> int \<times> 'k"
  wg_get_device :: "string \<Rightarrow> 'k \<Rightarrow> wg_device option"
  wg_add_device :: "string \<Rightarrow> 'k \<Rightarrow> int \<times> 'k"
  run_cmd :: "string list \<Rightarrow> 'k \<Rightarrow> int \<times> 'k"

section \<open>Passwords\<close>

text \<open>\<open>strlen\<close> of a NULL password is undefined behaviour.\<close>

definition auth_verify_password :: "'k env \<Rightarrow> string \<Rightarrow> string option \<Rightarrow> int ub" where
  "auth_verify_password E hash password =
     (case password of
        None \<Rightarrow> None
      | Some pw \<Rightarrow> Some (if pwhash_str_verify E hash pw then 0 else -1))"

definition crypto_pwhash_STRBYTES :: nat where "crypto_pwhash_STRBYTES = 128"
definition crypto_pwhash_OPSLIMIT_INTERACTIVE :: nat where "crypto_pwhash_OPSLIMIT_INTERACTIVE = 2"
definition crypto_pwhash_MEMLIMIT_INTERACTIVE :: nat where "crypto_pwhash_MEMLIMIT_INTERACTIVE = 67108864"

definition auth_hash_password :: "'k env \<Rightarrow> server_config \<Rightarrow> string \<Rightarrow> nat \<Rightarrow> string option" where
  "auth_hash_password E cfg password hash_max_len =
     (if hash_max_len < crypto_pwhash_STRBYTES then None
      else pwhash_str E password
        (if argon2_time_cost cfg > 0 then nat (argon2_time_cost cfg) else crypto_pwhash_OPSLIMIT_INTERACTIVE)
        (if argon2_mem_cost_kb cfg > 0 then nat (argon2_mem_cost_kb cfg) * 1024
         else crypto_pwhash_MEMLIMIT_INTERACTIVE))"

section \<open>Keys and tokens\<close>

text \<open>RFC 7748 clamping of a private key.\<close>

definition clamp :: "bytes \<Rightarrow> bytes" where
  "clamp key = key[0 := key ! 0 AND 248, 31 := (key ! 31 AND 127) OR 64]"

text \<open>The public and the private key, and the result code.\<close>

definition auth_generate_keypair :: "'k env \<Rightarrow> nat \<Rightarrow> int \<times> bytes \<times> bytes" where
  "auth_generate_keypair E n =
     (let priv = clamp (randombytes E n WG_KEY_LEN) in
      case scalarmult_base E priv of
        None \<Rightarrow> (-1, stale E, priv)
      | Some pub \<Rightarrow> (0, pub, priv))"

definition auth_generate_psk :: "'k env \<Rightarrow> nat \<Rightarrow> bytes" where
  "auth_generate_psk E n = randombytes E n WG_KEY_LEN"

definition auth_generate_token :: "'k env \<Rightarrow> nat \<Rightarrow> string" where
  "auth_generate_token E n = bin2base64url E (randombytes E n 32)"

text \<open>
  The key buffer after \<open>base64_decode\<close> into \<open>WG_KEY_LEN\<close> bytes: a shorter result leaves the
  rest of the buffer as it was.\<close>

definition decoded_buffer :: "'k env \<Rightarrow> bytes \<Rightarrow> bytes" where
  "decoded_buffer E k = k @ drop (length k) (stale E)"

text \<open>What the theorems assume of the services: the documented sizes.\<close>

definition services_ok :: "'k env \<Rightarrow> bool" where
  "services_ok E \<longleftrightarrow>
     (\<forall>n l. length (randombytes E n l) = l) \<and> length (stale E) = WG_KEY_LEN \<and>
     (\<forall>k p. length k = WG_KEY_LEN \<longrightarrow> scalarmult_base E k = Some p \<longrightarrow> length p = WG_KEY_LEN) \<and>
     (\<forall>k. length k = WG_KEY_LEN \<longrightarrow> length (bin2base64 E k) = 44 \<and> length (bin2base64url E k) = 43) \<and>
     (\<forall>k. length k = WG_KEY_LEN \<longrightarrow> base642bin E (bin2base64 E k) WG_KEY_LEN = Some k)"

lemma length_clamp [simp]: "length (clamp k) = length k"
  by (simp add: clamp_def)

lemma eight_cases: "(n :: nat) < 8 \<Longrightarrow> n \<in> {0, 1, 2, 3, 4, 5, 6, 7}"
  by auto

text \<open>The clamping of \<open>wireguard.c\<close>, used by the client side of the library.\<close>

definition clamp_key :: "bytes \<Rightarrow> bytes" where
  "clamp_key z = (let z = z[31 := (z ! 31 AND 127) OR 64] in z[0 := z ! 0 AND 248])"

section \<open>An instance of the services\<close>

text \<open>
  Concrete services for the closed theorems: the kernel state is the list of requests it got,
  the base64 coder is that of the WireGuard library, a password is its own hash, and a few
  request bodies stand for their parsed values.\<close>

definition url_char :: "char \<Rightarrow> char" where
  "url_char c = (if c = CHR ''+'' then CHR ''-'' else if c = CHR ''/'' then CHR ''_'' else c)"

definition demo_parse :: "string \<Rightarrow> json option" where
  "demo_parse s =
     (if s = ''login'' then Some (JObject [(''username'', JString ''ann''), (''password'', JString ''secret'')])
      else if s = ''wrong'' then Some (JObject [(''username'', JString ''ann''), (''password'', JString ''guess'')])
      else if s = ''number'' then Some (JObject [(''username'', JString ''ann''), (''password'', JNumber 1)])
      else if s = [] then None
      else Some (JObject [(''session_token'', JString s)]))"

definition demo_env :: "wg_device list env" where
  "demo_env = \<lparr>sys_time = int, randombytes = (\<lambda>n l. replicate l (of_nat n)),
     pwhash_str_verify = (=), pwhash_str = (\<lambda>pw ops mem. if length pw < 128 then Some pw else None), scalarmult_base = Some,
     bin2base64 = wg_key_to_base64, bin2base64url = (\<lambda>k. map url_char (take 43 (wg_key_to_base64 k))),
     base642bin = (\<lambda>s n. key_of_text s), stale = zero_key, sql = (\<lambda>n. SqlOk), scan = id,
     json_parse = demo_parse, json_print = (\<lambda>j. Some ''json''), inet_ntop6 = (\<lambda>b. []),
     wg_set_device = (\<lambda>d k. (0, d # k)), wg_get_device = (\<lambda>n k. None),
     wg_add_device = (\<lambda>n k. (0, k)), run_cmd = (\<lambda>a k. (0, k))\<rparr>"

lemma services_ok_demo: "services_ok demo_env"
  by (simp add: services_ok_def demo_env_def zero_key_def wgkeys.dec_enc from_to_base64 [THEN conjunct1])

section \<open>Generated keys\<close>

lemma keypair_length:
  assumes "services_ok E" "auth_generate_keypair E n = (rc, pub, priv)"
  shows "length pub = WG_KEY_LEN \<and> length priv = WG_KEY_LEN"
proof -
  let ?k = "clamp (randombytes E n WG_KEY_LEN)"
  have k: "length ?k = WG_KEY_LEN" using assms(1) by (simp add: services_ok_def)
  show ?thesis
  proof (cases "scalarmult_base E ?k")
    case None
    then show ?thesis
      using assms k by (auto simp: auth_generate_keypair_def services_ok_def Let_def)
  next
    case (Some p)
    then have "length p = WG_KEY_LEN" using k assms(1) unfolding services_ok_def by blast
    then show ?thesis using assms(2) k Some by (auto simp: auth_generate_keypair_def Let_def)
  qed
qed

text \<open>
  A generated key pair has a private key of 32 bytes in the form RFC 7748 asks for (the low
  three bits clear, bit 254 set, bit 255 clear), the same clamping as that of the WireGuard
  library, and a public key of 32 bytes.\<close>

lemma generated_keypair:
  assumes "services_ok E" "auth_generate_keypair E n = (rc, pub, priv)"
  shows "length pub = WG_KEY_LEN \<and> length priv = WG_KEY_LEN \<and>
    priv ! 0 AND 7 = 0 \<and> bit (priv ! 31) 6 \<and> \<not> bit (priv ! 31) 7 \<and>
    priv = clamp_key (randombytes E n WG_KEY_LEN)"
proof -
  have len: "length (randombytes E n WG_KEY_LEN) = 32"
    using assms(1) by (simp add: services_ok_def WG_KEY_LEN_def)
  have priv: "priv = clamp (randombytes E n WG_KEY_LEN)"
    using assms(2) by (simp add: auth_generate_keypair_def Let_def split: option.splits)
  have "(x AND 248) AND 7 = 0" for x :: u8
  proof -
    have "(x AND 248) AND 7 = x AND (248 AND 7)" by (simp only: and.assoc)
    then show ?thesis by simp
  qed
  moreover have "bit ((x AND 127) OR 64) 6" "\<not> bit ((x AND 127) OR 64) 7" for x :: u8
    by (simp_all add: bit_or_iff bit_and_iff)
  moreover have "clamp r = clamp_key r" if "length r = 32" for r
    using that by (simp add: clamp_def clamp_key_def Let_def list_update_swap)
  moreover have "length pub = WG_KEY_LEN"
    using assms by (rule keypair_length [THEN conjunct1])
  ultimately show ?thesis
    using len by (simp add: priv clamp_key_def Let_def WG_KEY_LEN_def)
qed

lemma generated_keypair_witness:
  "clamp (replicate 32 5) ! 0 AND 7 = 0 \<and> bit (clamp (replicate 32 5) ! 31) 6"
proof -
  have "auth_generate_keypair demo_env 5 = (0, clamp (replicate 32 5), clamp (replicate 32 5))"
    by (simp add: auth_generate_keypair_def demo_env_def WG_KEY_LEN_def Let_def)
  from generated_keypair [OF services_ok_demo this] show ?thesis by blast
qed

end
