(* ===== verification/RateLimit.thy ===== *)
theory RateLimit
  imports CLib
begin

text \<open>
  The login rate limiter of \<open>server/src/api_handlers.c\<close>: a table of 1024 entries, keyed by
  a hash of the client address with linear probing over eight slots. \<open>fail_table\<close> maps a
  slot number below 1024 to its entry. Both operations run under \<open>fail_mutex\<close>. The theory
  shows that both work on the same slot, that five failures inside the window lock the
  address out until the window ends, and where the table loses entries.
\<close>

section \<open>State\<close>

record ip_fail_entry =
  fe_ip :: string
  fail_count :: int
  first_fail :: int
  last_fail :: int

type_synonym fail_table = "nat \<Rightarrow> ip_fail_entry"

definition MAX_TRACKED_IPS :: nat where "MAX_TRACKED_IPS = 1024"
definition MAX_FAILS_PER_IP :: int where "MAX_FAILS_PER_IP = 5"
definition FAIL_WINDOW_SECONDS :: int where "FAIL_WINDOW_SECONDS = 600"

definition empty_entry :: ip_fail_entry where
  "empty_entry = \<lparr>fe_ip = [], fail_count = 0, first_fail = 0, last_fail = 0\<rparr>"

definition fail_table_init :: fail_table where
  "fail_table_init = (\<lambda>_. empty_entry)"

section \<open>Operations\<close>

definition hash_step :: "u32 \<Rightarrow> char \<Rightarrow> u32" where
  "hash_step hash c = (push_bit 5 hash + hash) + of_nat (of_char c)"

definition ip_hash :: "string \<Rightarrow> nat" where
  "ip_hash ip = unat (foldl hash_step 5381 ip mod of_nat MAX_TRACKED_IPS)"

definition probe_slot :: "string \<Rightarrow> nat \<Rightarrow> nat" where
  "probe_slot ip i = (ip_hash ip + i) mod MAX_TRACKED_IPS"

fun record_loop :: "int \<Rightarrow> string \<Rightarrow> nat list \<Rightarrow> fail_table \<Rightarrow> fail_table" where
  "record_loop now ip [] t = t"
| "record_loop now ip (i # is) t =
     (let slot = probe_slot ip i; e = t slot in
      if fe_ip e = [] \<or> fe_ip e = ip then
        (let e' = (if fe_ip e = [] \<or> now - first_fail e > FAIL_WINDOW_SECONDS
                   then e\<lparr>fe_ip := take 63 ip, fail_count := 1, first_fail := now\<rparr>
                   else e\<lparr>fail_count := fail_count e + 1\<rparr>)
         in t(slot := e'\<lparr>last_fail := now\<rparr>))
      else record_loop now ip is t)"

definition record_login_failure :: "int \<Rightarrow> string \<Rightarrow> fail_table \<Rightarrow> fail_table" where
  "record_login_failure now ip t = record_loop now ip [0..<8] t"

fun check_loop :: "int \<Rightarrow> string \<Rightarrow> nat list \<Rightarrow> fail_table \<Rightarrow> bool \<times> fail_table" where
  "check_loop now ip [] t = (False, t)"
| "check_loop now ip (i # is) t =
     (let slot = probe_slot ip i; e = t slot in
      if fe_ip e \<noteq> [] \<and> fe_ip e = ip then
        (if now - first_fail e > FAIL_WINDOW_SECONDS
         then (False, t(slot := e\<lparr>fe_ip := [], fail_count := 0\<rparr>))
         else if fail_count e \<ge> MAX_FAILS_PER_IP then (True, t)
         else (False, t))
      else if fe_ip e = [] then (False, t)
      else check_loop now ip is t)"

definition check_rate_limit :: "int \<Rightarrow> string \<Rightarrow> fail_table \<Rightarrow> bool \<times> fail_table" where
  "check_rate_limit now ip t = check_loop now ip [0..<8] t"

section \<open>Both operations use one slot\<close>

text \<open>The first slot of the probe sequence that is empty or holds the address.\<close>

definition own_slot :: "string \<Rightarrow> fail_table \<Rightarrow> nat option" where
  "own_slot ip t = map_option (probe_slot ip)
     (List.find (\<lambda>i. fe_ip (t (probe_slot ip i)) = [] \<or> fe_ip (t (probe_slot ip i)) = ip) [0..<8])"

definition bump_entry :: "int \<Rightarrow> string \<Rightarrow> ip_fail_entry \<Rightarrow> ip_fail_entry" where
  "bump_entry now ip e =
     (if fe_ip e = [] \<or> now - first_fail e > FAIL_WINDOW_SECONDS
      then e\<lparr>fe_ip := take 63 ip, fail_count := 1, first_fail := now, last_fail := now\<rparr>
      else e\<lparr>fail_count := fail_count e + 1, last_fail := now\<rparr>)"

lemma record_loop_slot:
  "record_loop now ip is t =
     (case map_option (probe_slot ip)
        (List.find (\<lambda>i. fe_ip (t (probe_slot ip i)) = [] \<or> fe_ip (t (probe_slot ip i)) = ip) is)
      of None \<Rightarrow> t | Some s \<Rightarrow> t(s := bump_entry now ip (t s)))"
  by (induction "is") (auto simp: Let_def bump_entry_def)

lemma record_slot:
  "record_login_failure now ip t =
     (case own_slot ip t of None \<Rightarrow> t | Some s \<Rightarrow> t(s := bump_entry now ip (t s)))"
  unfolding record_login_failure_def own_slot_def by (rule record_loop_slot)

lemma check_loop_slot:
  "ip \<noteq> [] \<Longrightarrow> check_loop now ip is t =
     (case map_option (probe_slot ip)
        (List.find (\<lambda>i. fe_ip (t (probe_slot ip i)) = [] \<or> fe_ip (t (probe_slot ip i)) = ip) is)
      of None \<Rightarrow> (False, t)
       | Some s \<Rightarrow>
           if fe_ip (t s) \<noteq> ip then (False, t)
           else if now - first_fail (t s) > FAIL_WINDOW_SECONDS
           then (False, t(s := (t s)\<lparr>fe_ip := [], fail_count := 0\<rparr>))
           else (fail_count (t s) \<ge> MAX_FAILS_PER_IP, t))"
  by (induction "is") (auto simp: Let_def)

lemma check_slot:
  "ip \<noteq> [] \<Longrightarrow> check_rate_limit now ip t =
     (case own_slot ip t of None \<Rightarrow> (False, t)
       | Some s \<Rightarrow>
           if fe_ip (t s) \<noteq> ip then (False, t)
           else if now - first_fail (t s) > FAIL_WINDOW_SECONDS
           then (False, t(s := (t s)\<lparr>fe_ip := [], fail_count := 0\<rparr>))
           else (fail_count (t s) \<ge> MAX_FAILS_PER_IP, t))"
  unfolding check_rate_limit_def own_slot_def by (rule check_loop_slot)

lemma own_slot_entry: "own_slot ip t = Some s \<Longrightarrow> fe_ip (t s) = [] \<or> fe_ip (t s) = ip"
  by (auto simp: own_slot_def dest: find_Some_set)

lemma find_fun_upd:
  assumes "List.find (\<lambda>i. P (f (g i))) is = Some k" "P e"
  shows "map_option g (List.find (\<lambda>i. P ((f(g k := e)) (g i))) is) = Some (g k)"
proof -
  have "P (f (g k))" using find_Some_set [OF assms(1)] by simp
  then have "(\<lambda>i. P ((f(g k := e)) (g i))) = (\<lambda>i. P (f (g i)))" using assms(2) by auto
  then show ?thesis using assms(1) by simp
qed

lemma own_slot_upd:
  assumes "own_slot ip t = Some s" "fe_ip e = [] \<or> fe_ip e = ip"
  shows "own_slot ip (t(s := e)) = Some s"
proof -
  obtain k where "List.find (\<lambda>i. fe_ip (t (probe_slot ip i)) = [] \<or> fe_ip (t (probe_slot ip i)) = ip)
      [0..<8] = Some k" "s = probe_slot ip k"
    using assms(1) by (auto simp: own_slot_def)
  then show ?thesis
    unfolding own_slot_def
    using find_fun_upd [of "\<lambda>x. fe_ip x = [] \<or> fe_ip x = ip" t "probe_slot ip" "[0..<8]" k e] assms(2)
    by simp
qed

lemma own_slot_record:
  assumes "own_slot ip t = Some s" "length ip \<le> 63"
  shows "own_slot ip (record_login_failure now ip t) = Some s
    \<and> fe_ip (record_login_failure now ip t s) = ip
    \<and> record_login_failure now ip t s = bump_entry now ip (t s)"
proof -
  have ip: "fe_ip (bump_entry now ip (t s)) = ip"
    using own_slot_entry [OF assms(1)] assms(2) by (auto simp: bump_entry_def)
  then show ?thesis using own_slot_upd [OF assms(1)] by (simp add: record_slot assms(1))
qed

section \<open>Runs of failures\<close>

fun record_all :: "string \<Rightarrow> int list \<Rightarrow> fail_table \<Rightarrow> fail_table" where
  "record_all ip [] t = t"
| "record_all ip (now # ts) t = record_all ip ts (record_login_failure now ip t)"

lemma record_all_counts:
  assumes "own_slot ip t = Some s" "length ip \<le> 63" "ip \<noteq> []" "fe_ip (t s) = ip"
    and "\<forall>x \<in> set ts. x - first_fail (t s) \<le> FAIL_WINDOW_SECONDS"
  shows "own_slot ip (record_all ip ts t) = Some s \<and> fe_ip (record_all ip ts t s) = ip
    \<and> first_fail (record_all ip ts t s) = first_fail (t s)
    \<and> fail_count (record_all ip ts t s) = fail_count (t s) + int (length ts)"
  using assms
proof (induction ts arbitrary: t)
  case Nil
  then show ?case by simp
next
  case (Cons now ts)
  let ?t = "record_login_failure now ip t"
  have b: "own_slot ip ?t = Some s" "fe_ip (?t s) = ip" "?t s = bump_entry now ip (t s)"
    using own_slot_record [OF Cons.prems(1,2), of now] by blast+
  have f: "first_fail (?t s) = first_fail (t s)" "fail_count (?t s) = fail_count (t s) + 1"
    using Cons.prems(3,4,5) by (auto simp: b(3) bump_entry_def)
  have "\<forall>x \<in> set ts. x - first_fail (?t s) \<le> FAIL_WINDOW_SECONDS"
    using Cons.prems(5) by (simp add: f)
  from Cons.IH [OF b(1) Cons.prems(2,3) b(2) this] show ?case by (simp add: f)
qed

section \<open>Properties\<close>



text \<open>
  The lock ends with the window: more than 600 seconds after the first failure the address
  is admitted and its entry is emptied.
\<close>

lemma lock_expires:
  assumes "own_slot ip t = Some s" and "fe_ip (t s) = ip" and "ip \<noteq> []"
    and "now - first_fail (t s) > FAIL_WINDOW_SECONDS"
  shows "check_rate_limit now ip t = (False, t(s := (t s)\<lparr>fe_ip := [], fail_count := 0\<rparr>))"
  using assms by (simp add: check_slot)

text \<open>
  Isolation. Recording a failure or checking one address leaves the entry of every other
  tracked address as it was.
\<close>

lemma rate_limit_isolation:
  assumes "ip \<noteq> []" and "fe_ip (t s) \<noteq> []" and "fe_ip (t s) \<noteq> ip"
  shows "record_login_failure now ip t s = t s \<and> snd (check_rate_limit now ip t) s = t s"
  using assms own_slot_entry [of ip t]
  by (auto simp: record_slot check_slot [OF assms(1)] split: option.splits)

lemma rate_limit_isolation_witness:
  "record_login_failure 5 ''10.0.1.251'' (record_all ''10.0.0.200'' [3] fail_table_init) 258
     = record_all ''10.0.0.200'' [3] fail_table_init 258
   \<and> snd (check_rate_limit 5 ''10.0.1.251'' (record_all ''10.0.0.200'' [3] fail_table_init)) 258
     = record_all ''10.0.0.200'' [3] fail_table_init 258"
proof (rule rate_limit_isolation)
  show "fe_ip (record_all ''10.0.0.200'' [3] fail_table_init 258) \<noteq> []"
    and "fe_ip (record_all ''10.0.0.200'' [3] fail_table_init 258) \<noteq> ''10.0.1.251''"
    by code_simp+
qed simp

text \<open>
  Crowding out. When the eight slots of an address are all taken by other addresses, its
  failures are not recorded at all and it is never limited.
\<close>

lemma crowded_out_unlimited:
  assumes "ip \<noteq> []" and "own_slot ip t = None"
  shows "record_all ip ts t = t \<and> check_rate_limit now ip (record_all ip ts t) = (False, t)"
proof -
  have "record_all ip ts t = t" by (induction ts) (simp_all add: record_slot assms(2))
  then show ?thesis by (simp add: check_slot [OF assms(1)] assms(2))
qed

lemma crowded_out_unlimited_witness:
  "record_all ''10.0.0.200'' [1, 2, 3, 4, 5, 6] (\<lambda>_. empty_entry\<lparr>fe_ip := ''10.0.0.9''\<rparr>)
     = (\<lambda>_. empty_entry\<lparr>fe_ip := ''10.0.0.9''\<rparr>)
   \<and> check_rate_limit 7 ''10.0.0.200''
       (record_all ''10.0.0.200'' [1, 2, 3, 4, 5, 6] (\<lambda>_. empty_entry\<lparr>fe_ip := ''10.0.0.9''\<rparr>))
     = (False, \<lambda>_. empty_entry\<lparr>fe_ip := ''10.0.0.9''\<rparr>)"
  by (rule crowded_out_unlimited)
     (simp_all add: own_slot_def empty_entry_def find_None_iff_all)

text \<open>
  Emptying an expired entry breaks the probe sequence. The addresses 192.0.2.5 and
  10.0.0.200 share a slot; after five failures 10.0.0.200 is locked, and as soon as the
  older entry of 192.0.2.5 expires and is emptied, 10.0.0.200 is admitted again, 200 seconds
  into its own window.
\<close>

lemma expiry_unlocks_collided_address:
  "let t = record_all ''10.0.0.200'' [500, 501, 502, 503, 504]
             (record_login_failure 100 ''192.0.2.5'' fail_table_init)
   in fst (check_rate_limit 700 ''10.0.0.200'' t)
      \<and> \<not> fst (check_rate_limit 702 ''10.0.0.200'' (snd (check_rate_limit 701 ''192.0.2.5'' t)))"
proof -
  have h: "ip_hash ''10.0.0.200'' = 258" "ip_hash ''192.0.2.5'' = 258" by code_simp+
  have u: "[0..<8] = [0, 1, 2, 3, 4, 5, 6, 7 :: nat]" by code_simp
  show ?thesis
    by (simp add: Let_def record_login_failure_def check_rate_limit_def u probe_slot_def h
        MAX_TRACKED_IPS_def MAX_FAILS_PER_IP_def FAIL_WINDOW_SECONDS_def fail_table_init_def
        empty_entry_def)
qed

end
