(* ===== verification/Handlers.thy ===== *)
theory Handlers
  imports Auth RateLimit
begin

text \<open>
  The HTTP handlers of \<open>server/src/api_handlers.c\<close>. The state of the server is the record
  \<open>world\<close>: the configuration, the login failure table, the address pool, the database, the
  kernel, the cached server key, and three counters that say how many calls of \<open>time\<close>,
  SQL statements and random requests have been made. A handler takes the state to the answer
  and the new state, \<open>None\<close> being undefined behaviour. Releasing memory and wiping buffers
  has no effect here. libmicrohttpd calls a handler from one thread; the reaper interleaves
  with it (theory \<open>Server\<close>).
\<close>

section \<open>State\<close>

record 'k world =
  config :: server_config
  fails :: fail_table
  pool :: ip_pool
  store :: db
  kernel :: 'k
  server_pubkey :: bytes
  server_pubkey_loaded :: bool
  clock :: nat
  stmts :: nat
  rnd :: nat

text \<open>One call of \<open>time\<close>, of SQLite, of the random generator.\<close>

definition time_now :: "'k env \<Rightarrow> 'k world \<Rightarrow> int \<times> 'k world" where
  "time_now E w = (sys_time E (clock w), w\<lparr>clock := Suc (clock w)\<rparr>)"

definition next_sql :: "'k env \<Rightarrow> 'k world \<Rightarrow> sql_outcome \<times> 'k world" where
  "next_sql E w = (sql E (stmts w), w\<lparr>stmts := Suc (stmts w)\<rparr>)"

definition next_rnd :: "'k world \<Rightarrow> nat \<times> 'k world" where
  "next_rnd w = (rnd w, w\<lparr>rnd := Suc (rnd w)\<rparr>)"

text \<open>A statement with a time parameter: the clock is read once the statement is prepared.\<close>

definition timed_sql :: "'k env \<Rightarrow> 'k world \<Rightarrow> sql_outcome \<times> int \<times> 'k world" where
  "timed_sql E w =
     (let (out, w) = next_sql E w in
      if out = SqlPrepareError then (out, 0, w)
      else let (now, w) = time_now E w in (out, now, w))"

section \<open>The calls of the handlers\<close>

definition rate_limited :: "'k env \<Rightarrow> string \<Rightarrow> 'k world \<Rightarrow> bool \<times> 'k world" where
  "rate_limited E ip w =
     (let (now, w) = time_now E w; (b, t) = check_rate_limit now ip (fails w) in (b, w\<lparr>fails := t\<rparr>))"

definition login_failed :: "'k env \<Rightarrow> string \<Rightarrow> 'k world \<Rightarrow> 'k world" where
  "login_failed E ip w =
     (let (now, w) = time_now E w in w\<lparr>fails := record_login_failure now ip (fails w)\<rparr>)"

definition find_account :: "'k env \<Rightarrow> string option \<Rightarrow> 'k world \<Rightarrow> account option \<times> 'k world" where
  "find_account E user w =
     (let (out, w) = next_sql E w in (db_get_account_by_username out user (store w), w))"

definition find_session :: "'k env \<Rightarrow> string \<Rightarrow> 'k world \<Rightarrow> session option \<times> 'k world" where
  "find_session E token w =
     (let (out, w) = next_sql E w in (db_get_session_by_token out token (store w), w))"

definition count_active :: "'k env \<Rightarrow> int \<Rightarrow> 'k world \<Rightarrow> int \<times> 'k world" where
  "count_active E acc w =
     (let (out, now, w) = timed_sql E w in (db_count_active_sessions out now acc (store w), w))"

definition create_session :: "'k env \<Rightarrow> int \<Rightarrow> string \<Rightarrow> string \<Rightarrow> string \<Rightarrow> int \<Rightarrow> 'k world \<Rightarrow> int \<times> 'k world" where
  "create_session E acc pubkey ip token expires w =
     (let (out, now, w) = timed_sql E w;
          (rc, d) = db_create_session out now acc pubkey ip token expires (store w)
      in (rc, w\<lparr>store := d\<rparr>))"

definition revoke_session :: "'k env \<Rightarrow> int \<Rightarrow> 'k world \<Rightarrow> 'k world" where
  "revoke_session E sid w =
     (let (out, w) = next_sql E w in w\<lparr>store := snd (db_revoke_session out sid (store w))\<rparr>)"

definition update_expiry :: "'k env \<Rightarrow> int \<Rightarrow> int \<Rightarrow> 'k world \<Rightarrow> 'k world" where
  "update_expiry E sid expires w =
     (let (out, w) = next_sql E w in w\<lparr>store := snd (db_update_session_expiry out sid expires (store w))\<rparr>)"

definition log_audit :: "'k env \<Rightarrow> int \<Rightarrow> string \<Rightarrow> string \<Rightarrow> 'k world \<Rightarrow> 'k world" where
  "log_audit E acc act det w =
     (let (out, now, w) = timed_sql E w in w\<lparr>store := snd (db_log_audit out now acc act det (store w))\<rparr>)"

definition allocate_ip :: "'k world \<Rightarrow> (string option \<times> 'k world) ub" where
  "allocate_ip w = map_option (\<lambda>(ip, p). (ip, w\<lparr>pool := p\<rparr>)) (ip_pool_allocate 32 (pool w))"

definition release_ip :: "string \<Rightarrow> 'k world \<Rightarrow> 'k world ub" where
  "release_ip ip w = map_option (\<lambda>(_, p). w\<lparr>pool := p\<rparr>) (ip_pool_release ip (pool w))"

definition add_peer :: "'k env \<Rightarrow> bytes \<Rightarrow> bytes \<Rightarrow> string \<Rightarrow> 'k world \<Rightarrow> int \<times> 'k world" where
  "add_peer E pub psk ip w =
     (let (rc, k) = wgctl_add_peer (wg_set_device E) (wg_interface (config w)) pub (Some psk) ip (kernel w)
      in (rc, w\<lparr>kernel := k\<rparr>))"

definition remove_peer :: "'k env \<Rightarrow> bytes \<Rightarrow> 'k world \<Rightarrow> 'k world" where
  "remove_peer E pub w =
     w\<lparr>kernel := snd (wgctl_remove_peer (wg_set_device E) (wg_interface (config w)) pub (kernel w))\<rparr>"

section \<open>Answers\<close>

record response =
  status :: nat
  headers :: "(string \<times> string) list"
  body :: string

text \<open>What a call returns to libmicrohttpd; \<open>Queued r\<close> is its answer to queueing \<open>r\<close>.\<close>

datatype mhd_result = MHD_YES | MHD_NO | Queued response

definition send_json_response :: "'k env \<Rightarrow> json \<Rightarrow> nat \<Rightarrow> mhd_result" where
  "send_json_response E json status_code =
     (case json_print E json of
        None \<Rightarrow> Queued \<lparr>status = 500, headers = [(''Content-Type'', ''application/json'')],
                  body = [CHR 0x7B, CHR 0x22] @ ''error'' @ [CHR 0x22, CHR '':'', CHR 0x22] @ ''internal error'' @
                    [CHR 0x22, CHR 0x7D]\<rparr>
      | Some resp_str \<Rightarrow> Queued \<lparr>status = status_code,
          headers = [(''Content-Type'', ''application/json''), (''Cache-Control'', ''no-store''),
                     (''X-Content-Type-Options'', ''nosniff'')], body = resp_str\<rparr>)"

definition send_error :: "'k env \<Rightarrow> nat \<Rightarrow> string \<Rightarrow> mhd_result" where
  "send_error E code msg =
     send_json_response E (cJSON_AddItem ''error'' (JString msg) cJSON_CreateObject) code"

datatype client_addr = NoAddr | Inet u32 | Inet6 bytes | OtherFamily

definition get_client_ip :: "'k env \<Rightarrow> client_addr \<Rightarrow> string" where
  "get_client_ip E ci =
     (case ci of Inet a \<Rightarrow> inet_ntop4 a | Inet6 a \<Rightarrow> inet_ntop6 E a | _ \<Rightarrow> ''unknown'')"

section \<open>POST /login\<close>

definition login_response :: "'k env \<Rightarrow> 'k world \<Rightarrow> string \<Rightarrow> bytes \<Rightarrow> bytes \<Rightarrow> string \<Rightarrow> int \<Rightarrow> json" where
  "login_response E w token priv psk ip expires = JObject
     [(''session_token'', JString token),
      (''client_private_key'', JString (bin2base64 E priv)),
      (''client_address'', JString ip),
      (''server_public_key'', JString (if server_pubkey_loaded w then bin2base64 E (server_pubkey w) else ''<UNKNOWN>'')),
      (''preshared_key'', JString (bin2base64 E psk)),
      (''endpoint'', JString (endpoint_public_addr (config w))),
      (''allowed_ips'', JString (ip_pool_cidr (config w))),
      (''dns'', JString (dns (config w))),
      (''expires_at'', JNumber expires)]"

text \<open>The part after the password check, for the account with identifier \<open>acc\<close>.\<close>

definition login_session :: "'k env \<Rightarrow> int \<Rightarrow> 'k world \<Rightarrow> (mhd_result \<times> 'k world) ub" where
  "login_session E acc w =
     (let (active_count, w) = count_active E acc w in
      if active_count \<ge> 5 then Some (send_error E 429 ''Too many active sessions'', w)
      else
        let (i, w) = next_rnd w; (_, pub, priv) = auth_generate_keypair E i;
            (j, w) = next_rnd w; psk = auth_generate_psk E j
        in do {
          (got, w) \<leftarrow> allocate_ip w;
          case got of
            None \<Rightarrow> Some (send_error E 503 ''IP pool exhausted'', w)
          | Some ip \<Rightarrow>
              let (rc, w) = add_peer E pub psk ip w in
              if rc \<noteq> 0 then do {
                w \<leftarrow> release_ip ip w;
                Some (send_error E 500 ''Failed to add peer to wg interface'', w)
              }
              else
                let (l, w) = next_rnd w; token = auth_generate_token E l;
                    (now, w) = time_now E w;
                    expires = now + session_default_ttl_seconds (config w);
                    (rc, w) = create_session E acc (bin2base64 E pub) ip token expires w
                in if rc \<noteq> 0 then do {
                     w \<leftarrow> release_ip ip (remove_peer E pub w);
                     Some (send_error E 500 ''Failed to create session in DB'', w)
                   }
                   else
                     let w = log_audit E acc ''login'' ip w
                     in Some (send_json_response E (login_response E w token priv psk ip expires) 200, w)
        })"

definition handle_login :: "'k env \<Rightarrow> client_addr \<Rightarrow> string \<Rightarrow> 'k world \<Rightarrow> (mhd_result \<times> 'k world) ub" where
  "handle_login E ci req w =
     (let client_ip = get_client_ip E ci; (limited, w) = rate_limited E client_ip w in
      if limited then Some (send_error E 429 ''Too many failed attempts, try again later'', w)
      else case json_parse E req of
        None \<Rightarrow> Some (MHD_NO, w)
      | Some json \<Rightarrow>
        (case (cJSON_GetObjectItem json ''username'', cJSON_GetObjectItem json ''password'') of
          (Some c_user, Some c_pass) \<Rightarrow>
            let (found, w) = find_account E (valuestring c_user) w in
            (case found of
               None \<Rightarrow> Some (send_error E 401 ''Invalid credentials'', login_failed E client_ip w)
             | Some acc \<Rightarrow>
                 if disabled acc \<noteq> 0
                 then Some (send_error E 401 ''Invalid credentials'', login_failed E client_ip w)
                 else do {
                   v \<leftarrow> auth_verify_password E (password_hash acc) (valuestring c_pass);
                   if v \<noteq> 0
                   then Some (send_error E 401 ''Invalid credentials'', login_failed E client_ip w)
                   else login_session E (acc_id acc) w
                 })
        | _ \<Rightarrow> Some (send_error E 400 ''Missing username or password'', w)))"

section \<open>POST /logout\<close>

definition bad_token_length :: "string \<Rightarrow> bool" where
  "bad_token_length token \<longleftrightarrow> length token < 20 \<or> length token > 128"

definition handle_logout :: "'k env \<Rightarrow> string \<Rightarrow> 'k world \<Rightarrow> (mhd_result \<times> 'k world) ub" where
  "handle_logout E req w =
     (case json_parse E req of
        None \<Rightarrow> Some (send_error E 400 ''Invalid JSON'', w)
      | Some json \<Rightarrow>
        (case cJSON_GetObjectItem json ''session_token'' of
           Some (JString token) \<Rightarrow>
             if bad_token_length token then Some (send_error E 400 ''Invalid token format'', w)
             else let (found, w) = find_session E token w in
               (case found of
                  None \<Rightarrow> Some (send_error E 404 ''Session not found'', w)
                | Some sess \<Rightarrow>
                    if revoked sess \<noteq> 0 then Some (send_error E 409 ''Session already revoked'', w)
                    else let (now, w) = time_now E w in
                      if expires_at sess < now then Some (send_error E 401 ''Session expired'', w)
                      else case decode_key (base642bin E) (device_pubkey sess) of
                        None \<Rightarrow> Some (send_error E 500 ''Invalid device pubkey in session'', w)
                      | Some dev_pubkey \<Rightarrow> do {
                          w \<leftarrow> release_ip (allowed_ip sess) (remove_peer E dev_pubkey w);
                          let w = log_audit E (account_id sess) ''logout'' (allowed_ip sess)
                                    (revoke_session E (sess_id sess) w);
                          Some (send_json_response E
                            (cJSON_AddItem ''status'' (JString ''ok'') cJSON_CreateObject) 200, w)
                        })
         | _ \<Rightarrow> Some (send_error E 400 ''Missing session_token'', w)))"

section \<open>POST /renew\<close>

definition handle_renew :: "'k env \<Rightarrow> string \<Rightarrow> 'k world \<Rightarrow> (mhd_result \<times> 'k world) ub" where
  "handle_renew E req w =
     (case json_parse E req of
        None \<Rightarrow> Some (send_error E 400 ''Invalid JSON'', w)
      | Some json \<Rightarrow>
        (case cJSON_GetObjectItem json ''session_token'' of
           Some (JString token) \<Rightarrow>
             if bad_token_length token then Some (send_error E 400 ''Invalid token format'', w)
             else let (found, w) = find_session E token w in
               (case found of
                  None \<Rightarrow> Some (send_error E 404 ''Session not found'', w)
                | Some sess \<Rightarrow>
                    if revoked sess \<noteq> 0 then Some (send_error E 403 ''Session revoked'', w)
                    else let (now, w) = time_now E w in
                      if expires_at sess + session_renew_grace_seconds (config w) < now
                      then Some (send_error E 403 ''Session expired beyond grace period'', w)
                      else
                        let new_expires = now + session_default_ttl_seconds (config w);
                            w = log_audit E (account_id sess) ''renew'' (allowed_ip sess)
                                  (update_expiry E (sess_id sess) new_expires w)
                        in Some (send_json_response E
                             (cJSON_AddItem ''expires_at'' (JNumber new_expires)
                               (cJSON_AddItem ''status'' (JString ''ok'') cJSON_CreateObject)) 200, w))
         | _ \<Rightarrow> Some (send_error E 400 ''Missing session_token'', w)))"

section \<open>GET /status\<close>

definition status_response :: "session \<Rightarrow> u64 \<times> u64 \<times> int \<Rightarrow> json" where
  "status_response sess = (\<lambda>(rx, tx, handshake). JObject
     [(''status'', JString ''active''), (''allowed_ip'', JString (allowed_ip sess)),
      (''expires_at'', JNumber (expires_at sess)), (''rx_bytes'', JNumber (uint rx)),
      (''tx_bytes'', JNumber (uint tx)), (''last_handshake_time'', JNumber handshake)])"

definition peer_stats :: "'k env \<Rightarrow> session \<Rightarrow> 'k world \<Rightarrow> u64 \<times> u64 \<times> int" where
  "peer_stats E sess w =
     (case decode_key (base642bin E) (device_pubkey sess) of
        None \<Rightarrow> (0, 0, 0)
      | Some k \<Rightarrow> (case wgctl_get_peer_stats (wg_get_device E) (wg_interface (config w)) k (kernel w) of
          None \<Rightarrow> (0, 0, 0) | Some st \<Rightarrow> st))"

text \<open>\<open>auth\<close> is the Authorization header.\<close>

definition handle_status :: "'k env \<Rightarrow> string option \<Rightarrow> 'k world \<Rightarrow> mhd_result \<times> 'k world" where
  "handle_status E auth w =
     (case auth of
        Some a \<Rightarrow>
          if take 7 a = ''Bearer '' \<and> drop 7 a \<noteq> [] then
            let token = drop 7 a in
            if bad_token_length token then (send_error E 400 ''Invalid token format'', w)
            else let (found, w) = find_session E token w in
              (case found of
                 None \<Rightarrow> (send_error E 404 ''Session not found'', w)
               | Some sess \<Rightarrow>
                   if revoked sess \<noteq> 0 then (send_error E 403 ''Session revoked'', w)
                   else let (now, w) = time_now E w in
                     if expires_at sess < now then (send_error E 403 ''Session expired'', w)
                     else (send_json_response E (status_response sess (peer_stats E sess w)) 200, w))
          else (send_error E 401 ''Missing token'', w)
      | None \<Rightarrow> (send_error E 401 ''Missing token'', w))"

section \<open>Routing\<close>

text \<open>
  The per-request record \<open>connection_info\<close> holds the body received so far, \<open>None\<close> when
  \<open>data\<close> is NULL; its \<open>size\<close> is the length of the body. \<open>upload\<close> is the piece of the body
  delivered with this call. The results are the answer, the per-request pointer, the number of
  bytes left unprocessed, and the state; \<open>alloc\<close> tells whether \<open>calloc\<close> or \<open>realloc\<close>
  succeeds. The handlers read the body as a C string.\<close>

definition MAX_BODY_SIZE :: nat where "MAX_BODY_SIZE = 4096"

record connection =
  conn_addr :: client_addr
  conn_authorization :: "string option"

definition body_text :: "string option \<Rightarrow> string" where
  "body_text info = (case info of None \<Rightarrow> [] | Some d \<Rightarrow> cstr d)"

definition body_size :: "string option \<Rightarrow> nat" where
  "body_size info = (case info of None \<Rightarrow> 0 | Some d \<Rightarrow> length d)"

definition route :: "'k env \<Rightarrow> connection \<Rightarrow> string \<Rightarrow> string \<Rightarrow> string option \<Rightarrow> 'k world \<Rightarrow> (mhd_result \<times> 'k world) ub" where
  "route E conn url verb info w =
     (if verb = ''POST'' \<and> url = ''/login'' then handle_login E (conn_addr conn) (body_text info) w
      else if verb = ''POST'' \<and> url = ''/logout'' then handle_logout E (body_text info) w
      else if verb = ''POST'' \<and> url = ''/renew'' then handle_renew E (body_text info) w
      else if verb = ''GET'' \<and> url = ''/status'' then Some (handle_status E (conn_authorization conn) w)
      else Some (send_error E 404 ''Not found'', w))"

definition api_router ::
  "'k env \<Rightarrow> bool \<Rightarrow> connection \<Rightarrow> string \<Rightarrow> string \<Rightarrow> string \<Rightarrow> string option option \<Rightarrow> 'k world \<Rightarrow>
   (mhd_result \<times> string option option \<times> nat \<times> 'k world) ub" where
  "api_router E alloc conn url verb upload con_cls w =
     (case con_cls of
        None \<Rightarrow> Some (MHD_YES, if alloc then Some None else None, length upload, w)
      | Some info \<Rightarrow>
          if upload \<noteq> [] then
            if body_size info + length upload > MAX_BODY_SIZE
            then Some (send_error E 413 ''Request body too large'', Some info, 0, w)
            else if \<not> alloc then Some (MHD_YES, Some info, 0, w)
            else Some (MHD_YES, Some (Some (case info of None \<Rightarrow> upload | Some d \<Rightarrow> d @ upload)), 0, w)
          else map_option (\<lambda>(r, w). (r, Some info, 0, w)) (route E conn url verb info w))"

section \<open>Start and stop\<close>

definition api_cache_server_pubkey :: "'k env \<Rightarrow> 'k world \<Rightarrow> 'k world" where
  "api_cache_server_pubkey E w =
     (case wgctl_get_server_pubkey (wg_get_device E) (wg_interface (config w)) (kernel w) of
        Some k \<Rightarrow> w\<lparr>server_pubkey := k, server_pubkey_loaded := True\<rparr>
      | None \<Rightarrow> w)"

text \<open>A file that cannot be opened is \<open>None\<close>; \<open>alloc\<close> tells whether \<open>malloc\<close> succeeds.\<close>

definition read_file_to_string :: "bool \<Rightarrow> string option \<Rightarrow> string option" where
  "read_file_to_string alloc file =
     (case file of None \<Rightarrow> None
      | Some text \<Rightarrow> if length text > 1024 * 1024 then None else if \<not> alloc then None else Some (cstr text))"

text \<open>
  How the daemon runs: on a port, with the PEM texts of key and certificate or in plain HTTP.
  \<open>files\<close> is the file system, \<open>start\<close> says whether \<open>MHD_start_daemon\<close> succeeds.\<close>

record daemon =
  daemon_port :: int
  daemon_tls :: "(string \<times> string) option"

definition api_start ::
  "'k env \<Rightarrow> bool \<Rightarrow> (string \<Rightarrow> string option) \<Rightarrow> (daemon \<Rightarrow> bool) \<Rightarrow> 'k world \<Rightarrow> int \<times> daemon option \<times> 'k world" where
  "api_start E alloc files start w =
     (let w = api_cache_server_pubkey E w; cfg = config w;
          (cert, key) = (if tls_cert cfg \<noteq> [] \<and> tls_key cfg \<noteq> []
            then (read_file_to_string alloc (files (tls_cert cfg)), read_file_to_string alloc (files (tls_key cfg)))
            else (None, None));
          tls = (case (cert, key) of (Some c, Some k) \<Rightarrow> Some (k, c) | _ \<Rightarrow> None);
          d = \<lparr>daemon_port = api_listen_port cfg, daemon_tls = tls\<rparr>
      in if start d then (0, Some d, w) else (-1, None, w))"

lemmas call_defs = time_now_def next_sql_def next_rnd_def timed_sql_def rate_limited_def login_failed_def
  find_account_def find_session_def count_active_def create_session_def revoke_session_def
  update_expiry_def log_audit_def allocate_ip_def release_ip_def add_peer_def remove_peer_def

end
