(* ===== verification/Sessions.thy ===== *)
theory Sessions
  imports Handlers
begin

text \<open>
  What the handlers keep: the invariant of the server state (the pool and the tables are well
  formed, and the addresses of the sessions that are not revoked are leased from the pool and
  pairwise different), the absence of undefined behaviour, and the conditions under which a
  request opens, closes or extends a session.
\<close>

section \<open>The invariant\<close>

definition world_ok :: "'k world \<Rightarrow> bool" where
  "world_ok w \<longleftrightarrow> pool_ok (pool w) \<and> db_ok (store w) \<and> book.consistent (pool w) (store w)"

text \<open>What no request changes, and time that only advances.\<close>

definition world_mono :: "'k world \<Rightarrow> 'k world \<Rightarrow> bool" where
  "world_mono w w' \<longleftrightarrow> config w' = config w \<and> clock w \<le> clock w'"

lemma alloc_length: "pool_ok p \<Longrightarrow> ip_pool_allocate 32 p = Some (Some ip, p') \<Longrightarrow> length ip \<le> 31"
  by (drule (1) pool_alloc_fresh)
    (auto simp: held_ips_def intro: order_trans [OF length_ip_string])

lemma world_ok_distinct: "world_ok w \<Longrightarrow> distinct (live_ips (store w))"
  by (simp add: world_ok_def book.consistent_def pool.leased_def)

lemma world_okI:
  assumes "world_ok w" "pool w' = pool w" "db_ok (store w')" "live_ips (store w') = live_ips (store w)"
  shows "world_ok w'"
  using assms book.consistent_frame [of "pool w" "store w" "store w'"] by (simp add: world_ok_def)

lemma world_ok_frame: "world_ok w \<Longrightarrow> pool w' = pool w \<Longrightarrow> store w' = store w \<Longrightarrow> world_ok w'"
  by (simp add: world_ok_def)

text \<open>The calls that leave pool and sessions alone.\<close>

definition quiet :: "'k world \<Rightarrow> 'k world \<Rightarrow> bool" where
  "quiet w w' \<longleftrightarrow> pool w' = pool w \<and> store w' = store w \<and> config w' = config w \<and> clock w \<le> clock w'"

lemma quiet_refl [simp]: "quiet w w"
  by (simp add: quiet_def)

lemma quiet_trans: "quiet w w1 \<Longrightarrow> quiet w1 w2 \<Longrightarrow> quiet w w2"
  by (simp add: quiet_def)

lemma quiet_ok: "quiet w w' \<Longrightarrow> world_ok w \<Longrightarrow> world_ok w'"
  by (simp add: quiet_def world_ok_def)

lemma quiet_calls [frame_simps]:
  "time_now E w = (t, w') \<Longrightarrow> quiet w w'"
  "rate_limited E ip w = (b, w') \<Longrightarrow> quiet w w'"
  "quiet w (login_failed E ip w)"
  "find_account E user w = (a, w') \<Longrightarrow> quiet w w'"
  "find_session E token w = (s, w') \<Longrightarrow> quiet w w'"
  "count_active E acc w = (n, w') \<Longrightarrow> quiet w w'"
  "next_rnd w = (i, w') \<Longrightarrow> quiet w w'"
  "add_peer E pub psk ip w = (rc, w') \<Longrightarrow> quiet w w'"
  "quiet w (remove_peer E pub w)"
  by (auto simp: quiet_def call_defs Let_def split: prod.splits if_splits)

lemma log_audit_frame [frame_simps]:
  "pool (log_audit E acc act det w) = pool w" "config (log_audit E acc act det w) = config w"
  "sessions (store (log_audit E acc act det w)) = sessions (store w)"
  by (auto simp: call_defs Let_def sessions_log split: prod.splits if_splits)

lemma log_audit_clock: "clock w \<le> clock (log_audit E acc act det w)"
  by (auto simp: call_defs Let_def split: prod.splits if_splits)

lemma log_audit_ok: "world_ok w \<Longrightarrow> world_ok (log_audit E acc act det w)"
proof (rule world_okI)
  assume "world_ok w"
  then show "db_ok (store (log_audit E acc act det w))"
    by (auto simp: world_ok_def call_defs Let_def intro: db_ok_log split: prod.splits if_splits)
qed (simp_all add: frame_simps live_ips_def)

lemma allocate_cases:
  assumes "world_ok w"
  obtains (full) w' where "allocate_ip w = Some (None, w')" "world_ok w'" "quiet w (w'\<lparr>pool := pool w\<rparr>)"
  | (got) ip p' where "allocate_ip w = Some (Some ip, w\<lparr>pool := p'\<rparr>)"
      "ip_pool_allocate 32 (pool w) = Some (Some ip, p')" "pool_ok p'" "length ip \<le> 31"
proof -
  from assms have ok: "pool_ok (pool w)" by (simp add: world_ok_def)
  then obtain r p' where r: "ip_pool_allocate 32 (pool w) = Some (r, p')" "pool_ok p'"
    using pool_alloc_total by blast
  show thesis
  proof (cases r)
    case None
    then have "world_ok (w\<lparr>pool := p'\<rparr>)"
      using assms r book.no_lease [of "pool w" "store w" p'] by (simp add: world_ok_def)
    then show thesis using r None by (intro full) (auto simp: allocate_ip_def quiet_def)
  next
    case (Some ip)
    then show thesis using r alloc_length [OF ok] by (intro got) (auto simp: allocate_ip_def)
  qed
qed

text \<open>Returning an address that was just allocated, after calls that left pool and tables alone.\<close>

lemma release_undo:
  assumes "world_ok w" "ip_pool_allocate 32 (pool w) = Some (Some ip, p')" "quiet (w\<lparr>pool := p'\<rparr>) w1"
  obtains w2 where "release_ip ip w1 = Some w2" "world_ok w2" "store w2 = store w"
    "config w2 = config w" "clock w \<le> clock w2"
proof -
  have p': "pool_ok p'" using pool_alloc_total [of "pool w"] assms(1,2) by (auto simp: world_ok_def)
  then obtain r p2 where r: "ip_pool_release ip p' = Some (r, p2)" "pool_ok p2"
    using pool_release_total by blast
  have "book.consistent p2 (store w)"
    using assms(1,2) r(1) book.undo_lease [of "pool w" "store w" ip p' r p2] by (simp add: world_ok_def)
  then show thesis
    using assms r by (intro that [of "w1\<lparr>pool := p2\<rparr>"]) (auto simp: release_ip_def quiet_def world_ok_def)
qed

text \<open>The new row, when it is entered.\<close>

lemma create_session_cases:
  assumes "create_session E acc pub ip token expires w = (rc, w')"
  obtains (failed) "rc \<noteq> 0" "quiet w w'"
  | (entered) now s where "rc = 0" "pool w' = pool w" "config w' = config w" "clock w \<le> clock w'"
      "db_create_session SqlOk now acc pub ip token expires (store w) = (0, store w')"
      "sessions (store w') = sessions (store w) @ [s]" "account_id s = acc" "allowed_ip s = ip"
      "revoked s = 0" "expires_at s = expires" "device_pubkey s = pub" "session_token s = token"
      "sess_id s = next_session_id (store w)"
proof (cases "rc = 0")
  case True
  then show thesis
    using assms by (intro entered [of _ "last (sessions (store w'))"])
      (auto simp: create_session_def timed_sql_def next_sql_def time_now_def Let_def db_create_session_def
        split: prod.splits if_splits)
next
  case False
  then show thesis
    using assms by (intro failed)
      (auto simp: create_session_def timed_sql_def next_sql_def time_now_def Let_def db_create_session_def
        quiet_def split: prod.splits if_splits)
qed

lemma create_session_ok:
  assumes "world_ok w" "ip_pool_allocate 32 (pool w) = Some (Some ip, p')" "pool w1 = p'" "store w1 = store w"
    "length pub \<le> 63" "length token \<le> 63" "length ip \<le> 31"
    "db_create_session SqlOk now acc pub ip token expires (store w1) = (0, store w2)" "pool w2 = pool w1"
  shows "world_ok w2"
proof -
  have "db_ok (store w2)"
    using db_ok_create_session [of "store w" pub ip token SqlOk now acc expires] assms by (simp add: world_ok_def)
  moreover have "enter_session (SqlOk, now, acc, pub, token, expires) ip (store w) = (0, store w2)"
    using assms by (simp add: enter_session_def)
  then have "book.consistent p' (store w2)"
    using book.open_lease [of "pool w" "store w" ip p'] assms by (simp add: world_ok_def)
  moreover have "pool_ok p'" using pool_alloc_total [of "pool w"] assms(1,2) by (auto simp: world_ok_def)
  ultimately show ?thesis using assms by (simp add: world_ok_def)
qed

section \<open>Opening a session\<close>

text \<open>
  A login that passed the password check either leaves the sessions alone or adds one: for that
  account, not revoked, with an address of its own, living for the configured time from some
  call of \<open>time\<close> during the request, and only when fewer than five sessions were counted.\<close>

definition opens_for :: "'k env \<Rightarrow> int \<Rightarrow> 'k world \<Rightarrow> 'k world \<Rightarrow> bool" where
  "opens_for E acc w w' \<longleftrightarrow>
     (\<exists>s n. sessions (store w') = sessions (store w) @ [s] \<and> account_id s = acc \<and> revoked s = 0 \<and>
        sess_id s = next_session_id (store w) \<and> clock w \<le> n \<and> n < clock w' \<and>
        expires_at s = sys_time E n + session_default_ttl_seconds (config w))"

lemma quiet_steps:
  "quiet w w' \<Longrightarrow> pool w' = pool w \<and> store w' = store w \<and> config w' = config w \<and> clock w \<le> clock w'"
  by (simp add: quiet_def)

lemma time_now_clock: "time_now E w = (now, w') \<Longrightarrow> now = sys_time E (clock w) \<and> clock w' = Suc (clock w)"
  by (auto simp: time_now_def)

lemma login_session_outcome:
  assumes E: "services_ok E" and ok: "world_ok w"
  shows "\<exists>r w'. login_session E acc w = Some (r, w') \<and> world_ok w' \<and> world_mono w w' \<and>
           (sessions (store w') = sessions (store w) \<or> opens_for E acc w w')"
proof -
  obtain n w1 where w1: "count_active E acc w = (n, w1)" by fastforce
  have q1: "quiet w w1" using quiet_calls(6) [OF w1] .
  show ?thesis
  proof (cases "n \<ge> 5")
    case True
    then show ?thesis
      using w1 quiet_ok [OF q1 ok] quiet_steps [OF q1] by (simp add: login_session_def world_mono_def)
  next
    case False
    obtain i w2 where w2: "next_rnd w1 = (i, w2)" by fastforce
    obtain g pub priv where key: "auth_generate_keypair E i = (g, pub, priv)" by (metis prod_cases3)
    obtain j w3 where w3: "next_rnd w2 = (j, w3)" by fastforce
    let ?psk = "auth_generate_psk E j"
    have q3: "quiet w w3" using q1 quiet_calls(7) [OF w2] quiet_calls(7) [OF w3] by (blast intro: quiet_trans)
    have ok3: "world_ok w3" using quiet_ok [OF q3 ok] .
    from ok3 show ?thesis
    proof (cases rule: allocate_cases)
      case (full w4)
      then show ?thesis
        using w1 False w2 key w3 quiet_trans [OF q3 full(3)]
        by (simp add: login_session_def Let_def world_mono_def quiet_def)
    next
      case (got ip p')
      obtain rc w5 where w5: "add_peer E pub ?psk ip (w3\<lparr>pool := p'\<rparr>) = (rc, w5)" by fastforce
      have q5: "quiet (w3\<lparr>pool := p'\<rparr>) w5" using quiet_calls(8) [OF w5] .
      show ?thesis
      proof (cases "rc = 0")
        case False
        obtain w6 where "release_ip ip w5 = Some w6" "world_ok w6" "store w6 = store w3"
            "config w6 = config w3" "clock w3 \<le> clock w6"
          using release_undo [OF ok3 got(2) q5] by blast
        then show ?thesis
          using w1 \<open>\<not> n \<ge> 5\<close> w2 key w3 got w5 False quiet_steps [OF q3]
          by (simp add: login_session_def Let_def world_mono_def)
      next
        case True
        obtain l w6 where w6: "next_rnd w5 = (l, w6)" by fastforce
        obtain now w7 where w7: "time_now E w6 = (now, w7)" by fastforce
        let ?token = "auth_generate_token E l" and ?pub = "bin2base64 E pub"
          and ?exp = "now + session_default_ttl_seconds (config w7)"
        obtain rc2 w8 where w8: "create_session E acc ?pub ip ?token ?exp w7 = (rc2, w8)" by fastforce
        have q67: "quiet (w3\<lparr>pool := p'\<rparr>) w6" "quiet w6 w7"
          using q5 quiet_calls(7) [OF w6] quiet_calls(1) [OF w7] by (blast intro: quiet_trans)+
        have q7: "quiet (w3\<lparr>pool := p'\<rparr>) w7" using q67 by (rule quiet_trans)
        from w8 show ?thesis
        proof (cases rule: create_session_cases)
          case failed
          have "quiet (w3\<lparr>pool := p'\<rparr>) (remove_peer E pub w8)"
            using q7 failed(2) quiet_calls(9) by (blast intro: quiet_trans)
          then obtain w9 where "release_ip ip (remove_peer E pub w8) = Some w9" "world_ok w9"
              "store w9 = store w3" "config w9 = config w3" "clock w3 \<le> clock w9"
            using release_undo [OF ok3 got(2)] by blast
          then show ?thesis
            using w1 \<open>\<not> n \<ge> 5\<close> w2 key w3 got w5 True w6 w7 w8 failed(1) quiet_steps [OF q3]
            by (simp add: login_session_def Let_def world_mono_def)
        next
          case (entered now' s)
          have len: "length ?pub \<le> 63" "length ?token \<le> 63"
            using E keypair_length [OF E key] by (auto simp: services_ok_def auth_generate_token_def WG_KEY_LEN_def)
          have "world_ok w8"
            using create_session_ok [OF ok3 got(2) _ _ len got(4) entered(5) entered(2)] quiet_steps [OF q7] by simp
          then have "world_ok (log_audit E acc ''login'' ip w8)" by (rule log_audit_ok)
          moreover have "world_mono w (log_audit E acc ''login'' ip w8)"
            using quiet_steps [OF q3] quiet_steps [OF q7] entered
              log_audit_clock [of w8 E acc "''login''" ip]
            by (simp add: world_mono_def frame_simps)
          moreover have "opens_for E acc w (log_audit E acc ''login'' ip w8)"
            unfolding opens_for_def
            using quiet_steps [OF q3] quiet_steps [OF q67(1)] quiet_steps [OF q7] entered time_now_clock [OF w7]
              log_audit_clock [of w8 E acc "''login''" ip]
            by (intro exI [of _ s] exI [of _ "clock w6"]) (auto simp: frame_simps)
          ultimately show ?thesis
            using w1 \<open>\<not> n \<ge> 5\<close> w2 key w3 got w5 True w6 w7 w8 entered(1)
            by (simp add: login_session_def Let_def)
        qed
      qed
    qed
  qed
qed

section \<open>Login\<close>

text \<open>The credentials of a request, and the accounts they open.\<close>

definition credentials :: "'k env \<Rightarrow> string \<Rightarrow> string \<Rightarrow> string \<Rightarrow> bool" where
  "credentials E req user pw \<longleftrightarrow>
     (\<exists>json. json_parse E req = Some json \<and> cJSON_GetObjectItem json ''username'' = Some (JString user) \<and>
             cJSON_GetObjectItem json ''password'' = Some (JString pw))"

definition authentic :: "'k env \<Rightarrow> string \<Rightarrow> 'k world \<Rightarrow> account \<Rightarrow> bool" where
  "authentic E req w a \<longleftrightarrow> a \<in> set (accounts (store w)) \<and> disabled a = 0 \<and>
     (\<exists>pw. credentials E req (username a) pw \<and> pwhash_str_verify E (take 255 (password_hash a)) pw)"

definition password_is_string :: "'k env \<Rightarrow> string \<Rightarrow> bool" where
  "password_is_string E req \<longleftrightarrow> (\<forall>json p. json_parse E req = Some json \<longrightarrow>
     cJSON_GetObjectItem json ''password'' = Some p \<longrightarrow> cJSON_IsString p)"

lemma find_account_found:
  assumes "find_account E user w = (Some acc, w')"
  obtains a where "a \<in> set (accounts (store w))" "user = Some (username a)" "acc_id acc = acc_id a"
    "disabled acc = disabled a" "password_hash acc = take 255 (password_hash a)"
proof -
  obtain out where out: "db_get_account_by_username out user (store w) = Some acc"
    using assms by (auto simp: find_account_def next_sql_def)
  let ?rs = "filter (\<lambda>r. Some (username r) = user) (accounts (store w))"
  obtain r rs where r: "rows_read out ?rs = r # rs" "acc = account_of_row r"
    using out by (auto simp: db_get_account_by_username_def split: list.splits)
  have "r \<in> set ?rs"
    using rows_read_subset [of r out ?rs] r(1) by simp
  then show thesis using r(2) by (intro that [of r]) (auto simp: account_of_row_def)
qed

lemma valuestring_Some: "valuestring j = Some s \<longleftrightarrow> j = JString s"
  by (auto simp: valuestring_def split: json.splits)

lemma handle_login_outcome:
  assumes E: "services_ok E" and ok: "world_ok w"
  shows "(password_is_string E req \<longrightarrow> handle_login E ci req w \<noteq> None) \<and>
     (\<forall>r w'. handle_login E ci req w = Some (r, w') \<longrightarrow> world_ok w' \<and> world_mono w w' \<and>
        (sessions (store w') = sessions (store w) \<or>
         (\<exists>a. authentic E req w a \<and> opens_for E (acc_id a) w w' \<and>
              \<not> fst (rate_limited E (get_client_ip E ci) w))))"
proof -
  let ?ip = "get_client_ip E ci"
  obtain lim w1 where w1: "rate_limited E ?ip w = (lim, w1)" by fastforce
  have q1: "quiet w w1" using quiet_calls(2) [OF w1] .
  have same: "world_ok v \<and> world_mono w v \<and> sessions (store v) = sessions (store w)" if "quiet w v" for v
    using quiet_ok [OF that ok] quiet_steps [OF that] by (simp add: world_mono_def)
  show ?thesis
  proof (cases "lim \<or> json_parse E req = None")
    case True
    then show ?thesis using w1 same [OF q1] by (auto simp: handle_login_def Let_def)
  next
    case False
    then obtain json where json: "json_parse E req = Some json" "\<not> lim" by auto
    show ?thesis
    proof (cases "cJSON_GetObjectItem json ''username'' = None \<or> cJSON_GetObjectItem json ''password'' = None")
      case True
      then show ?thesis
        using w1 json same [OF q1] by (auto simp: handle_login_def Let_def split: option.splits)
    next
      case False
      then obtain u p where up: "cJSON_GetObjectItem json ''username'' = Some u"
          "cJSON_GetObjectItem json ''password'' = Some p" by auto
      obtain found w2 where w2: "find_account E (valuestring u) w1 = (found, w2)" by fastforce
      have q2: "quiet w w2" using q1 quiet_calls(4) [OF w2] by (rule quiet_trans)
      have q2': "quiet w (login_failed E ?ip w2)" using q2 quiet_calls(3) by (rule quiet_trans)
      show ?thesis
      proof (cases "found = None \<or> disabled (the found) \<noteq> 0")
        case True
        then show ?thesis
          using w1 json up w2 same [OF q2'] by (cases found) (auto simp: handle_login_def Let_def)
      next
        case False
        then obtain acc where acc: "found = Some acc" "disabled acc = 0" by auto
        show ?thesis
        proof (cases "\<exists>pw. p = JString pw \<and> pwhash_str_verify E (password_hash acc) pw")
          case False
          then show ?thesis
            using w1 json up w2 acc same [OF q2']
            by (auto simp: handle_login_def Let_def auth_verify_password_def valuestring_def password_is_string_def
                cJSON_IsString_def split: json.splits)
        next
          case True
          then obtain pw where pw: "p = JString pw" "pwhash_str_verify E (password_hash acc) pw" by auto
          obtain a where a: "a \<in> set (accounts (store w))" "valuestring u = Some (username a)"
              "acc_id acc = acc_id a" "disabled acc = disabled a" "password_hash acc = take 255 (password_hash a)"
            using find_account_found [of E "valuestring u" w1 acc w2] w2 acc(1) quiet_steps [OF q1] by metis
          have auth: "authentic E req w a"
            using a acc pw json up by (auto simp: authentic_def credentials_def valuestring_Some)
          obtain r w' where res: "login_session E (acc_id a) w2 = Some (r, w')" "world_ok w'" "world_mono w2 w'"
              "sessions (store w') = sessions (store w2) \<or> opens_for E (acc_id a) w2 w'"
            using login_session_outcome [OF E quiet_ok [OF q2 ok], of "acc_id a"] by blast
          have "handle_login E ci req w = Some (r, w')"
            using w1 json up w2 acc pw res(1) a(3)
            by (simp add: handle_login_def Let_def auth_verify_password_def valuestring_def)
          moreover have "opens_for E (acc_id a) w w'" if "opens_for E (acc_id a) w2 w'"
            using that quiet_steps [OF q2] unfolding opens_for_def by (metis order_trans)
          ultimately show ?thesis
            using res(2-4) auth quiet_steps [OF q2] w1 json(2) by (auto simp: world_mono_def)
        qed
      qed
    qed
  qed
qed


text \<open>
  C2: Authentication. When a login request changes the sessions, it names, with a password that
  the stored hash verifies, an account of the database that is not disabled, the client address
  is not rate limited, and the change is one new session of that account, not revoked and
  expiring the configured lifetime after the time read during the request.\<close>

theorem login_authenticates:
  assumes "services_ok E" "world_ok w" "handle_login E ci req w = Some (r, w')"
    "sessions (store w') \<noteq> sessions (store w)"
  shows "\<exists>a. authentic E req w a \<and> opens_for E (acc_id a) w w' \<and>
     \<not> fst (rate_limited E (get_client_ip E ci) w)"
  using handle_login_outcome [OF assms(1,2), of req ci] assms(3,4) by blast

section \<open>Logout and renewal\<close>

definition closes :: "'k env \<Rightarrow> session \<Rightarrow> 'k world \<Rightarrow> 'k world \<Rightarrow> bool" where
  "closes E s w w' \<longleftrightarrow> s \<in> set (sessions (store w)) \<and> revoked s = 0 \<and>
     (\<exists>n. clock w \<le> n \<and> n < clock w' \<and> expires_at s \<ge> sys_time E n) \<and>
     sessions (store w') = map (\<lambda>r. if sess_id r = sess_id s then r\<lparr>revoked := 1\<rparr> else r) (sessions (store w))"

definition extends :: "'k env \<Rightarrow> session \<Rightarrow> 'k world \<Rightarrow> 'k world \<Rightarrow> bool" where
  "extends E s w w' \<longleftrightarrow> s \<in> set (sessions (store w)) \<and> revoked s = 0 \<and>
     (\<exists>n. clock w \<le> n \<and> n < clock w' \<and> expires_at s + session_renew_grace_seconds (config w) \<ge> sys_time E n \<and>
       sessions (store w') = map (\<lambda>r. if sess_id r = sess_id s
         then r\<lparr>expires_at := sys_time E n + session_default_ttl_seconds (config w)\<rparr> else r) (sessions (store w)))"

text \<open>The session a request names: the token is the bearer's only proof.\<close>

definition names_session :: "'k env \<Rightarrow> string \<Rightarrow> session \<Rightarrow> bool" where
  "names_session E req s \<longleftrightarrow>
     (\<exists>json. json_parse E req = Some json \<and>
       cJSON_GetObjectItem json ''session_token'' = Some (JString (session_token s)))"

definition sql_reliable :: "'k env \<Rightarrow> bool" where
  "sql_reliable E \<longleftrightarrow> (\<forall>n. sql E n = SqlOk)"

lemma find_session_found:
  assumes "db_ok (store w)" "find_session E token w = (Some sess, w')"
  shows "sess \<in> set (sessions (store w)) \<and> session_token sess = token"
proof -
  obtain out where out: "db_get_session_by_token out token (store w) = Some sess"
    using assms(2) by (auto simp: find_session_def next_sql_def)
  let ?rs = "filter (\<lambda>r. session_token r = token) (sessions (store w))"
  obtain r rs where r: "rows_read out ?rs = r # rs" "sess = session_of_row r"
    using out by (auto simp: db_get_session_by_token_def split: list.splits)
  then have "r \<in> set ?rs" using rows_read_subset [of r out ?rs] by simp
  then show ?thesis using r(2) assms(1) by (auto simp: db_ok_def)
qed

text \<open>Closing the lease of a live session: address back to the pool, row revoked.\<close>

lemma close_session:
  assumes "world_ok w" "sql_reliable E" "s \<in> set (sessions (store w))" "revoked s = 0" "quiet w w1"
  obtains w2 where "release_ip (allowed_ip s) w1 = Some w2" "world_ok (revoke_session E (sess_id s) w2)"
    "sessions (store (revoke_session E (sess_id s) w2)) =
       map (\<lambda>r. if sess_id r = sess_id s then r\<lparr>revoked := 1\<rparr> else r) (sessions (store w))"
    "config (revoke_session E (sess_id s) w2) = config w" "clock (revoke_session E (sess_id s) w2) = clock w1"
proof -
  have ok1: "world_ok w1" using quiet_ok [OF assms(5,1)] .
  then have "pool_ok (pool w1)" by (simp add: world_ok_def)
  then obtain r p' where r: "ip_pool_release (allowed_ip s) (pool w1) = Some (r, p')" "pool_ok p'"
    using pool_release_total by blast
  have own: "lease_owner (store w1) (sess_id s) = Some (allowed_ip s)"
    using lease_owner_row [of "store w" s] assms quiet_steps [OF assms(5)] by (simp add: world_ok_def)
  let ?w2 = "w1\<lparr>pool := p'\<rparr>"
  have st: "store (revoke_session E (sess_id s) ?w2) = snd (db_revoke_session SqlOk (sess_id s) (store w1))"
    using assms(2) by (simp add: revoke_session_def next_sql_def sql_reliable_def)
  have "world_ok (revoke_session E (sess_id s) ?w2)"
    using ok1 r own book.close_lease [of "pool w1" "store w1" "sess_id s" "allowed_ip s" r p'] db_ok_revoke [of "store w1"]
    unfolding world_ok_def st by (simp add: revoke_session_def next_sql_def)
  then show thesis
    using r st quiet_steps [OF assms(5)]
    by (intro that [of ?w2])
      (auto simp: release_ip_def revoke_session_def next_sql_def db_revoke_session_def update_sessions_def)
qed


lemma handle_logout_outcome:
  assumes ok: "world_ok w" and sql: "sql_reliable E"
  shows "\<exists>r w'. handle_logout E req w = Some (r, w') \<and> world_ok w' \<and> world_mono w w' \<and>
     (sessions (store w') = sessions (store w) \<or> (\<exists>s. names_session E req s \<and> closes E s w w'))"
proof -
  have same: "world_ok v \<and> world_mono w v \<and> sessions (store v) = sessions (store w)" if "quiet w v" for v
    using quiet_ok [OF that ok] quiet_steps [OF that] by (simp add: world_mono_def)
  show ?thesis
  proof (cases "\<exists>json token. json_parse E req = Some json \<and>
      cJSON_GetObjectItem json ''session_token'' = Some (JString token) \<and> \<not> bad_token_length token")
    case False
    then show ?thesis
      using same [of w] by (auto simp: handle_logout_def split: option.splits json.splits)
  next
    case True
    then obtain json token where json: "json_parse E req = Some json"
        "cJSON_GetObjectItem json ''session_token'' = Some (JString token)" "\<not> bad_token_length token" by auto
    obtain found w1 where w1: "find_session E token w = (found, w1)" by fastforce
    have q1: "quiet w w1" using quiet_calls(5) [OF w1] .
    obtain now w2 where w2: "time_now E w1 = (now, w2)" by fastforce
    have q2: "quiet w w2" using q1 quiet_calls(1) [OF w2] by (rule quiet_trans)
    show ?thesis
    proof (cases "\<exists>s k. found = Some s \<and> revoked s = 0 \<and> \<not> expires_at s < now \<and>
        decode_key (base642bin E) (device_pubkey s) = Some k")
      case False
      then show ?thesis
        using json w1 w2 same [OF q1] same [OF q2]
        by (cases found) (auto simp: handle_logout_def Let_def split: option.splits)
    next
      case True
      then obtain s k where s: "found = Some s" "revoked s = 0" "\<not> expires_at s < now"
          "decode_key (base642bin E) (device_pubkey s) = Some k" by auto
      have mem: "s \<in> set (sessions (store w))" "session_token s = token"
        using find_session_found [of w E token s w1] ok w1 s(1) by (auto simp: world_ok_def)
      have q3: "quiet w (remove_peer E k w2)" using q2 quiet_calls(9) by (rule quiet_trans)
      obtain w3 where w3: "release_ip (allowed_ip s) (remove_peer E k w2) = Some w3"
          "world_ok (revoke_session E (sess_id s) w3)"
          "sessions (store (revoke_session E (sess_id s) w3)) =
             map (\<lambda>r. if sess_id r = sess_id s then r\<lparr>revoked := 1\<rparr> else r) (sessions (store w))"
          "config (revoke_session E (sess_id s) w3) = config w"
          "clock (revoke_session E (sess_id s) w3) = clock (remove_peer E k w2)"
        using close_session [OF ok sql mem(1) s(2) q3] by blast
      let ?w4 = "log_audit E (account_id s) ''logout'' (allowed_ip s) (revoke_session E (sess_id s) w3)"
      have clock: "clock w2 \<le> clock ?w4" "clock w \<le> clock w1" "clock w2 = Suc (clock w1)" "now = sys_time E (clock w1)"
        using log_audit_clock [of "revoke_session E (sess_id s) w3" E "account_id s" "''logout''" "allowed_ip s"]
          w3(5) quiet_steps [OF q1] time_now_clock [OF w2] by (auto simp: remove_peer_def)
      have "closes E s w ?w4"
        unfolding closes_def using mem s w3(3) clock
        by (intro conjI exI [of _ "clock w1"]) (auto simp: frame_simps)
      moreover have "names_session E req s" using json mem(2) by (auto simp: names_session_def)
      moreover have "world_ok ?w4" using w3(2) by (rule log_audit_ok)
      moreover have "world_mono w ?w4"
        using clock w3(4) by (simp add: world_mono_def frame_simps)
      ultimately show ?thesis
        using json w1 w2 s w3(1) by (auto simp: handle_logout_def Let_def)
    qed
  qed
qed

lemma update_expiry_frame:
  "pool (update_expiry E sid x w) = pool w" "config (update_expiry E sid x w) = config w"
  "clock (update_expiry E sid x w) = clock w"
  by (simp_all add: call_defs)

lemma update_expiry_ok: "world_ok w \<Longrightarrow> world_ok (update_expiry E sid x w)"
  by (rule world_okI) (auto simp: update_expiry_frame call_defs world_ok_def frame_simps intro: db_ok_expiry)

lemma handle_renew_outcome:
  assumes ok: "world_ok w" and sql: "sql_reliable E"
  shows "\<exists>r w'. handle_renew E req w = Some (r, w') \<and> world_ok w' \<and> world_mono w w' \<and>
     (sessions (store w') = sessions (store w) \<or> (\<exists>s. names_session E req s \<and> extends E s w w'))"
proof -
  have same: "world_ok v \<and> world_mono w v \<and> sessions (store v) = sessions (store w)" if "quiet w v" for v
    using quiet_ok [OF that ok] quiet_steps [OF that] by (simp add: world_mono_def)
  show ?thesis
  proof (cases "\<exists>json token. json_parse E req = Some json \<and>
      cJSON_GetObjectItem json ''session_token'' = Some (JString token) \<and> \<not> bad_token_length token")
    case False
    then show ?thesis
      using same [of w] by (auto simp: handle_renew_def split: option.splits json.splits)
  next
    case True
    then obtain json token where json: "json_parse E req = Some json"
        "cJSON_GetObjectItem json ''session_token'' = Some (JString token)" "\<not> bad_token_length token" by auto
    obtain found w1 where w1: "find_session E token w = (found, w1)" by fastforce
    have q1: "quiet w w1" using quiet_calls(5) [OF w1] .
    obtain now w2 where w2: "time_now E w1 = (now, w2)" by fastforce
    have q2: "quiet w w2" using q1 quiet_calls(1) [OF w2] by (rule quiet_trans)
    show ?thesis
    proof (cases "\<exists>s. found = Some s \<and> revoked s = 0 \<and>
        \<not> expires_at s + session_renew_grace_seconds (config w2) < now")
      case False
      then show ?thesis
        using json w1 w2 same [OF q1] same [OF q2]
        by (cases found) (auto simp: handle_renew_def Let_def)
    next
      case True
      then obtain s where s: "found = Some s" "revoked s = 0"
          "\<not> expires_at s + session_renew_grace_seconds (config w2) < now" by auto
      have mem: "s \<in> set (sessions (store w))" "session_token s = token"
        using find_session_found [of w E token s w1] ok w1 s(1) by (auto simp: world_ok_def)
      let ?x = "now + session_default_ttl_seconds (config w2)"
      let ?w3 = "update_expiry E (sess_id s) ?x w2"
      let ?w4 = "log_audit E (account_id s) ''renew'' (allowed_ip s) ?w3"
      have clock: "clock w2 \<le> clock ?w4" "clock w \<le> clock w1" "clock w2 = Suc (clock w1)" "now = sys_time E (clock w1)"
        using log_audit_clock [of ?w3 E "account_id s" "''renew''" "allowed_ip s"]
          quiet_steps [OF q1] time_now_clock [OF w2] by (auto simp: update_expiry_frame)
      have st: "sessions (store ?w3) = map (\<lambda>r. if sess_id r = sess_id s then r\<lparr>expires_at := ?x\<rparr> else r) (sessions (store w))"
        using sql quiet_steps [OF q2]
        by (simp add: update_expiry_def next_sql_def sql_reliable_def db_update_session_expiry_def update_sessions_def)
      have "extends E s w ?w4"
        unfolding extends_def using mem s st clock quiet_steps [OF q2]
        by (intro conjI exI [of _ "clock w1"]) (auto simp: frame_simps)
      moreover have "names_session E req s" using json mem(2) by (auto simp: names_session_def)
      moreover have "world_ok ?w4" using quiet_ok [OF q2 ok] by (intro log_audit_ok update_expiry_ok)
      moreover have "world_mono w ?w4"
        using clock quiet_steps [OF q2] by (simp add: world_mono_def frame_simps update_expiry_frame)
      ultimately show ?thesis
        using json w1 w2 s by (auto simp: handle_renew_def Let_def)
    qed
  qed
qed

lemma handle_status_outcome:
  "handle_status E auth w = (r, w') \<Longrightarrow> quiet w w'"
  using quiet_calls(1,5) quiet_trans
  by (fastforce simp: handle_status_def Let_def split: option.splits prod.splits if_splits)

section \<open>A concrete server\<close>

text \<open>A freshly started server with one account and eight addresses, and a login on it.\<close>

definition demo_db :: db where
  "demo_db = empty_db\<lparr>accounts := [\<lparr>acc_id = 1, username = ''ann'', password_hash = ''secret'',
     acc_created_at = 0, disabled = 0\<rparr>], next_account_id := 2\<rparr>"

definition demo_world :: "wg_device list world" where
  "demo_world = \<lparr>config = set_default_config, fails = fail_table_init, pool = demo_pool, store = demo_db, kernel = [],
     server_pubkey = zero_key, server_pubkey_loaded = False, clock = 0, stmts = 0, rnd = 0\<rparr>"


lemma demo_env_simps [simp]:
  "sys_time demo_env = int" "randombytes demo_env = (\<lambda>n l. replicate l (of_nat n))"
  "pwhash_str_verify demo_env = (=)" "scalarmult_base demo_env = Some" "bin2base64 demo_env = wg_key_to_base64"
  "base642bin demo_env = (\<lambda>s n. key_of_text s)" "sql demo_env = (\<lambda>n. SqlOk)" "scan demo_env = id"
  "json_parse demo_env = demo_parse" "json_print demo_env = (\<lambda>j. Some ''json'')"
  "wg_set_device demo_env = (\<lambda>d k. (0, d # k))" "wg_get_device demo_env = (\<lambda>n k. None)"
  by (simp_all add: demo_env_def)

lemma demo_alloc: "ip_pool_allocate 32 demo_pool = Some (Some ''10.8.1.12/32'', demo_pool\<lparr>bitmap := Some [159]\<rparr>)"
  by code_simp

lemma demo_items:
  "cJSON_GetObjectItem (JObject [(''username'', JString u), (''password'', p)]) ''username'' = Some (JString u)"
  "cJSON_GetObjectItem (JObject [(''username'', JString u), (''password'', p)]) ''password'' = Some p"
proof -
  have "\<not> strcasecmp_eq ''password'' ''username''" by code_simp
  then show "cJSON_GetObjectItem (JObject [(''username'', JString u), (''password'', p)]) ''username'' = Some (JString u)"
   "cJSON_GetObjectItem (JObject [(''username'', JString u), (''password'', p)]) ''password'' = Some p"
    by (simp_all add: GetObjectItem_Cons)
qed

lemma rate_fresh: "fails w = fail_table_init \<Longrightarrow> rate_limited E ip w = (False, w\<lparr>clock := Suc (clock w)\<rparr>)"
  by (simp add: rate_limited_def time_now_def check_rate_limit_def fail_table_init_def empty_entry_def upt_rec Let_def)

lemma demo_ip: "get_client_ip demo_env (Inet 1) = ''0.0.0.1''"
  by code_simp

lemma demo_login:
  "\<exists>r w'. handle_login demo_env (Inet 1) ''login'' demo_world = Some (r, w') \<and> live_ips (store w') = [''10.8.1.12/32'']"
  unfolding handle_login_def demo_ip
  by (simp add: rate_fresh demo_parse_def demo_items Let_def demo_world_def demo_db_def empty_db_def find_account_def next_sql_def
   db_get_account_by_username_def rows_read_def account_of_row_def valuestring_def auth_verify_password_def
   login_session_def count_active_def timed_sql_def time_now_def db_count_active_sessions_def next_rnd_def
   auth_generate_keypair_def allocate_ip_def demo_alloc add_peer_def wgctl_add_peer_def create_session_def db_create_session_def
   log_audit_def db_log_audit_def live_ips_def split: option.splits)

lemma world_ok_demo: "world_ok demo_world"
  by (simp add: world_ok_def demo_world_def demo_pool_ok demo_db_def empty_db_def db_ok_def
      book.consistent_def pool.leased_def live_ips_def)

theorem login_authenticates_witness:
  "\<exists>r w'. handle_login demo_env (Inet 1) ''login'' demo_world = Some (r, w') \<and>
     (\<exists>a. authentic demo_env ''login'' demo_world a \<and> opens_for demo_env (acc_id a) demo_world w')"
proof -
  obtain r w' where w': "handle_login demo_env (Inet 1) ''login'' demo_world = Some (r, w')"
      "live_ips (store w') = [''10.8.1.12/32'']" using demo_login by blast
  then have "sessions (store w') \<noteq> sessions (store demo_world)"
    by (auto simp: demo_world_def demo_db_def empty_db_def live_ips_def)
  with login_authenticates [OF services_ok_demo world_ok_demo w'(1)] w'(1) show ?thesis by blast
qed


lemma demo_password_is_string: "password_is_string demo_env ''wrong''"
  by (simp add: password_is_string_def demo_parse_def demo_items cJSON_IsString_def)




text \<open>
  C37: A logout changes the sessions only by closing one live, unexpired session whose token the
  request carries; the invariant is kept and the request always gets an answer.\<close>

theorem logout_closes_only_own:
  assumes "world_ok w" "sql_reliable E"
  shows "\<exists>r w'. handle_logout E req w = Some (r, w') \<and> world_ok w' \<and>
    (sessions (store w') \<noteq> sessions (store w) \<longrightarrow> (\<exists>s. names_session E req s \<and> closes E s w w'))"
  using handle_logout_outcome [OF assms, of req] by blast

lemma sql_reliable_demo: "sql_reliable demo_env"
  by (simp add: sql_reliable_def)

theorem logout_closes_only_own_witness:
  "\<exists>r w'. handle_logout demo_env ''tttttttttttttttttttt'' demo_world = Some (r, w') \<and> world_ok w'"
  using logout_closes_only_own [OF world_ok_demo sql_reliable_demo] by blast

text \<open>
  C38: A renewal changes the sessions only by moving the expiry of one live session, whose token
  the request carries and whose expiry plus the grace period is not over, to the configured
  lifetime from now; the invariant is kept and the request always gets an answer.\<close>

theorem renew_extends_only_own:
  assumes "world_ok w" "sql_reliable E"
  shows "\<exists>r w'. handle_renew E req w = Some (r, w') \<and> world_ok w' \<and>
    (sessions (store w') \<noteq> sessions (store w) \<longrightarrow> (\<exists>s. names_session E req s \<and> extends E s w w'))"
  using handle_renew_outcome [OF assms, of req] by blast

theorem renew_extends_only_own_witness:
  "\<exists>r w'. handle_renew demo_env ''tttttttttttttttttttt'' demo_world = Some (r, w') \<and> world_ok w'"
  using renew_extends_only_own [OF world_ok_demo sql_reliable_demo] by blast

section \<open>Requests that succeed\<close>

lemma filter_token:
  assumes "distinct (map f xs)" "s \<in> set xs" shows "filter (\<lambda>r. f r = f s) xs = [s]"
  using assms by (induction xs) (auto simp: filter_empty_conv, metis imageI)

lemma find_session_token:
  assumes "db_ok (store w)" "sql E (stmts w) = SqlOk" "s \<in> set (sessions (store w))"
  shows "find_session E (session_token s) w = (Some s, w\<lparr>stmts := Suc (stmts w)\<rparr>)"
proof -
  have "filter (\<lambda>r. session_token r = session_token s) (sessions (store w)) = [s]" "fits s"
    using assms(1,3) by (auto simp: db_ok_def intro: filter_token)
  then show ?thesis using assms(2)
    by (simp add: find_session_def next_sql_def db_get_session_by_token_def rows_read_def)
qed

lemma release_frees:
  assumes "world_ok w" "s \<in> set (sessions (store w))" "revoked s = 0" "quiet w w1"
    "release_ip (allowed_ip s) w1 = Some w2"
  shows "held_ips (pool w2) = held_ips (pool w) - {allowed_ip s}"
proof -
  have "allowed_ip s \<in> held_ips (pool w)" "pool_ok (pool w)"
    using assms(1-3) by (auto simp: world_ok_def book.consistent_def pool.leased_def live_ips_def)
  then show ?thesis
    using assms(4,5) pool_release_held [of "pool w" "allowed_ip s"]
    by (auto simp: release_ip_def quiet_def)
qed

text \<open>
  C21: A logout that carries the token of a live, unexpired session with a readable key succeeds:
  the answer is the status "ok", the session is revoked, exactly its address is returned to the
  pool, and every other session is as before.\<close>

theorem logout_succeeds:
  assumes "world_ok w" "sql_reliable E" "s \<in> set (sessions (store w))" "revoked s = 0"
    "names_session E req s" "\<not> bad_token_length (session_token s)" "expires_at s \<ge> sys_time E (clock w)"
    "decode_key (base642bin E) (device_pubkey s) = Some k"
  shows "\<exists>w'. handle_logout E req w =
      Some (send_json_response E (JObject [(''status'', JString ''ok'')]) 200, w') \<and>
    closes E s w w' \<and> held_ips (pool w') = held_ips (pool w) - {allowed_ip s}"
proof -
  obtain json where json: "json_parse E req = Some json"
      "cJSON_GetObjectItem json ''session_token'' = Some (JString (session_token s))"
    using assms(5) by (auto simp: names_session_def)
  let ?w1 = "w\<lparr>stmts := Suc (stmts w)\<rparr>" let ?w2 = "?w1\<lparr>clock := Suc (clock w)\<rparr>"
  have w1: "find_session E (session_token s) w = (Some s, ?w1)"
    using assms(1-3) by (intro find_session_token) (auto simp: world_ok_def sql_reliable_def)
  have w2: "time_now E ?w1 = (sys_time E (clock w), ?w2)" by (simp add: time_now_def)
  have q: "quiet w (remove_peer E k ?w2)" by (simp add: quiet_def remove_peer_def)
  obtain w3 where w3: "release_ip (allowed_ip s) (remove_peer E k ?w2) = Some w3"
      "sessions (store (revoke_session E (sess_id s) w3)) =
         map (\<lambda>r. if sess_id r = sess_id s then r\<lparr>revoked := 1\<rparr> else r) (sessions (store w))"
      "clock (revoke_session E (sess_id s) w3) = clock (remove_peer E k ?w2)"
    using close_session [OF assms(1,2,3,4) q] by blast
  let ?w4 = "log_audit E (account_id s) ''logout'' (allowed_ip s) (revoke_session E (sess_id s) w3)"
  have "handle_logout E req w = Some (send_json_response E (JObject [(''status'', JString ''ok'')]) 200, ?w4)"
    using json assms(4,6-8) w1 w2 w3(1)
    by (simp add: handle_logout_def Let_def cJSON_AddItem_def cJSON_CreateObject_def)
  moreover have "clock w < clock ?w4"
    using log_audit_clock [of "revoke_session E (sess_id s) w3" E "account_id s" "''logout''" "allowed_ip s"] w3(3)
    by (simp add: remove_peer_def)
  then have "closes E s w ?w4"
    unfolding closes_def using assms(3,4,7) w3(2)
    by (intro conjI exI [of _ "clock w"]) (auto simp: frame_simps)
  moreover have "pool ?w4 = pool w3" by (simp add: frame_simps revoke_session_def next_sql_def)
  then have "held_ips (pool ?w4) = held_ips (pool w) - {allowed_ip s}"
    using release_frees [OF assms(1,3,4) q w3(1)] by simp
  ultimately show ?thesis by blast
qed

definition demo_session :: session where
  "demo_session = \<lparr>sess_id = 1, account_id = 1, device_pubkey = wg_key_to_base64 zero_key,
     allowed_ip = ''10.8.1.12/32'', session_token = ''tttttttttttttttttttt'', created_at = 0,
     expires_at = 10, revoked = 0, last_seen_at = 0\<rparr>"

definition busy_world :: "wg_device list world" where
  "busy_world = demo_world\<lparr>pool := demo_pool\<lparr>bitmap := Some [159]\<rparr>,
     store := demo_db\<lparr>sessions := [demo_session], next_session_id := 2\<rparr>\<rparr>"

lemma world_ok_busy: "world_ok busy_world"
proof -
  have p: "pool_ok (demo_pool\<lparr>bitmap := Some [159]\<rparr>)"
    using pool_alloc_total [OF demo_pool_ok] demo_alloc by auto
  have "''10.8.1.12/32'' \<in> held_ips (demo_pool\<lparr>bitmap := Some [159]\<rparr>)"
    using pool_alloc_fresh [OF demo_pool_ok demo_alloc] by simp
  moreover have "length (wg_key_to_base64 zero_key) = 44"
    by (rule from_to_base64 [THEN conjunct1]) (simp add: zero_key_def)
  ultimately show ?thesis
    using p by (simp add: world_ok_def busy_world_def demo_world_def demo_db_def empty_db_def db_ok_def
      book.consistent_def pool.leased_def live_ips_def demo_session_def fits_def)
qed

lemma demo_key: "decode_key (base642bin demo_env) (wg_key_to_base64 zero_key) = Some zero_key"
  by (simp add: decode_key_def wgkeys.dec_enc zero_key_def)

lemma demo_names: "names_session demo_env ''tttttttttttttttttttt'' demo_session"
  by (simp add: names_session_def demo_parse_def demo_session_def GetObjectItem_Cons)

theorem logout_succeeds_witness:
  "\<exists>w'. handle_logout demo_env ''tttttttttttttttttttt'' busy_world =
      Some (send_json_response demo_env (JObject [(''status'', JString ''ok'')]) 200, w') \<and>
    closes demo_env demo_session busy_world w' \<and> ''10.8.1.12/32'' \<notin> held_ips (pool w')"
proof -
  have s: "demo_session \<in> set (sessions (store busy_world))" "revoked demo_session = 0"
    "\<not> bad_token_length (session_token demo_session)"
    "expires_at demo_session \<ge> sys_time demo_env (clock busy_world)"
    "decode_key (base642bin demo_env) (device_pubkey demo_session) = Some zero_key"
    using demo_key by (simp_all add: busy_world_def demo_world_def demo_session_def bad_token_length_def)
  have "allowed_ip demo_session = ''10.8.1.12/32''" by (simp add: demo_session_def)
  then show ?thesis
    using logout_succeeds [OF world_ok_busy sql_reliable_demo s(1,2) demo_names s(3-5)] by auto
qed

lemma peer_stats_frame: "peer_stats E s (w\<lparr>stmts := a, clock := b\<rparr>) = peer_stats E s w"
  by (simp add: peer_stats_def split: option.split)

text \<open>
  A status request reads only: it leaves failure table, pool, tables, kernel and key cache as
  they are. For the token of a live, unexpired session it answers with that session's address
  and expiry and the kernel's traffic counters of its key.\<close>

lemma status_reports:
  assumes "db_ok (store w)" "sql_reliable E" "s \<in> set (sessions (store w))" "revoked s = 0"
    "\<not> bad_token_length (session_token s)" "expires_at s \<ge> sys_time E (clock w)"
  shows "handle_status E (Some (''Bearer '' @ session_token s)) w =
    (send_json_response E (status_response s (peer_stats E s w)) 200,
     w\<lparr>stmts := Suc (stmts w), clock := Suc (clock w)\<rparr>)"
proof -
  have "find_session E (session_token s) w = (Some s, w\<lparr>stmts := Suc (stmts w)\<rparr>)"
    using assms(1-3) by (intro find_session_token) (auto simp: sql_reliable_def)
  moreover have "session_token s \<noteq> []" using assms(5) by (auto simp: bad_token_length_def)
  ultimately show ?thesis
    using assms(4-6) by (simp add: handle_status_def time_now_def peer_stats_frame)
qed

lemma status_reports_witness:
  "handle_status demo_env (Some (''Bearer '' @ session_token demo_session)) busy_world =
    (send_json_response demo_env (status_response demo_session (0, 0, 0)) 200,
     busy_world\<lparr>stmts := 1, clock := 1\<rparr>)"
proof -
  have "db_ok (store busy_world)" "demo_session \<in> set (sessions (store busy_world))" "revoked demo_session = 0"
    "\<not> bad_token_length (session_token demo_session)"
    "expires_at demo_session \<ge> sys_time demo_env (clock busy_world)"
    using world_ok_busy by (simp_all add: world_ok_def busy_world_def demo_world_def demo_session_def bad_token_length_def)
  from status_reports [OF this(1) sql_reliable_demo this(2-5)] show ?thesis
    by (simp add: peer_stats_def wgctl_get_peer_stats_def busy_world_def demo_world_def split: option.splits)
qed

end
