(* ===== verification/Server.thy ===== *)
theory Server
  imports Sessions
begin

text \<open>
  The running server: the reaper of \<open>server/src/reaper.c\<close>, the start-up of
  \<open>server/src/main.c\<close>, and the interleaving of the API thread with the reaper thread as a
  step relation. A request runs as one step; the reaper reads the expired sessions in one step
  and then closes them one at a time, requests running in between on newer data. The theory
  shows that every reachable state keeps the invariant of theory \<open>Sessions\<close>, so two live
  sessions never share an address.
\<close>

section \<open>The reaper\<close>

text \<open>The list is empty when the query fails.\<close>

definition reap_snapshot :: "'k env \<Rightarrow> 'k world \<Rightarrow> session list \<times> 'k world" where
  "reap_snapshot E w =
     (let (now, w) = time_now E w; (out, w) = next_sql E w in
      (case db_get_expired_sessions out (scan E) now (store w) of None \<Rightarrow> [] | Some ss \<Rightarrow> ss, w))"

definition reap_one :: "'k env \<Rightarrow> session \<Rightarrow> 'k world \<Rightarrow> 'k world ub" where
  "reap_one E sess w =
     (let w = (case base642bin E (device_pubkey sess) WG_KEY_LEN of
                 None \<Rightarrow> w | Some k \<Rightarrow> remove_peer E (decoded_buffer E k) w)
      in do {
        w \<leftarrow> release_ip (allowed_ip sess) w;
        Some (log_audit E (account_id sess) ''expired'' (allowed_ip sess) (revoke_session E (sess_id sess) w))
      })"

text \<open>One turn of the loop of \<open>reaper_worker\<close> without interference.\<close>

fun reap_all :: "'k env \<Rightarrow> session list \<Rightarrow> 'k world \<Rightarrow> 'k world ub" where
  "reap_all E [] w = Some w"
| "reap_all E (s # ss) w = do { w \<leftarrow> reap_one E s w; reap_all E ss w }"

definition reaper_pass :: "'k env \<Rightarrow> 'k world \<Rightarrow> 'k world ub" where
  "reaper_pass E w = (let (ss, w) = reap_snapshot E w in reap_all E ss w)"

section \<open>Start-up\<close>

text \<open>
  \<open>files\<close> is the file system, \<open>opened\<close> and \<open>file_db\<close> the database file, \<open>memory\<close>,
  \<open>callocs\<close> and \<open>alloc\<close> the memory, \<open>start\<close> and \<open>thread\<close> whether the daemon and the
  reaper thread start. The result is the exit code of an early return, or 0 and the state in
  which the server waits for requests.\<close>

definition db_path_of :: "server_config \<Rightarrow> string" where
  "db_path_of cfg = (if db_path cfg \<noteq> [] then db_path cfg else ''/var/lib/vpn-authd/accounts.db'')"

definition pool_cidr_of :: "server_config \<Rightarrow> string" where
  "pool_cidr_of cfg = (if ip_pool_cidr cfg \<noteq> [] then ip_pool_cidr cfg else ''10.8.1.0/23'')"

definition revoke_stale_sessions :: "'k env \<Rightarrow> 'k world \<Rightarrow> 'k world" where
  "revoke_stale_sessions E w =
     (let (out, w) = next_sql E w in w\<lparr>store := db_revoke_all_active_sessions out (store w)\<rparr>)"

definition server_main ::
  "'k env \<Rightarrow> bool \<Rightarrow> string option \<Rightarrow> (string \<Rightarrow> string option) \<Rightarrow> (string \<Rightarrow> bool \<times> db option) \<Rightarrow>
   bool \<Rightarrow> nat \<Rightarrow> bool \<Rightarrow> (daemon \<Rightarrow> bool) \<Rightarrow> bool \<Rightarrow> 'k \<Rightarrow> (int \<times> 'k world option) ub" where
  "server_main E sodium_init argv1 files databases memory callocs alloc start thread k =
     (if \<not> sodium_init then Some (1, None)
      else
        let cfg = snd (load_config (files (case argv1 of Some path \<Rightarrow> path | None \<Rightarrow> ''/etc/vpn-authd/authd.conf'')));
            (opened, file_db) = databases (db_path_of cfg);
            (rc, d) = db_init opened (sql E 0) (sql E 1) (sql E 2) file_db
        in if rc \<noteq> 0 then Some (1, None)
        else do {
            d \<leftarrow> d;
            (rc, p) \<leftarrow> ip_pool_init memory (pool_cidr_of cfg) (ip_pool_exclude cfg) pool_statics;
            if rc \<noteq> 0 then Some (1, None)
            else
              let k = snd (wgctl_load_static_config (base642bin E) (wg_add_device E) (wg_set_device E) (run_cmd E)
                        callocs (wg_interface cfg) (files (wg_conf_path cfg)) k);
                  w = revoke_stale_sessions E \<lparr>config = cfg, fails = fail_table_init, pool = p, store = d, kernel = k,
                        server_pubkey = zero_key, server_pubkey_loaded = False, clock = 0, stmts = 5, rnd = 0\<rparr>;
                  (rc, _, w) = api_start E alloc files start w
              in if rc \<noteq> 0 then Some (1, None)
                 else if \<not> thread then Some (1, None)
                 else Some (0, Some w)
          })"

text \<open>Whatever the database held, a server that starts has no live session and no address out.\<close>

lemma server_main_ok:
  assumes "server_main E sodium argv1 files databases memory callocs alloc start thread k = Some (0, Some w)"
    and db: "\<And>path d. snd (databases path) = Some d \<Longrightarrow> db_ok d" and sql: "sql_reliable E"
  shows "world_ok w \<and> live_ips (store w) = [] \<and> config_ok (config w)"
proof -
  let ?cfg = "snd (load_config (files (case argv1 of Some path \<Rightarrow> path | None \<Rightarrow> ''/etc/vpn-authd/authd.conf'')))"
  obtain opened fdb where f: "databases (db_path_of ?cfg) = (opened, fdb)" by fastforce
  obtain d p k' where d: "db_init opened (sql E 0) (sql E 1) (sql E 2) fdb = (0, Some d)"
    and p: "ip_pool_init memory (pool_cidr_of ?cfg) (ip_pool_exclude ?cfg) pool_statics = Some (0, p)"
    and w: "store w = db_revoke_all_active_sessions (sql E 5) d" "pool w = p" "config w = ?cfg"
    using assms(1) f
    by (auto simp: server_main_def Let_def revoke_stale_sessions_def next_sql_def api_start_def
        api_cache_server_pubkey_def db_init_def exec_sql_def split: prod.splits if_splits option.splits bind_splits)
  have "db_ok d"
    using d db [of "db_path_of ?cfg"] f db_ok_empty
    by (auto simp: db_init_def split: if_splits option.splits)
  then have "db_ok (store w)" "live_ips (store w) = []"
    using sql w(1) by (simp_all add: sql_reliable_def live_ips_revoke_all db_ok_revoke_all)
  moreover have "pool_ok (pool w)" using init_pool_ok [OF p] w(2) by simp
  ultimately show ?thesis
    using w(3) by (simp add: world_ok_def book.consistent_def pool.leased_def config_ok_loaded)
qed

section \<open>Requests\<close>

lemma route_outcome:
  assumes "services_ok E" "sql_reliable E" "world_ok w" "route E conn url verb info w = Some (r, w')"
  shows "world_ok w' \<and> world_mono w w' \<and> (sessions (store w') = sessions (store w) \<or>
     (\<exists>acc. opens_for E acc w w') \<or> (\<exists>s. closes E s w w') \<or> (\<exists>s. extends E s w w'))"
proof -
  have same: "world_ok v \<and> world_mono w v \<and> sessions (store v) = sessions (store w)" if "quiet w v" for v
    using quiet_ok [OF that assms(3)] quiet_steps [OF that] by (simp add: world_mono_def)
  consider "handle_login E (conn_addr conn) (body_text info) w = Some (r, w')"
    | "handle_logout E (body_text info) w = Some (r, w')"
    | "handle_renew E (body_text info) w = Some (r, w')"
    | "handle_status E (conn_authorization conn) w = (r, w')" | "w' = w"
    using assms(4) by (auto simp: route_def split: if_splits)
  then show ?thesis
  proof cases
    case 1
    then show ?thesis using handle_login_outcome [OF assms(1,3), of "body_text info" "conn_addr conn"] by blast
  next
    case 2
    then show ?thesis using handle_logout_outcome [OF assms(3,2), of "body_text info"] by auto
  next
    case 3
    then show ?thesis using handle_renew_outcome [OF assms(3,2), of "body_text info"] by auto
  next
    case 4
    then show ?thesis using same handle_status_outcome by blast
  next
    case 5
    then show ?thesis using same [OF quiet_refl] by simp
  qed
qed

section \<open>Interleaving\<close>

text \<open>The state of the two threads: the shared state, and the sessions the reaper still has to close.\<close>

inductive server_step :: "'k env \<Rightarrow> 'k world \<times> session list \<Rightarrow> 'k world \<times> session list \<Rightarrow> bool" for E where
  request: "route E conn url verb info w = Some (r, w') \<Longrightarrow> server_step E (w, todo) (w', todo)"
| snapshot: "reap_snapshot E w = (todo, w') \<Longrightarrow> server_step E (w, []) (w', todo)"
| reap: "reap_one E s w = Some w' \<Longrightarrow> server_step E (w, s # todo) (w', todo)"

inductive_cases server_stepE: "server_step E st st'"

definition server_reaches :: "'k env \<Rightarrow> 'k world \<times> session list \<Rightarrow> 'k world \<times> session list \<Rightarrow> bool" where
  "server_reaches E = (server_step E)\<^sup>*\<^sup>*"

definition clock_monotone :: "'k env \<Rightarrow> bool" where
  "clock_monotone E \<longleftrightarrow> (\<forall>m n. m \<le> n \<longrightarrow> sys_time E m \<le> sys_time E n)"

definition scan_ok :: "'k env \<Rightarrow> bool" where
  "scan_ok E \<longleftrightarrow> (\<forall>xs. set (scan E xs) = set xs \<and> (distinct xs \<longrightarrow> distinct (scan E xs)))"

text \<open>A session on the reaper's list is a row that is still live and stays expired.\<close>

definition doomed :: "'k env \<Rightarrow> 'k world \<Rightarrow> session \<Rightarrow> bool" where
  "doomed E w s \<longleftrightarrow> (\<exists>r \<in> set (sessions (store w)). sess_id s = sess_id r \<and> allowed_ip s = allowed_ip r \<and>
     revoked r = 0 \<and> (\<forall>n \<ge> clock w. expires_at r < sys_time E n))"

definition server_inv :: "'k env \<Rightarrow> 'k world \<times> session list \<Rightarrow> bool" where
  "server_inv E = (\<lambda>(w, todo). world_ok w \<and> session_renew_grace_seconds (config w) = 0 \<and>
     distinct (map sess_id todo) \<and> (\<forall>s \<in> set todo. doomed E w s))"

lemma doomed_mono:
  assumes "doomed E w s" "world_mono w w'" "\<And>r. r \<in> set (sessions (store w)) \<Longrightarrow> sess_id r = sess_id s \<Longrightarrow>
     (\<forall>n \<ge> clock w. expires_at r < sys_time E n) \<Longrightarrow> revoked r = 0 \<Longrightarrow> r \<in> set (sessions (store w'))"
  shows "doomed E w' s"
  using assms unfolding doomed_def world_mono_def by (metis order_trans)

lemma mapped_row:
  "r \<in> set rs \<Longrightarrow> \<not> P r \<Longrightarrow> r \<in> set (map (\<lambda>r. if P r then f r else r) rs)"
  by (metis (mono_tags, lifting) image_eqI list.set_map)

lemma doomed_request:
  assumes E: "services_ok E" "sql_reliable E" and ok: "world_ok w" "session_renew_grace_seconds (config w) = 0"
    and req: "route E conn url verb info w = Some (r, w')" and s: "doomed E w s"
  shows "doomed E w' s"
proof -
  have out: "world_mono w w'" "sessions (store w') = sessions (store w) \<or>
     (\<exists>acc. opens_for E acc w w') \<or> (\<exists>s. closes E s w w') \<or> (\<exists>s. extends E s w w')"
    using route_outcome [OF E ok(1) req] by auto
  have same_row: "t = x" if "t \<in> set (sessions (store w))" "x \<in> set (sessions (store w))" "sess_id t = sess_id x" for t x
    using ok(1) inj_on_ids that by (auto simp: world_ok_def)
  show ?thesis
  proof (rule doomed_mono [OF s out(1)])
    fix x assume x: "x \<in> set (sessions (store w))" "sess_id x = sess_id s"
      "\<forall>n \<ge> clock w. expires_at x < sys_time E n" "revoked x = 0"
    have other: "sess_id x \<noteq> sess_id t" if "closes E t w w' \<or> extends E t w w'" for t
    proof
      assume "sess_id x = sess_id t"
      moreover have "t \<in> set (sessions (store w))" "\<exists>n. clock w \<le> n \<and> sys_time E n \<le> expires_at t"
        using that ok(2) by (auto simp: closes_def extends_def)
      ultimately show False using same_row [of t x] x(1,3) by fastforce
    qed
    from out(2) show "x \<in> set (sessions (store w'))"
    proof (elim disjE exE)
      fix t assume t: "closes E t w w'"
      then have "sess_id x \<noteq> sess_id t" using other by blast
      then show ?thesis
        using t x(1) mapped_row [of x _ "\<lambda>r. sess_id r = sess_id t"] by (simp add: closes_def)
    next
      fix t assume t: "extends E t w w'"
      then have "sess_id x \<noteq> sess_id t" using other by blast
      then show ?thesis
        using t x(1) mapped_row [of x _ "\<lambda>r. sess_id r = sess_id t"] unfolding extends_def by (elim conjE exE) simp
    qed (use x(1) in \<open>auto simp: opens_for_def\<close>)
  qed
qed

lemma reap_one_outcome:
  assumes ok: "world_ok w" and sql: "sql_reliable E" and s: "doomed E w s"
  shows "\<exists>w'. reap_one E s w = Some w' \<and> world_ok w' \<and> world_mono w w' \<and>
     sessions (store w') = map (\<lambda>r. if sess_id r = sess_id s then r\<lparr>revoked := 1\<rparr> else r) (sessions (store w))"
proof -
  obtain r where r: "r \<in> set (sessions (store w))" "sess_id s = sess_id r" "allowed_ip s = allowed_ip r" "revoked r = 0"
    using s by (auto simp: doomed_def)
  let ?w1 = "case base642bin E (device_pubkey s) WG_KEY_LEN of None \<Rightarrow> w | Some k \<Rightarrow> remove_peer E (decoded_buffer E k) w"
  have q1: "quiet w ?w1" using quiet_calls(9) by (auto split: option.splits)
  obtain w2 where w2: "release_ip (allowed_ip r) ?w1 = Some w2" "world_ok (revoke_session E (sess_id r) w2)"
      "sessions (store (revoke_session E (sess_id r) w2)) =
         map (\<lambda>x. if sess_id x = sess_id r then x\<lparr>revoked := 1\<rparr> else x) (sessions (store w))"
      "config (revoke_session E (sess_id r) w2) = config w" "clock (revoke_session E (sess_id r) w2) = clock ?w1"
    using close_session [OF ok sql r(1,4) q1] by blast
  let ?w3 = "log_audit E (account_id s) ''expired'' (allowed_ip s) (revoke_session E (sess_id s) w2)"
  have "reap_one E s w = Some ?w3" using w2(1) r(3) by (simp add: reap_one_def)
  moreover have "world_ok ?w3" using w2(2) r(2) by (simp add: log_audit_ok)
  moreover have "world_mono w ?w3"
    using quiet_steps [OF q1] w2(4,5) r(2) log_audit_clock [of "revoke_session E (sess_id s) w2" E "account_id s" "''expired''" "allowed_ip s"]
    by (simp add: world_mono_def frame_simps)
  ultimately show ?thesis using w2(3) r(2) by (auto simp: frame_simps)
qed

lemma doomed_reap:
  assumes "world_ok w" "sql_reliable E" "doomed E w s" "reap_one E s w = Some w'" "doomed E w t" "sess_id t \<noteq> sess_id s"
  shows "doomed E w' t"
proof -
  have w': "world_mono w w'" "sessions (store w') = map (\<lambda>r. if sess_id r = sess_id s then r\<lparr>revoked := 1\<rparr> else r) (sessions (store w))"
    using reap_one_outcome [OF assms(1,2,3)] assms(4) by auto
  show ?thesis
  proof (rule doomed_mono [OF assms(5) w'(1)])
    fix x assume "x \<in> set (sessions (store w))" "sess_id x = sess_id t"
    then show "x \<in> set (sessions (store w'))"
      unfolding w'(2) using assms(6) by (intro mapped_row) auto
  qed
qed

lemma snapshot_outcome:
  assumes ok: "world_ok w" and mono: "clock_monotone E" and scan: "scan_ok E"
    and snap: "reap_snapshot E w = (todo, w')"
  shows "quiet w w' \<and> distinct (map sess_id todo) \<and> (\<forall>s \<in> set todo. doomed E w' s)"
proof -
  let ?now = "sys_time E (clock w)"
  let ?sel = "filter (\<lambda>r. revoked r = 0 \<and> expires_at r < ?now) (scan E (sessions (store w)))"
  have q: "quiet w w'" "store w' = store w" "clock w' = Suc (clock w)"
    using snap by (auto simp: reap_snapshot_def time_now_def next_sql_def quiet_def)
  have "\<exists>out. todo = map session_listed (rows_read out (take 100 ?sel))"
    using snap by (auto simp: reap_snapshot_def time_now_def next_sql_def db_get_expired_sessions_def
        rows_read_def split: if_splits intro: exI [of _ SqlPrepareError])
  then obtain out where todo: "todo = map session_listed (rows_read out (take 100 ?sel))" by blast
  have rows: "r \<in> set (sessions (store w)) \<and> revoked r = 0 \<and> expires_at r < ?now"
    if "r \<in> set (rows_read out (take 100 ?sel))" for r
    using rows_read_subset [OF that] scan by (auto simp: scan_ok_def dest!: in_set_takeD)
  have fits: "fits r" if "r \<in> set (rows_read out (take 100 ?sel))" for r
    using rows [OF that] ok by (auto simp: world_ok_def db_ok_def)
  have ids: "distinct (map sess_id (rows_read out (take 100 ?sel)))"
  proof -
    have "distinct (sessions (store w))" "inj_on sess_id (set (sessions (store w)))"
      using ok by (auto simp: world_ok_def db_ok_def distinct_map)
    then have "distinct ?sel" "inj_on sess_id (set ?sel)"
      using scan by (auto simp: scan_ok_def intro: inj_on_subset)
    then have "distinct (rows_read out (take 100 ?sel))"
      by (auto simp: rows_read_def split: sql_outcome.splits)
    moreover have "set (rows_read out (take 100 ?sel)) \<subseteq> set ?sel"
      using subset_trans [OF subsetI [OF rows_read_subset] set_take_subset] .
    ultimately show ?thesis
      using \<open>inj_on sess_id (set ?sel)\<close> by (auto simp: distinct_map intro: inj_on_subset)
  qed
  have "map sess_id todo = map sess_id (rows_read out (take 100 ?sel))"
    unfolding todo using fits by simp
  with ids have d: "distinct (map sess_id todo)" by (simp only:)
  have "doomed E w' (session_listed r)" if "r \<in> set (rows_read out (take 100 ?sel))" for r
  proof -
    have "expires_at r < sys_time E n" if "n \<ge> clock w'" for n
    proof -
      have "?now \<le> sys_time E n" using mono that q(3) by (simp add: clock_monotone_def)
      then show ?thesis using rows [OF \<open>r \<in> _\<close>] by simp
    qed
    then show ?thesis
      unfolding doomed_def using rows [OF that] fits [OF that] q(2) by (intro bexI [of _ r]) auto
  qed
  then have "\<forall>s \<in> set todo. doomed E w' s" by (simp add: todo)
  then show ?thesis using q d by blast
qed

lemma server_inv_step:
  assumes E: "services_ok E" "sql_reliable E" "clock_monotone E" "scan_ok E"
    and step: "server_step E st st'" and inv: "server_inv E st"
  shows "server_inv E st'"
  using step
proof (cases rule: server_step.cases)
  case (request conn url verb info w r w' todo)
  have ok: "world_ok w" "session_renew_grace_seconds (config w) = 0" using inv request by (auto simp: server_inv_def)
  have "world_ok w' \<and> world_mono w w'" using route_outcome [OF E(1,2) ok(1) request(3)] by blast
  moreover have "\<forall>s \<in> set todo. doomed E w' s"
    using doomed_request [OF E(1,2) ok request(3)] inv request(1) by (auto simp: server_inv_def)
  ultimately show ?thesis using inv request(1,2) by (auto simp: server_inv_def world_mono_def)
next
  case (snapshot w todo w')
  have "quiet w w' \<and> distinct (map sess_id todo) \<and> (\<forall>s \<in> set todo. doomed E w' s)"
    using snapshot_outcome [OF _ E(3,4) snapshot(3)] inv snapshot(1) by (auto simp: server_inv_def)
  then show ?thesis
    using inv snapshot(1,2) quiet_ok [of w w'] by (auto simp: server_inv_def quiet_def)
next
  case (reap s w w' todo)
  have i: "world_ok w" "doomed E w s" "\<forall>t \<in> set todo. doomed E w t" "sess_id s \<notin> sess_id ` set todo"
    using inv reap(1) by (auto simp: server_inv_def)
  have "world_ok w' \<and> world_mono w w'" using reap_one_outcome [OF i(1) E(2) i(2)] reap(3) by auto
  moreover have "doomed E w' t" if "t \<in> set todo" for t
    using doomed_reap [OF i(1) E(2) i(2) reap(3)] i(3,4) that by (metis image_eqI)
  ultimately show ?thesis using inv reap(1,2) by (auto simp: server_inv_def world_mono_def)
qed

lemma server_inv_reaches:
  assumes "services_ok E" "sql_reliable E" "clock_monotone E" "scan_ok E" "server_reaches E st st'" "server_inv E st"
  shows "server_inv E st'"
  using assms(5,6) unfolding server_reaches_def
  by (induction rule: rtranclp_induct) (auto intro: server_inv_step [OF assms(1-4)])

section \<open>Reachable states\<close>


definition demo_conf :: server_config where
  "demo_conf = set_default_config\<lparr>ip_pool_cidr := ''10.8.1.8/29'', ip_pool_exclude := ''10.8.1.8/30''\<rparr>"

definition demo_files :: "string \<Rightarrow> string option" where
  "demo_files path = (if path = ''/etc/vpn-authd/authd.conf'' then Some (unlines (config_lines demo_conf)) else None)"

text \<open>A database with one session left over from before.\<close>

definition old_db :: db where
  "old_db = demo_db\<lparr>sessions := [demo_session], next_session_id := 2\<rparr>"

definition demo_started :: "wg_device list world" where
  "demo_started = demo_world\<lparr>config := demo_conf, stmts := 6,
     store := demo_db\<lparr>sessions := [demo_session\<lparr>revoked := 1\<rparr>], next_session_id := 2\<rparr>\<rparr>"

lemma load_demo_conf: "load_config (Some (unlines (config_lines demo_conf))) = (0, demo_conf)"
  by (rule load_config_lines)
    (simp_all add: config_ok_def config_plain_def plain_def demo_conf_def set_default_config_def
      newline_def isspace_def)

lemma old_db_ok: "db_ok old_db"
  using world_ok_busy by (simp add: world_ok_def busy_world_def old_db_def)

lemma demo_start:
  "server_main demo_env True None demo_files (\<lambda>_. (True, Some old_db)) True 0 True (\<lambda>_. True) True [] =
   Some (0, Some demo_started)"
proof -
  have "db_init True SqlOk SqlOk SqlOk (Some old_db) = (0, Some old_db)"
    by (simp add: db_init_def exec_sql_def)
  moreover have "ip_pool_init True (pool_cidr_of demo_conf) (ip_pool_exclude demo_conf) pool_statics = Some (0, demo_pool)"
    using demo_pool_init by (simp add: pool_cidr_of_def demo_conf_def)
  moreover have "demo_files ''/etc/wireguard/wg0.conf'' = None" "wg_conf_path demo_conf = ''/etc/wireguard/wg0.conf''"
    by (simp_all add: demo_files_def demo_conf_def set_default_config_def)
  moreover have "tls_cert demo_conf = []" by (simp add: demo_conf_def set_default_config_def)
  ultimately show ?thesis
    by (simp add: server_main_def Let_def demo_files_def load_demo_conf wgctl_load_static_config_def
        revoke_stale_sessions_def next_sql_def api_start_def api_cache_server_pubkey_def
        wgctl_get_server_pubkey_def demo_started_def demo_world_def db_revoke_all_active_sessions_def
        update_sessions_def old_db_def demo_session_def)
qed



lemma demo_started_login:
  "\<exists>r w'. handle_login demo_env (Inet 1) ''login'' demo_started = Some (r, w') \<and> live_ips (store w') = [''10.8.1.12/32'']"
proof -
  have t: "auth_generate_token demo_env 2 \<noteq> ''tttttttttttttttttttt''" by code_simp
  show ?thesis
    unfolding handle_login_def demo_ip
    by (simp add: rate_fresh demo_parse_def demo_items Let_def demo_started_def demo_world_def demo_db_def empty_db_def
        find_account_def next_sql_def db_get_account_by_username_def rows_read_def account_of_row_def valuestring_def
        auth_verify_password_def login_session_def count_active_def timed_sql_def time_now_def
        db_count_active_sessions_def next_rnd_def auth_generate_keypair_def allocate_ip_def demo_alloc add_peer_def
        wgctl_add_peer_def create_session_def db_create_session_def log_audit_def db_log_audit_def live_ips_def
        demo_session_def t numeral_2_eq_2 [symmetric] split: option.splits)
qed


section \<open>What the reaper achieves\<close>

lemma reap_all_outcome:
  assumes "world_ok w" "sql_reliable E" "distinct (map sess_id todo)" "\<forall>s \<in> set todo. doomed E w s"
  shows "\<exists>w'. reap_all E todo w = Some w' \<and> world_ok w' \<and>
     sessions (store w') = map (\<lambda>r. if sess_id r \<in> sess_id ` set todo then r\<lparr>revoked := 1\<rparr> else r) (sessions (store w))"
  using assms
proof (induction todo arbitrary: w)
  case (Cons s todo)
  obtain w1 where w1: "reap_one E s w = Some w1" "world_ok w1"
      "sessions (store w1) = map (\<lambda>r. if sess_id r = sess_id s then r\<lparr>revoked := 1\<rparr> else r) (sessions (store w))"
    using reap_one_outcome [of w E s] Cons.prems by auto
  have "\<forall>t \<in> set todo. doomed E w1 t"
    using doomed_reap [of w E s w1] Cons.prems w1(1) by (metis distinct.simps(2) image_eqI list.set_intros list.simps(9) set_map)
  then obtain w2 where "reap_all E todo w1 = Some w2" "world_ok w2"
      "sessions (store w2) = map (\<lambda>r. if sess_id r \<in> sess_id ` set todo then r\<lparr>revoked := 1\<rparr> else r) (sessions (store w1))"
    using Cons.IH [OF w1(2) Cons.prems(2)] Cons.prems(3) by auto
  then show ?case using w1(1,3) by auto
qed simp

text \<open>
  C22: One turn of the reaper that is not interrupted ends without undefined behaviour, keeps the
  invariant, and when at most 100 sessions have expired it revokes exactly those: no session
  expired at its reading of the clock stays live, and no other session changes.\<close>

theorem reaper_pass_revokes_expired:
  assumes "world_ok w" "sql_reliable E" "clock_monotone E" "scan_ok E"
    "length (filter (\<lambda>r. revoked r = 0 \<and> expires_at r < sys_time E (clock w)) (sessions (store w))) \<le> 100"
  shows "\<exists>w'. reaper_pass E w = Some w' \<and> world_ok w' \<and>
     sessions (store w') = map (\<lambda>r. if revoked r = 0 \<and> expires_at r < sys_time E (clock w)
        then r\<lparr>revoked := 1\<rparr> else r) (sessions (store w))"
proof -
  let ?P = "\<lambda>r. revoked r = 0 \<and> expires_at r < sys_time E (clock w)"
  let ?rs = "sessions (store w)"
  obtain todo w1 where snap: "reap_snapshot E w = (todo, w1)" by fastforce
  have s: "quiet w w1" "distinct (map sess_id todo)" "\<forall>s \<in> set todo. doomed E w1 s"
    using snapshot_outcome [OF assms(1,3,4) snap] by auto
  obtain w' where w': "reap_all E todo w1 = Some w'" "world_ok w'"
      "sessions (store w') = map (\<lambda>r. if sess_id r \<in> sess_id ` set todo then r\<lparr>revoked := 1\<rparr> else r) (sessions (store w1))"
    using reap_all_outcome [OF quiet_ok [OF s(1) assms(1)] assms(2) s(2,3)] by blast
  have d: "distinct ?rs" "inj_on sess_id (set ?rs)" "\<forall>r \<in> set ?rs. fits r"
    using assms(1) by (auto simp: world_ok_def db_ok_def distinct_map)
  have sel: "set (filter ?P (scan E ?rs)) = set (filter ?P ?rs)" "distinct (filter ?P (scan E ?rs))"
    using assms(4) d(1) by (auto simp: scan_ok_def)
  have "length (filter ?P (scan E ?rs)) = card (set (filter ?P (scan E ?rs)))"
    by (rule distinct_card [OF sel(2), symmetric])
  also have "\<dots> = card (set (filter ?P ?rs))" by (simp only: sel(1))
  also have "\<dots> = length (filter ?P ?rs)" by (rule distinct_card) (simp add: d(1))
  finally have "length (filter ?P (scan E ?rs)) = length (filter ?P ?rs)" .
  then have "todo = map session_listed (filter ?P (scan E ?rs))"
    using snap assms(2,5)
    by (simp add: reap_snapshot_def time_now_def next_sql_def db_get_expired_sessions_def sql_reliable_def rows_read_def)
  then have "sess_id ` set todo = sess_id ` set (filter ?P ?rs)"
    using d(3) sel(1) by (force simp: image_image)
  then have "sess_id r \<in> sess_id ` set todo \<longleftrightarrow> ?P r" if "r \<in> set ?rs" for r
    using that d(2) by (auto dest: inj_onD)
  then have "map (\<lambda>r. if sess_id r \<in> sess_id ` set todo then r\<lparr>revoked := 1\<rparr> else r) ?rs =
     map (\<lambda>r. if ?P r then r\<lparr>revoked := 1\<rparr> else r) ?rs"
    by (intro map_cong) auto
  then show ?thesis
    using snap w' quiet_steps [OF s(1)] by (simp add: reaper_pass_def)
qed

definition late_world :: "wg_device list world" where
  "late_world = busy_world\<lparr>clock := 11\<rparr>"

theorem reaper_pass_revokes_expired_witness:
  "\<exists>w'. reaper_pass demo_env late_world = Some w' \<and> sessions (store w') = [demo_session\<lparr>revoked := 1\<rparr>]"
proof -
  have "world_ok late_world" using world_ok_busy by (simp add: world_ok_def late_world_def)
  moreover have "clock_monotone demo_env" "scan_ok demo_env" by (simp_all add: clock_monotone_def scan_ok_def)
  moreover have "sessions (store late_world) = [demo_session]" "clock late_world = 11"
    by (simp_all add: late_world_def busy_world_def demo_world_def demo_db_def)
  ultimately show ?thesis
    using reaper_pass_revokes_expired [of late_world demo_env] sql_reliable_demo by (auto simp: demo_session_def)
qed

end
