(* ===== verification/AddUser.thy ===== *)
theory AddUser
  imports Server
begin

text \<open>
  The account tool, \<open>server/src/add_user.c\<close>: its command line, the choice of the database and
  the insertion of the account. The theory shows that an account the tool has created can log in
  to the server with that password, and that no other run of the tool changes the accounts.
\<close>

section \<open>The command line\<close>

text \<open>The user name and the database path; \<open>None\<close> prints the usage. A final \<open>--db\<close> is a name.\<close>

fun add_user_args :: "string list \<Rightarrow> string option \<Rightarrow> string option \<Rightarrow> (string option \<times> string option) option" where
  "add_user_args [] user path = Some (user, path)"
| "add_user_args [a] user path = (if user = None then Some (Some a, path) else None)"
| "add_user_args (a # b # as) user path =
     (if a = ''--db'' then add_user_args as user (Some b)
      else if user = None then add_user_args (b # as) (Some a) path
      else None)"

section \<open>The program\<close>

text \<open>The static storage of \<open>g_config\<close> before any file is loaded.\<close>

definition zero_config :: server_config where
  "zero_config = \<lparr>wg_interface = [], wg_conf_path = [], endpoint_public_addr = [], dns = [], api_listen_addr = [],
     api_listen_port = 0, tls_cert = [], tls_key = [], db_path = [], ip_pool_cidr = [], ip_pool_exclude = [],
     session_default_ttl_seconds = 0, session_renew_grace_seconds = 0, session_reap_interval_seconds = 0,
     argon2_time_cost = 0, argon2_mem_cost_kb = 0\<rparr>"

text \<open>
  \<open>password\<close> is what \<open>getpass\<close> returns. The result is the exit code and, once the database is
  open, its path and contents. The four statements are the tables and the insertion.\<close>

definition add_user_main ::
  "'k env \<Rightarrow> string list \<Rightarrow> (string \<Rightarrow> string option) \<Rightarrow> bool \<Rightarrow> string option \<Rightarrow> (string \<Rightarrow> bool \<times> db option) \<Rightarrow>
   int \<times> (string \<times> db) option" where
  "add_user_main E argv files sodium_init password databases =
     (if length argv < 2 then (1, None)
      else case add_user_args (tl argv) None None of
        Some (Some user, path) \<Rightarrow>
          let cfg = (if path = None then snd (load_config (files ''/etc/vpn-authd/authd.conf'')) else zero_config);
              path = (case path of Some p \<Rightarrow> p | None \<Rightarrow> db_path_of cfg)
          in if \<not> sodium_init then (1, None)
          else (case password of
              None \<Rightarrow> (1, None)
            | Some pw \<Rightarrow>
                if pw = [] then (1, None)
                else let (opened, file_db) = databases path in
                  (case db_init opened (sql E 0) (sql E 1) (sql E 2) file_db of
                    (rc, Some d) \<Rightarrow>
                      if rc \<noteq> 0 then (1, None)
                      else (case auth_hash_password E cfg pw crypto_pwhash_STRBYTES of
                          None \<Rightarrow> (1, Some (path, d))
                        | Some hash \<Rightarrow>
                            let (rc, d) = db_create_account (sql E 3) (sys_time E 0) user hash d
                            in (if rc \<noteq> 0 then 1 else 0, Some (path, d)))
                  | (_, None) \<Rightarrow> (1, None)))
      | _ \<Rightarrow> (1, None))"

text \<open>The contract of the password hash of libsodium, whose texts fit \<open>crypto_pwhash_STRBYTES\<close>.\<close>

definition pwhash_ok :: "'k env \<Rightarrow> bool" where
  "pwhash_ok E \<longleftrightarrow> (\<forall>pw ops mem h. pwhash_str E pw ops mem = Some h \<longrightarrow>
     pwhash_str_verify E h pw \<and> length h < crypto_pwhash_STRBYTES)"

lemma create_account_new:
  assumes "db_create_account out now user hash d0 = (0, d)"
  shows "\<exists>r. accounts d = accounts d0 @ [r] \<and> username r = user \<and> password_hash r = hash \<and> disabled r = 0 \<and>
     user \<notin> username ` set (accounts d0)"
  using assms by (auto simp: db_create_account_def split: if_splits)

text \<open>
  C28: An account that the tool has created can log in: with the database it leaves behind, a login
  request with that name and password, from an address that is not locked, passes every check of
  credentials and goes on to open a session for the new account.\<close>

theorem add_user_can_login:
  assumes "add_user_main E argv files sodium (Some pw) databases = (0, Some (path, d))"
    "add_user_args (tl argv) None None = Some (Some user, p)"
    "pwhash_ok E" "sql_reliable E" "accounts (store w) = accounts d"
    "rate_limited E (get_client_ip E ci) w = (False, w1)" "json_parse E req = Some json"
    "cJSON_GetObjectItem json ''username'' = Some (JString user)"
    "cJSON_GetObjectItem json ''password'' = Some (JString pw)"
  shows "handle_login E ci req w =
     login_session E (acc_id (last (accounts d))) (w1\<lparr>stmts := Suc (stmts w1)\<rparr>)"
proof -
  obtain d0 hash ops mem where "pwhash_str E pw ops mem = Some hash"
      "db_create_account (sql E 3) (sys_time E 0) user hash d0 = (0, d)"
    using assms(1,2) by (auto simp: add_user_main_def auth_hash_password_def Let_def split: if_splits option.splits prod.splits)
  then obtain r where r: "accounts d = accounts d0 @ [r]" "username r = user" "disabled r = 0"
      "user \<notin> username ` set (accounts d0)" "pwhash_str_verify E (password_hash r) pw" "length (password_hash r) < 128"
    using create_account_new assms(3) unfolding pwhash_ok_def crypto_pwhash_STRBYTES_def by metis
  then have "\<forall>a \<in> set (accounts d0). username a \<noteq> user" by (metis image_eqI)
  then have "filter (\<lambda>a. Some (username a) = Some user) (accounts d) = [r]"
    using r(1,2) by (auto simp: filter_empty_conv)
  moreover have "store w1 = store w" using assms(6) by (auto simp: rate_limited_def time_now_def Let_def split: prod.splits)
  ultimately have "find_account E (Some user) w1 = (Some (account_of_row r), w1\<lparr>stmts := Suc (stmts w1)\<rparr>)"
    using assms(4,5) by (simp add: find_account_def next_sql_def db_get_account_by_username_def rows_read_def sql_reliable_def)
  then show ?thesis
    using assms(6-9) r
    by (simp add: handle_login_def valuestring_def account_of_row_def auth_verify_password_def Let_def)
qed

lemma demo_add_user:
  "add_user_main demo_env [''add'', ''ann'', ''--db'', ''a.db''] (\<lambda>_. None) True (Some ''secret'') (\<lambda>_. (True, None)) =
     (0, Some (''a.db'', demo_db))"
  by (simp add: add_user_main_def db_init_def exec_sql_def auth_hash_password_def zero_config_def demo_env_def
      crypto_pwhash_STRBYTES_def db_create_account_def empty_db_def demo_db_def)

theorem add_user_can_login_witness:
  "\<exists>w. handle_login demo_env OtherFamily ''login'' demo_world = login_session demo_env 1 w"
proof -
  have "pwhash_ok demo_env" by (auto simp: pwhash_ok_def demo_env_def crypto_pwhash_STRBYTES_def split: if_splits)
  moreover have "fails demo_world = fail_table_init" "accounts (store demo_world) = accounts demo_db"
    by (simp_all add: demo_world_def)
  moreover have "acc_id (last (accounts demo_db)) = 1" by (simp add: demo_db_def)
  moreover have "json_parse demo_env ''login'' = Some (JObject [(''username'', JString ''ann''), (''password'', JString ''secret'')])"
    by (simp add: demo_parse_def)
  ultimately have "handle_login demo_env OtherFamily ''login'' demo_world = login_session demo_env (acc_id (last (accounts demo_db)))
      (demo_world\<lparr>clock := Suc (clock demo_world), stmts := Suc (stmts demo_world)\<rparr>)"
    using add_user_can_login [OF demo_add_user, of "''ann''" "Some ''a.db''" demo_world OtherFamily
        "demo_world\<lparr>clock := Suc (clock demo_world)\<rparr>" "''login''"] sql_reliable_demo demo_items
    by (simp add: rate_fresh)
  then show ?thesis using \<open>acc_id (last (accounts demo_db)) = 1\<close> by auto
qed

text \<open>Whatever its exit code, the tool only ever adds one account, and with an error code it adds none.\<close>

lemma add_user_failure:
  assumes "add_user_main E argv files sodium password databases = (rc, Some (path, d))" "rc \<noteq> 0"
  shows "accounts d = (case snd (databases path) of None \<Rightarrow> [] | Some d0 \<Rightarrow> accounts d0)"
  using assms
  by (auto simp: add_user_main_def db_init_def db_create_account_def empty_db_def Let_def
      split: if_splits option.splits prod.splits)

end
