(* ===== verification/ClientWg.thy ===== *)
theory ClientWg
  imports ClientApi WgCtl
begin

text \<open>
  The tunnel of the Linux client, \<open>client/src/client_wg.c\<close>: the request that configures the
  interface and the shell commands around it. The kernel, the shell and the resolver are
  outside the program and arguments of the functions; data types and key texts are those of
  the WireGuard library (theories \<open>WgCtl\<close> and \<open>WgKey\<close>).
\<close>

section \<open>The host\<close>

datatype sock_addr = AddrInet u32 | AddrInet6 bytes | AddrOther

text \<open>\<open>getaddrinfo\<close> is the first address of the answer.\<close>

record 'k host =
  host_del_device :: "string \<Rightarrow> 'k \<Rightarrow> int \<times> 'k"
  host_add_device :: "string \<Rightarrow> 'k \<Rightarrow> int \<times> 'k"
  host_set_device :: "wg_device \<Rightarrow> 'k \<Rightarrow> int \<times> 'k"
  host_system :: "string \<Rightarrow> 'k \<Rightarrow> int \<times> 'k"
  getaddrinfo :: "string \<Rightarrow> sock_addr option"

section \<open>Parsing\<close>

text \<open>The cut at the last colon, and the conversion of the port by \<open>htons\<close>.\<close>

definition cut_at_last :: "char \<Rightarrow> string \<Rightarrow> (string \<times> string) option" where
  "cut_at_last c s = (case cut_at c (rev s) of (_, None) \<Rightarrow> None | (r, Some l) \<Rightarrow> Some (rev l, rev r))"

definition resolve_endpoint :: "(string \<Rightarrow> sock_addr option) \<Rightarrow> string \<Rightarrow> wg_endpoint option" where
  "resolve_endpoint lookup endpoint_str =
     (case cut_at_last (CHR '':'') (take 255 endpoint_str) of
        None \<Rightarrow> None
      | Some (host, p) \<Rightarrow>
          let port = word_of_int (atoi p) in
          (case lookup host of
             Some (AddrInet a) \<Rightarrow> Some (Endpoint4 a port)
           | Some (AddrInet6 a) \<Rightarrow> Some (Endpoint6 a port)
           | _ \<Rightarrow> None))"

definition client_parse_allowed_ip :: "string \<Rightarrow> wg_allowedip option" where
  "client_parse_allowed_ip cidr =
     (let (ip_str, slash) = cut_at (CHR ''/'') (take 63 cidr);
          mask = (case slash of None \<Rightarrow> 32 | Some s \<Rightarrow> atoi s)
      in case inet_pton4 ip_str of
           Some a \<Rightarrow> Some \<lparr>aip_addr = Ip4 a, aip_cidr = word_of_int mask\<rparr>
         | None \<Rightarrow> map_option (\<lambda>a. \<lparr>aip_addr = Ip6 a,
              aip_cidr = word_of_int (if slash \<noteq> None then mask else 128)\<rparr>) (inet_pton6 ip_str))"

text \<open>The successive results of \<open>strtok\<close> with the delimiters \<open>", "\<close>.\<close>

fun split_any :: "char set \<Rightarrow> string \<Rightarrow> string list" where
  "split_any D [] = [[]]"
| "split_any D (x # xs) =
     (if x \<in> D then [] # split_any D xs
      else case split_any D xs of [] \<Rightarrow> [[x]] | t # ts \<Rightarrow> (x # t) # ts)"

definition strtok_list :: "string \<Rightarrow> string list" where
  "strtok_list s = filter (\<lambda>t. t \<noteq> []) (split_any {CHR '','', CHR '' ''} s)"

text \<open>
  The loop over the tokens; \<open>callocs\<close> counts the calls of \<open>calloc\<close> that still succeed, whose
  result is used unchecked.\<close>

fun client_allowed_ips :: "nat \<Rightarrow> string list \<Rightarrow> wg_allowedip list \<Rightarrow> wg_allowedip list ub" where
  "client_allowed_ips callocs [] aips = Some aips"
| "client_allowed_ips callocs (t # ts) aips =
     (if callocs = 0 then None
      else client_allowed_ips (callocs - 1) ts
        (case client_parse_allowed_ip t of Some a \<Rightarrow> aips @ [a] | None \<Rightarrow> aips))"

section \<open>Up and down\<close>

definition route_command :: "string \<Rightarrow> string \<Rightarrow> string" where
  "route_command ifname token = take 511 (''ip route add '' @ token @ '' dev '' @ ifname @ '' 2>/dev/null'')"

text \<open>Routes are added for every token but the default routes, without looking at the result.\<close>

fun add_routes :: "'k host \<Rightarrow> string \<Rightarrow> string list \<Rightarrow> 'k \<Rightarrow> 'k" where
  "add_routes H ifname [] k = k"
| "add_routes H ifname (t # ts) k = add_routes H ifname ts
     (if t \<noteq> ''0.0.0.0/0'' \<and> t \<noteq> ''::/0'' then snd (host_system H (route_command ifname t) k) else k)"

definition client_wg_up :: "'k host \<Rightarrow> nat \<Rightarrow> string \<Rightarrow> wg_client_config \<Rightarrow> 'k \<Rightarrow> (int \<times> 'k) ub" where
  "client_wg_up H callocs ifname cfg k =
     (let k = snd (host_del_device H ifname k); (rc, k) = host_add_device H ifname k in
      if rc \<noteq> 0 then Some (-1, k)
      else let (rc, priv) = wg_key_from_base64 zero_key (cl_client_private_key_b64 cfg) in
      if rc \<noteq> 0 then Some (-1, k)
      else let (rc, pub) = wg_key_from_base64 zero_key (cl_server_public_key_b64 cfg) in
      if rc \<noteq> 0 then Some (-1, k)
      else
        let peer = (new_peer (WGPEER_HAS_PUBLIC_KEY OR WGPEER_REPLACE_ALLOWEDIPS OR
               WGPEER_HAS_PERSISTENT_KEEPALIVE_INTERVAL))\<lparr>public_key := pub, persistent_keepalive_interval := 25\<rparr>;
            peer = (if cl_preshared_key_b64 cfg = [] then peer
               else let (rc, psk) = wg_key_from_base64 zero_key (cl_preshared_key_b64 cfg) in
                 if rc = 0 then peer\<lparr>preshared_key := psk, peer_flags := peer_flags peer OR WGPEER_HAS_PRESHARED_KEY\<rparr>
                 else peer\<lparr>preshared_key := psk\<rparr>)
        in case resolve_endpoint (getaddrinfo H) (cl_endpoint cfg) of
          None \<Rightarrow> Some (-1, k)
        | Some ep \<Rightarrow> do {
            aips \<leftarrow> client_allowed_ips callocs (strtok_list (take 255 (cl_allowed_ips cfg))) [];
            let (rc, k) = host_set_device H ((new_device ifname)\<lparr>private_key := priv,
                    dev_flags := WGDEVICE_HAS_PRIVATE_KEY OR WGDEVICE_REPLACE_PEERS,
                    peers := [peer\<lparr>endpoint := ep, allowedips := aips\<rparr>]\<rparr>) k in
            if rc \<noteq> 0 then Some (-1, k)
            else let (rc, k) = host_system H (take 511 (''ip link set up dev '' @ ifname)) k in
            if rc \<noteq> 0 then Some (-1, k)
            else let (rc, k) = host_system H
                    (take 511 (''ip addr add '' @ cl_client_address cfg @ '' dev '' @ ifname)) k in
            if rc \<noteq> 0 then Some (-1, k)
            else Some (0, add_routes H ifname (strtok_list (take 255 (cl_allowed_ips cfg))) k)
          })"

definition client_wg_down :: "'k host \<Rightarrow> string \<Rightarrow> 'k \<Rightarrow> int \<times> 'k" where
  "client_wg_down H ifname k =
     (0, snd (host_del_device H ifname
        (snd (host_system H (take 511 (''ip link del dev '' @ ifname @ '' 2>/dev/null'')) k))))"

section \<open>The tunnel of an accepted login\<close>

text \<open>A list of networks as the server writes them, and the request they lead to.\<close>

definition net_text :: "u32 \<times> nat \<Rightarrow> string" where
  "net_text = (\<lambda>(a, n). inet_ntop4 a @ CHR ''/'' # dec_of_nat n)"

fun nets_text :: "(u32 \<times> nat) list \<Rightarrow> string" where
  "nets_text [] = []"
| "nets_text [n] = net_text n"
| "nets_text (n # m # ns) = net_text n @ CHR '','' # CHR '' '' # nets_text (m # ns)"

definition net_allowed :: "u32 \<times> nat \<Rightarrow> wg_allowedip" where
  "net_allowed = (\<lambda>(a, n). \<lparr>aip_addr = Ip4 a, aip_cidr = of_nat n\<rparr>)"

definition tunnel_device ::
  "string \<Rightarrow> bytes \<Rightarrow> bytes \<Rightarrow> bytes \<Rightarrow> wg_endpoint \<Rightarrow> (u32 \<times> nat) list \<Rightarrow> wg_device" where
  "tunnel_device ifname priv pub psk ep nets = \<lparr>dev_name = take 15 ifname, dev_flags = 3,
     dev_public_key = zero_key, private_key = priv, fwmark = 0, listen_port = 0,
     peers = [\<lparr>peer_flags = 30, public_key = pub, preshared_key = psk, endpoint = ep, last_handshake_time = 0,
        rx_bytes = 0, tx_bytes = 0, persistent_keepalive_interval = 25, allowedips = map net_allowed nets\<rparr>]\<rparr>"

lemma split_any_last: "set s \<inter> D = {} \<Longrightarrow> split_any D s = [s]"
  by (induction s) auto

lemma split_any_append: "set s \<inter> D = {} \<Longrightarrow> c \<in> D \<Longrightarrow> split_any D (s @ c # t) = s # split_any D t"
  by (induction s) auto

lemma net_text_plain: "set (net_text n) \<inter> {CHR '','', CHR '' ''} = {}" "net_text n \<noteq> []"
  by (auto simp: net_text_def inet_ntop4_def Let_def isdigit_def split: prod.splits dest!: dec_of_nat_digits)

lemma strtok_nets: "strtok_list (nets_text ns) = map net_text ns"
proof -
  have "filter (\<lambda>t. t \<noteq> []) (split_any {CHR '','', CHR '' ''} (nets_text ns)) = map net_text ns"
  proof (induction ns rule: nets_text.induct)
    case (2 n)
    then show ?case by (simp add: split_any_last net_text_plain)
  next
    case (3 n m ns)
    then show ?case by (simp add: split_any_append net_text_plain)
  qed simp
  then show ?thesis by (simp only: strtok_list_def)
qed

lemma client_parse_net: "snd n < 1000 \<Longrightarrow> client_parse_allowed_ip (net_text n) = Some (net_allowed n)"
proof -
  assume n: "snd n < 1000"
  have "length (net_text n) \<le> 63"
    using length_inet_ntop4 [of "fst n"] length_dec_of_nat_le3 [OF n] by (cases n) (simp add: net_text_def)
  then show ?thesis
    using n by (cases n) (simp add: client_parse_allowed_ip_def net_text_def net_allowed_def cut_at_here
        inet_pton4_ntop4 atoi_dec_of_nat)
qed

lemma client_allowed_nets:
  "\<forall>n \<in> set ns. snd n < 1000 \<Longrightarrow> length ns \<le> callocs \<Longrightarrow>
   client_allowed_ips callocs (map net_text ns) got = Some (got @ map net_allowed ns)"
  by (induction ns arbitrary: callocs got) (auto simp: client_parse_net)

lemma resolve_dotted:
  assumes "port < 2 ^ 16" "length host \<le> 249" "lookup host = Some (AddrInet a)"
  shows "resolve_endpoint lookup (host @ CHR '':'' # dec_of_nat port) = Some (Endpoint4 a (of_nat port))"
proof -
  have "length (dec_of_nat port) \<le> 5"
    using assms(1) by (subst dec_of_nat.simps, subst dec_of_nat.simps) (auto intro: length_dec_of_nat_le3 [THEN le_trans])
  then have t: "take 255 (host @ CHR '':'' # dec_of_nat port) = host @ CHR '':'' # dec_of_nat port"
    using assms(2) by simp
  have "cut_at (CHR '':'') (rev (dec_of_nat port) @ CHR '':'' # rev host) = (rev (dec_of_nat port), Some (rev host))"
    by (rule cut_at_here) (use dec_of_nat_digits colon_not_digit in auto)
  then show ?thesis
    unfolding resolve_endpoint_def t using assms by (simp add: cut_at_last_def atoi_dec_of_nat)
qed

lemma wg_up_run:
  fixes H :: "'k host"
  assumes "length priv = WG_KEY_LEN" "length pub = WG_KEY_LEN" "length psk = WG_KEY_LEN"
    "cl_client_private_key_b64 cfg = wg_key_to_base64 priv" "cl_server_public_key_b64 cfg = wg_key_to_base64 pub"
    "cl_preshared_key_b64 cfg = wg_key_to_base64 psk"
    "cl_endpoint cfg = hostname @ CHR '':'' # dec_of_nat port" "port < 2 ^ 16" "length hostname \<le> 249"
    "getaddrinfo H hostname = Some (AddrInet a)"
    "cl_allowed_ips cfg = nets_text nets" "length (nets_text nets) \<le> 255" "\<forall>n \<in> set nets. snd n < 1000"
    "length nets \<le> callocs"
    "\<And>s k. fst (host_add_device H s k) = 0" "\<And>d k. fst (host_set_device H d k) = 0" "\<And>c k. fst (host_system H c k) = 0"
  shows "client_wg_up H callocs ifname cfg k =
     (let k1 = snd (host_add_device H ifname (snd (host_del_device H ifname k)));
          k2 = snd (host_set_device H (tunnel_device ifname priv pub psk (Endpoint4 a (of_nat port)) nets) k1);
          k3 = snd (host_system H (take 511 (''ip link set up dev '' @ ifname)) k2);
          k4 = snd (host_system H (take 511 (''ip addr add '' @ cl_client_address cfg @ '' dev '' @ ifname)) k3)
      in Some (0, add_routes H ifname (map net_text nets) k4))"
proof -
  obtain add set run where calls: "host_add_device H = (\<lambda>s k. (0, add s k))"
      "host_set_device H = (\<lambda>d k. (0, set d k))" "host_system H = (\<lambda>c k. (0, run c k))"
    using that [of "\<lambda>s k. snd (host_add_device H s k)" "\<lambda>d k. snd (host_set_device H d k)"
        "\<lambda>c k. snd (host_system H c k)"] assms(15-17) by (auto simp: fun_eq_iff prod_eq_iff)
  have keys: "wg_key_from_base64 zero_key (wg_key_to_base64 priv) = (0, priv)"
      "wg_key_from_base64 zero_key (wg_key_to_base64 pub) = (0, pub)"
      "wg_key_from_base64 zero_key (wg_key_to_base64 psk) = (0, psk)"
      "wg_key_to_base64 psk \<noteq> []"
    using from_to_base64 [OF assms(1)] from_to_base64 [OF assms(2)] from_to_base64 [OF assms(3)] by auto
  have "resolve_endpoint (getaddrinfo H) (cl_endpoint cfg) = Some (Endpoint4 a (of_nat port))"
    using resolve_dotted assms(7-10) by simp
  moreover have "strtok_list (take 255 (cl_allowed_ips cfg)) = map net_text nets"
    using assms(11,12) strtok_nets by simp
  moreover have "client_allowed_ips callocs (map net_text nets) [] = Some (map net_allowed nets)"
    using client_allowed_nets [OF assms(13,14), of "[]"] by simp
  ultimately show ?thesis
    unfolding client_wg_up_def assms(4-6)
    by (simp add: keys calls Let_def tunnel_device_def new_device_def new_peer_def wg_flag_defs)
qed

text \<open>
  C26: Bringing the tunnel up. For the texts of three keys, an endpoint with a dotted host and a
  list of networks, and a kernel and shell that accept every call, the client removes the old
  interface, makes a new one, sends one request that describes exactly that tunnel (its private
  key, one peer with the server's key, the preshared key, the endpoint, a keepalive of 25 seconds,
  and exactly the listed networks), and then runs the two \<open>ip\<close> commands and one route command
  for each network that is not the default route.\<close>

theorem client_wg_up_applies:
  fixes H :: "'k host"
  assumes "length priv = WG_KEY_LEN" "length pub = WG_KEY_LEN" "length psk = WG_KEY_LEN"
    "cl_client_private_key_b64 cfg = wg_key_to_base64 priv" "cl_server_public_key_b64 cfg = wg_key_to_base64 pub"
    "cl_preshared_key_b64 cfg = wg_key_to_base64 psk"
    "cl_endpoint cfg = hostname @ CHR '':'' # dec_of_nat port" "port < 2 ^ 16" "length hostname \<le> 249"
    "getaddrinfo H hostname = Some (AddrInet a)"
    "cl_allowed_ips cfg = nets_text nets" "length (nets_text nets) \<le> 255" "\<forall>n \<in> set nets. snd n < 1000"
    "length nets \<le> callocs"
    "\<And>s k. fst (host_add_device H s k) = 0" "\<And>d k. fst (host_set_device H d k) = 0" "\<And>c k. fst (host_system H c k) = 0"
  shows "client_wg_up H callocs ifname cfg k =
     (let k1 = snd (host_add_device H ifname (snd (host_del_device H ifname k)));
          k2 = snd (host_set_device H (tunnel_device ifname priv pub psk (Endpoint4 a (of_nat port)) nets) k1);
          k3 = snd (host_system H (take 511 (''ip link set up dev '' @ ifname)) k2);
          k4 = snd (host_system H (take 511 (''ip addr add '' @ cl_client_address cfg @ '' dev '' @ ifname)) k3)
      in Some (0, add_routes H ifname (map net_text nets) k4))"
  using assms by (rule wg_up_run)

text \<open>A host that records commands and requests, and the answer of a server to a login.\<close>

definition log_host :: "(string list \<times> wg_device list) host" where
  "log_host = \<lparr>host_del_device = (\<lambda>s k. (0, k)), host_add_device = (\<lambda>s k. (0, k)),
     host_set_device = (\<lambda>d (c, ds). (0, (c, ds @ [d]))), host_system = (\<lambda>s (c, ds). (0, (c @ [s], ds))),
     getaddrinfo = (\<lambda>h. map_option AddrInet (inet_pton4 h))\<rparr>"

definition demo_nets :: "(u32 \<times> nat) list" where
  "demo_nets = [(ip_of_octets 10 8 1 0, 24), (0, 0)]"

definition demo_reply :: "string \<Rightarrow> json" where
  "demo_reply s = JObject [(''session_token'', JString ''t''), (''client_private_key'', JString (wg_key_to_base64 zero_key)),
     (''client_address'', JString s), (''server_public_key'', JString (wg_key_to_base64 zero_key)),
     (''preshared_key'', JString (wg_key_to_base64 zero_key)), (''endpoint'', JString (''1.2.3.4:'' @ dec_of_nat 51820)),
     (''allowed_ips'', JString (nets_text demo_nets)), (''dns'', JString []), (''expires_at'', JNumber 43200)]"

definition demo_client_config :: "string \<Rightarrow> wg_client_config" where
  "demo_client_config s = \<lparr>cl_session_token = ''t'', cl_client_private_key_b64 = wg_key_to_base64 zero_key,
     cl_client_address = take 63 s, cl_server_public_key_b64 = wg_key_to_base64 zero_key,
     cl_preshared_key_b64 = wg_key_to_base64 zero_key, cl_endpoint = ''1.2.3.4:'' @ dec_of_nat 51820,
     cl_allowed_ips = nets_text demo_nets, cl_dns = [], cl_expires_at = 43200\<rparr>"

lemma demo_texts: "nets_text demo_nets = ''10.8.1.0/24, 0.0.0.0/0''" "dec_of_nat 51820 = ''51820''"
    "inet_pton4 ''1.2.3.4'' = Some 16909060" "map net_text demo_nets = [''10.8.1.0/24'', ''0.0.0.0/0'']"
  by code_simp+

lemma demo_reply_config: "config_of_reply (demo_reply s) = Some (demo_client_config s)"
proof -
  have "length (wg_key_to_base64 zero_key) = 44" by (rule from_to_base64 [THEN conjunct1]) (simp add: zero_key_def)
  then show ?thesis
    by (simp add: config_of_reply_def demo_reply_def copy_string_field_def cJSON_GetObjectItemCaseSensitive_def
        number_field_def to_int64_def demo_client_config_def demo_texts)
qed

lemma zero_key_length: "length zero_key = WG_KEY_LEN"
  by (simp add: zero_key_def)

lemma log_host_calls:
  "fst (host_add_device log_host s k) = 0" "fst (host_set_device log_host d k) = 0" "fst (host_system log_host c k) = 0"
  by (simp_all add: log_host_def split: prod.splits)

lemma demo_nets_small: "\<forall>n \<in> set demo_nets. snd n < 1000"
  by (simp add: demo_nets_def)

lemma length_demo_nets: "length demo_nets = 2"
  by (simp add: demo_nets_def)

lemma demo_host: "getaddrinfo log_host ''1.2.3.4'' = Some (AddrInet 16909060)"
  by (simp add: log_host_def demo_texts)

lemmas demo_run = wg_up_run [OF zero_key_length zero_key_length zero_key_length _ _ _ _ _ _ demo_host _ _ demo_nets_small
  _ log_host_calls]

text \<open>
  C32: The answer of the server reaches a root shell: whatever text it names as the client's
  address, up to the size of its buffer, the client runs it inside the command that assigns the
  address, without looking at its characters.\<close>

theorem address_runs_in_shell:
  "\<exists>cfg commands requests. config_of_reply (demo_reply s) = Some cfg \<and>
     client_wg_up log_host 2 ''wg-vpn'' cfg ([], []) = Some (0, (commands, requests)) \<and>
     ''ip addr add '' @ take 63 s @ '' dev wg-vpn'' \<in> set commands"
proof -
  have "client_wg_up log_host 2 ''wg-vpn'' (demo_client_config s) ([], []) =
     Some (0, ([''ip link set up dev wg-vpn'', ''ip addr add '' @ take 63 s @ '' dev wg-vpn'',
         ''ip route add 10.8.1.0/24 dev wg-vpn 2>/dev/null''],
       [tunnel_device ''wg-vpn'' zero_key zero_key zero_key (Endpoint4 16909060 51820) demo_nets]))"
    by (subst demo_run [where port = 51820])
      (simp_all add: demo_client_config_def log_host_def Let_def demo_texts route_command_def length_demo_nets)
  then show ?thesis using demo_reply_config by auto
qed

theorem client_wg_up_applies_witness:
  "client_wg_up log_host 2 ''wg-vpn'' (demo_client_config ''10.8.1.12/32'') ([], []) =
     Some (0, ([''ip link set up dev wg-vpn'', ''ip addr add 10.8.1.12/32 dev wg-vpn'',
         ''ip route add 10.8.1.0/24 dev wg-vpn 2>/dev/null''],
       [tunnel_device ''wg-vpn'' zero_key zero_key zero_key (Endpoint4 16909060 51820) demo_nets]))"
  by (subst client_wg_up_applies [OF zero_key_length zero_key_length zero_key_length _ _ _ _ _ _ demo_host _ _ demo_nets_small
        _ log_host_calls, where port = 51820])
    (simp_all add: demo_client_config_def log_host_def Let_def demo_texts route_command_def length_demo_nets)

end
