(* ===== verification/ClientMain.thy ===== *)
theory ClientMain
  imports ClientWg
begin

text \<open>
  The program of the Linux client, \<open>client/src/main.c\<close>: the token file, the renewal loop and the
  three commands. The state is what outlives a call: the token file, the kernel and the
  network. The wait for a signal is an argument of the run, the times at which the renewal
  thread wakes up before the signal comes; printing has no effect here.
\<close>

section \<open>State\<close>

record ('n, 'k) client =
  token_file :: "string option"
  net :: 'n
  kern :: 'k

definition save_token :: "bool \<Rightarrow> string \<Rightarrow> ('n, 'k) client \<Rightarrow> ('n, 'k) client" where
  "save_token opened token c = (if opened then c\<lparr>token_file := Some token\<rparr> else c)"

text \<open>The first line of the file, as far as it fits a buffer of \<open>len\<close> bytes.\<close>

definition load_token :: "nat \<Rightarrow> ('n, 'k) client \<Rightarrow> string" where
  "load_token len c =
     (case token_file c of None \<Rightarrow> []
      | Some text \<Rightarrow> takeWhile (\<lambda>x. x \<noteq> CHR 0x0D \<and> x \<noteq> newline) (cstr (fst (fgets (len - 1) text))))"

definition clear_token :: "('n, 'k) client \<Rightarrow> ('n, 'k) client" where
  "clear_token c = c\<lparr>token_file := None\<rparr>"

text \<open>
  One turn of the renewal thread that wakes up at time \<open>now\<close>, on the expiry it holds. A renewal
  that answers without an expiry leaves the 0 of the local variable.\<close>

definition renew_turn ::
  "'n client_env \<Rightarrow> client_globals \<Rightarrow> string \<Rightarrow> int \<Rightarrow> int \<times> 'n \<Rightarrow> (int \<times> 'n) ub" where
  "renew_turn E G token now st =
     (let (expires, n) = st in
      if expires - now < 900 then do {
        (rc, new_exp, n) \<leftarrow> client_api_renew E G token n;
        Some (if rc = 0 then (case new_exp of None \<Rightarrow> 0 | Some e \<Rightarrow> e) else expires, n)
      }
      else Some st)"

text \<open>A wake-up is its time and what others have done to the network since the last one.\<close>

fun renew_thread_func ::
  "'n client_env \<Rightarrow> client_globals \<Rightarrow> string \<Rightarrow> (int \<times> ('n \<Rightarrow> 'n)) list \<Rightarrow> int \<times> 'n \<Rightarrow> (int \<times> 'n) ub" where
  "renew_thread_func E G token [] st = Some st"
| "renew_thread_func E G token ((now, others) # wakes) (expires, n) =
     do { st \<leftarrow> renew_turn E G token now (expires, others n); renew_thread_func E G token wakes st }"

section \<open>Commands\<close>

text \<open>The loop over the options; the value of \<open>--server\<close> is looked at as an option again.\<close>

fun client_options :: "string list \<Rightarrow> string \<times> bool \<Rightarrow> string \<times> bool" where
  "client_options [] opts = opts"
| "client_options (a # rest) (url, insecure) = client_options rest
     (if a = ''--server'' \<and> rest \<noteq> [] then hd rest else url, insecure \<or> a = ''--insecure'')"

definition IFNAME :: string where "IFNAME = ''wg-vpn''"

definition client_globals_of :: "string list \<Rightarrow> client_globals" where
  "client_globals_of argv =
     (let (url, insecure) = client_options (drop 2 argv) (''https://127.0.0.1:8443'', False)
      in client_api_init url None insecure)"

text \<open>
  \<open>opened\<close> says whether the token file can be written, \<open>callocs\<close> counts the allocations that
  succeed, \<open>wakes\<close> are the wake-ups of the renewal thread.\<close>

definition client_login ::
  "'n client_env \<Rightarrow> 'k host \<Rightarrow> client_globals \<Rightarrow> bool \<Rightarrow> nat \<Rightarrow> (int \<times> ('n \<Rightarrow> 'n)) list \<Rightarrow> string \<Rightarrow> string \<Rightarrow>
   ('n, 'k) client \<Rightarrow> (int \<times> ('n, 'k) client) ub" where
  "client_login E H G opened callocs wakes user password c =
     do {
       (rc, cfg, n) \<leftarrow> client_api_login E G user (take 255 password) (net c);
       let c = c\<lparr>net := n\<rparr>;
       case cfg of
         Some cfg \<Rightarrow>
           if rc \<noteq> 0 then Some (1, c)
           else let token = take 255 (cl_session_token cfg); c = save_token opened token c in do {
             (rc, k) \<leftarrow> client_wg_up H callocs IFNAME cfg (kern c);
             let c = c\<lparr>kern := k\<rparr>;
             if rc \<noteq> 0 then do {
               (_, n) \<leftarrow> client_api_logout E G token (net c);
               Some (1, clear_token (c\<lparr>net := n\<rparr>))
             }
             else do {
               (_, n) \<leftarrow> renew_thread_func E G token wakes (cl_expires_at cfg, net c);
               (_, n) \<leftarrow> client_api_logout E G token n;
               Some (0, clear_token (c\<lparr>net := n, kern := snd (client_wg_down H IFNAME (kern c))\<rparr>))
             }
           }
       | None \<Rightarrow> Some (1, c)
     }"

definition client_status :: "'n client_env \<Rightarrow> client_globals \<Rightarrow> ('n, 'k) client \<Rightarrow> (int \<times> wg_client_status option \<times> ('n, 'k) client) ub" where
  "client_status E G c =
     (let token = load_token 256 c in
      if token = [] then Some (1, None, c)
      else map_option (\<lambda>(rc, st, n). (0, if rc = 0 then st else None, c\<lparr>net := n\<rparr>)) (client_api_status E G token (net c)))"

definition client_logout :: "'n client_env \<Rightarrow> 'k host \<Rightarrow> client_globals \<Rightarrow> ('n, 'k) client \<Rightarrow> (int \<times> ('n, 'k) client) ub" where
  "client_logout E H G c =
     (let token = load_token 256 c in do {
        c \<leftarrow> (if token \<noteq> [] then
               map_option (\<lambda>(_, n). clear_token (c\<lparr>net := n\<rparr>)) (client_api_logout E G token (net c))
             else Some c);
        Some (0, c\<lparr>kern := snd (client_wg_down H IFNAME (kern c))\<rparr>)
      })"

text \<open>The exit code and the state; the statistics that \<open>status\<close> prints are dropped.\<close>

definition client_main ::
  "'n client_env \<Rightarrow> 'k host \<Rightarrow> bool \<Rightarrow> nat \<Rightarrow> (int \<times> ('n \<Rightarrow> 'n)) list \<Rightarrow> string list \<Rightarrow> ('n, 'k) client \<Rightarrow> (int \<times> ('n, 'k) client) ub" where
  "client_main E H opened callocs wakes argv c =
     (let G = client_globals_of argv in
      if length argv < 2 then Some (1, c)
      else if argv ! 1 = ''login'' then
        if length argv < 4 then Some (1, c)
        else client_login E H G opened callocs wakes (argv ! 2) (argv ! 3) c
      else if argv ! 1 = ''status'' then map_option (\<lambda>(rc, _, c). (rc, c)) (client_status E G c)
      else if argv ! 1 = ''logout'' then client_logout E H G c
      else Some (1, c))"

section \<open>The token file\<close>

lemma fgets_whole: "newline \<notin> set s \<Longrightarrow> length s \<le> n \<Longrightarrow> fgets n s = (s, [])"
proof (induction s arbitrary: n)
  case (Cons c s)
  then show ?case using Cons.IH [of "n - 1"] by auto
qed simp

lemma load_saved_token:
  assumes "newline \<notin> set t" "CHR 0x0D \<notin> set t" "CHR 0x00 \<notin> set t" "length t < 256"
  shows "load_token 256 (save_token True t c) = t"
proof -
  have "takeWhile (\<lambda>x. x \<noteq> CHR 0x0D \<and> x \<noteq> newline) t = t" using assms(1,2) by (intro takeWhile_all) auto
  then show ?thesis
    using fgets_whole [OF assms(1), of 255] cstr_id [OF assms(3)] assms(4) by (simp add: load_token_def save_token_def)
qed

text \<open>
  The token a login has written is the token that a later \<open>status\<close> or \<open>logout\<close> of another
  process sends, as long as it is one line that fits the buffer.\<close>

lemma saved_token_used:
  assumes "newline \<notin> set t" "CHR 0x0D \<notin> set t" "CHR 0x00 \<notin> set t" "length t < 256" "t \<noteq> []"
  shows "client_status E G (save_token True t c) =
     map_option (\<lambda>(rc, st, n). (0, if rc = 0 then st else None, (save_token True t c)\<lparr>net := n\<rparr>))
       (client_api_status E G t (net c)) \<and>
   client_logout E H G (save_token True t c) =
     map_option (\<lambda>(_, n). (0, c\<lparr>token_file := None, net := n, kern := snd (client_wg_down H IFNAME (kern c))\<rparr>))
       (client_api_logout E G t (net c))"
  using load_saved_token [OF assms(1-4), of c] assms(5)
  by (auto simp: client_status_def client_logout_def save_token_def clear_token_def split: option.splits prod.splits
      bind_splits)

section \<open>Keeping a session alive\<close>

text \<open>
  \<open>at now e n\<close> says that the network is at time \<open>now\<close> and holds the session with expiry \<open>e\<close>.
  Renewals of an unexpired session answer with an expiry at least \<open>ttl\<close> later.\<close>

definition renewals_grant :: "'n client_env \<Rightarrow> client_globals \<Rightarrow> string \<Rightarrow> (int \<Rightarrow> int \<Rightarrow> 'n \<Rightarrow> bool) \<Rightarrow> int \<Rightarrow> bool" where
  "renewals_grant E G token at ttl \<longleftrightarrow> (\<forall>now e n. at now e n \<longrightarrow> now \<le> e \<longrightarrow>
     (\<exists>e' n'. client_api_renew E G token n = Some (0, Some e', n') \<and> now + ttl \<le> e' \<and> at now e' n'))"

text \<open>Wake-ups at most \<open>gap\<close> seconds apart, with a network that only moves on to their times.\<close>

fun wakes_within :: "(int \<Rightarrow> int \<Rightarrow> 'n \<Rightarrow> bool) \<Rightarrow> int \<Rightarrow> int \<Rightarrow> (int \<times> ('n \<Rightarrow> 'n)) list \<Rightarrow> bool" where
  "wakes_within at gap start [] \<longleftrightarrow> True"
| "wakes_within at gap start ((t, others) # ts) \<longleftrightarrow> t \<le> start + gap \<and>
     (\<forall>e n. at start e n \<longrightarrow> at t e (others n)) \<and> wakes_within at gap t ts"

lemma renew_thread_alive:
  assumes "renewals_grant E G token at ttl" "gap \<le> ttl" "gap \<le> 900"
    "wakes_within at gap start wakes" "start + gap \<le> e" "at start e n"
  shows "\<exists>e' n'. renew_thread_func E G token wakes (e, n) = Some (e', n') \<and>
     at (last (start # map fst wakes)) e' n' \<and> last (start # map fst wakes) + gap \<le> e'"
  using assms(4-6)
proof (induction wakes arbitrary: start e n)
  case (Cons w ts)
  obtain t others where w: "w = (t, others)" by fastforce
  with Cons.prems have t: "t \<le> e" "wakes_within at gap t ts" "at t e (others n)" by auto
  obtain e1 n1 where 1: "renew_turn E G token t (e, others n) = Some (e1, n1)" "at t e1 n1" "t + gap \<le> e1"
  proof (cases "e - t < 900")
    case True
    obtain e' n' where "client_api_renew E G token (others n) = Some (0, Some e', n')" "t + ttl \<le> e'" "at t e' n'"
      using assms(1) t(1,3) unfolding renewals_grant_def by blast
    then show ?thesis using that True assms(2) by (simp add: renew_turn_def)
  next
    case False
    then show ?thesis using that [of e "others n"] t(3) assms(3) by (simp add: renew_turn_def)
  qed
  obtain e' n' where "renew_thread_func E G token ts (e1, n1) = Some (e', n')"
      "at (last (t # map fst ts)) e' n'" "last (t # map fst ts) + gap \<le> e'"
    using Cons.IH [OF t(2) 1(3) 1(2)] by blast
  then show ?case using 1 by (auto simp: w)
qed auto


text \<open>A server with one session, whose state is the time and the expiry, and which grants 1000 seconds.\<close>

definition clock_server :: "(int \<times> int) client_env" where
  "clock_server = \<lparr>perform = (\<lambda>r (now, e). if now \<le> e
       then (Some (Transfer [dec_of_nat (nat (now + 1000))] (Some 200)), (now, now + 1000))
       else (Some (Transfer [''expired''] (Some 403)), (now, e))),
     realloc_ok = (\<lambda>n. True), client_parse = (\<lambda>s. Some (JObject [(''expires_at'', JNumber (atoi s))])),
     client_print = (\<lambda>j. Some [])\<rparr>"

definition clock_at :: "int \<Rightarrow> int \<Rightarrow> int \<times> int \<Rightarrow> bool" where
  "clock_at now e n \<longleftrightarrow> n = (now, e) \<and> 0 \<le> now \<and> now < 1000000"

lemma clock_renews: "renewals_grant clock_server G token clock_at 1000"
proof -
  have "client_api_renew clock_server G token (now, e) = Some (0, Some (now + 1000), (now, now + 1000))"
    if "0 \<le> now" "now < 1000000" "now \<le> e" for now e
  proof -
    let ?s = "dec_of_nat (nat (now + 1000))"
    have "cstr ?s = ?s" by (rule cstr_id) (use dec_of_nat_digits [of "CHR 0x00"] in \<open>auto simp: isdigit_def\<close>)
    moreover have "atoi ?s = now + 1000" using that by (subst atoi_dec_of_nat) auto
    ultimately show ?thesis
      using that by (simp add: client_api_renew_def do_post_def do_request_def clock_server_def read_reply_def
          write_memory_cb_def cJSON_GetObjectItemCaseSensitive_def to_int64_def split: option.splits)
  qed
  then show ?thesis by (auto simp: renewals_grant_def clock_at_def)
qed


definition idle_client :: "(int \<times> int, unit) client" where
  "idle_client = \<lparr>token_file = None, net = (0, 1000), kern = ()\<rparr>"

lemma saved_token_used_witness:
  "load_token 256 (save_token True ''abc'' idle_client) = ''abc'' \<and>
   client_status clock_server (client_globals_of []) (save_token True ''abc'' idle_client) =
     map_option (\<lambda>(rc, st, n). (0, if rc = 0 then st else None, (save_token True ''abc'' idle_client)\<lparr>net := n\<rparr>))
       (client_api_status clock_server (client_globals_of []) ''abc'' (0, 1000))"
  using saved_token_used [of "''abc''" clock_server "client_globals_of []" idle_client]
    load_saved_token [of "''abc''" idle_client] by (simp add: newline_def idle_client_def)

end
