(* ===== verification/RenewRace.thy ===== *)
theory RenewRace
  imports Server
begin

text \<open>
  A run of the server of theory \<open>Server\<close> with a grace period for renewing expired sessions.
  The calls of the handlers are evaluated once, as rewrite rules on the states of the run, and
  the run is put together from them.
\<close>

section \<open>Renewal after expiry\<close>

text \<open>
  With a grace period the safety property fails: the reaper reads a session as expired, its owner
  renews it within the grace period and logs out, the next login gets the returned address, and
  then the reaper returns it once more, to be given to another login.\<close>

definition grace_world :: "wg_device list world" where
  "grace_world = late_world\<lparr>config := demo_conf\<lparr>session_renew_grace_seconds := 3600\<rparr>\<rparr>"

lemma demo_release: "ip_pool_release ''10.8.1.12/32'' (demo_pool\<lparr>bitmap := Some [159]\<rparr>) = Some (0, demo_pool\<lparr>bitmap := Some [143]\<rparr>)"
  by code_simp

lemma demo_realloc: "ip_pool_allocate 32 (demo_pool\<lparr>bitmap := Some [143]\<rparr>) = Some (Some ''10.8.1.12/32'', demo_pool\<lparr>bitmap := Some [159]\<rparr>)"
  by code_simp

lemma demo_tokens: "auth_generate_token demo_env 2 \<noteq> ''tttttttttttttttttttt''"
    "auth_generate_token demo_env 5 \<noteq> ''tttttttttttttttttttt''" "auth_generate_token demo_env 5 \<noteq> auth_generate_token demo_env 2"
  by code_simp+


lemmas run_defs = find_session_def db_get_session_by_token_def find_account_def next_sql_def
  db_get_account_by_username_def rows_read_def account_of_row_def valuestring_def
  auth_verify_password_def login_session_def count_active_def timed_sql_def time_now_def
  db_count_active_sessions_def next_rnd_def auth_generate_keypair_def allocate_ip_def add_peer_def
  wgctl_add_peer_def create_session_def db_create_session_def log_audit_def db_log_audit_def
  release_ip_def remove_peer_def wgctl_remove_peer_def revoke_session_def db_revoke_session_def update_sessions_def
  update_expiry_def db_update_session_expiry_def

lemma demo_key_len: "length (wg_key_to_base64 zero_key) = 44"
  by (rule from_to_base64 [THEN conjunct1]) (simp add: zero_key_def)

lemma demo_row: "session_of_row \<lparr>sess_id = i, account_id = a, device_pubkey = wg_key_to_base64 zero_key,
     allowed_ip = ''10.8.1.12/32'', session_token = ''tttttttttttttttttttt'', created_at = c,
     expires_at = e, revoked = r, last_seen_at = l\<rparr> = \<lparr>sess_id = i, account_id = a, device_pubkey = wg_key_to_base64 zero_key,
     allowed_ip = ''10.8.1.12/32'', session_token = ''tttttttttttttttttttt'', created_at = c,
     expires_at = e, revoked = r, last_seen_at = l\<rparr>"
  by (rule session_of_row_fits) (simp add: fits_def demo_key_len)

lemma demo_token_item: "cJSON_GetObjectItem (JObject [(''session_token'', v)]) ''session_token'' = Some v"
  by (simp add: GetObjectItem_Cons)

text \<open>The world of the run with the parts that matter: clock, counters, pool and sessions.\<close>

definition grace_at :: "nat \<Rightarrow> nat \<Rightarrow> nat \<Rightarrow> u8 \<Rightarrow> session list \<Rightarrow> int \<Rightarrow> audit_entry list \<Rightarrow> wg_device list \<Rightarrow> wg_device list world" where
  "grace_at t n i b ss next log k = \<lparr>config = demo_conf\<lparr>session_renew_grace_seconds := 3600\<rparr>, fails = fail_table_init,
     pool = demo_pool\<lparr>bitmap := Some [b]\<rparr>,
     store = \<lparr>accounts = accounts demo_db, next_account_id = 2, sessions = ss, next_session_id = next, audit_log = log\<rparr>,
     kernel = k, server_pubkey = zero_key, server_pubkey_loaded = False, clock = t, stmts = n, rnd = i\<rparr>"

definition grace_session :: "int \<Rightarrow> int \<Rightarrow> session" where
  "grace_session e r = demo_session\<lparr>expires_at := e, revoked := r\<rparr>"

definition new_session :: "int \<Rightarrow> nat \<Rightarrow> int \<Rightarrow> session" where
  "new_session i n t = \<lparr>sess_id = i, account_id = 1, device_pubkey = wg_key_to_base64 (clamp (replicate 32 (of_nat n))),
     allowed_ip = ''10.8.1.12/32'', session_token = auth_generate_token demo_env (n + 2), created_at = t + 1,
     expires_at = t + 43200, revoked = 0, last_seen_at = 0\<rparr>"

lemma grace_snapshot: "reap_snapshot demo_env (grace_at 11 0 0 159 [grace_session 10 0] 2 [] []) =
   ([session_listed (grace_session 10 0)], grace_at 12 1 0 159 [grace_session 10 0] 2 [] [])"
  by (simp add: reap_snapshot_def run_defs db_get_expired_sessions_def grace_at_def grace_session_def demo_session_def)

lemma grace_renew: "\<exists>r a. handle_renew demo_env ''tttttttttttttttttttt'' (grace_at 12 1 0 159 [grace_session 10 0] 2 [] []) =
   Some (r, grace_at 14 4 0 159 [grace_session 43212 0] 2 a [])"
  by (simp add: handle_renew_def demo_parse_def demo_token_item bad_token_length_def run_defs Let_def grace_at_def
     grace_session_def demo_session_def demo_row demo_conf_def set_default_config_def)

lemma grace_logout: "\<exists>r a k. handle_logout demo_env ''tttttttttttttttttttt'' (grace_at 14 4 0 159 [grace_session 43212 0] 2 l []) =
   Some (r, grace_at 16 7 0 143 [grace_session 43212 1] 2 a k)"
  using demo_key
  by (simp add: handle_logout_def demo_parse_def demo_token_item bad_token_length_def run_defs Let_def grace_at_def
     grace_session_def demo_session_def demo_row demo_conf_def set_default_config_def demo_release)

lemma grace_calls:
  "time_now demo_env (grace_at t n i b ss nx l k) = (int t, grace_at (Suc t) n i b ss nx l k)"
  "next_rnd (grace_at t n i b ss nx l k) = (i, grace_at t n (Suc i) b ss nx l k)"
  "rate_limited demo_env a (grace_at t n i b ss nx l k) = (False, grace_at (Suc t) n i b ss nx l k)"
  "find_account demo_env (Some ''ann'') (grace_at t n i b ss nx l k) =
     (Some \<lparr>acc_id = 1, username = ''ann'', password_hash = ''secret'', acc_created_at = 0, disabled = 0\<rparr>, grace_at t (Suc n) i b ss nx l k)"
  "count_active demo_env 1 (grace_at t n i b ss nx l k) =
     (int (length (filter (is_active 1 (int t)) ss)), grace_at (Suc t) (Suc n) i b ss nx l k)"
  "allocate_ip (grace_at t n i 143 ss nx l k) = Some (Some ''10.8.1.12/32'', grace_at t n i 159 ss nx l k)"
  "release_ip ''10.8.1.12/32'' (grace_at t n i 159 ss nx l k) = Some (grace_at t n i 143 ss nx l k)"
  "revoke_session demo_env j (grace_at t n i b ss nx l k) =
     grace_at t (Suc n) i b (map (\<lambda>s. if sess_id s = j then s\<lparr>revoked := 1\<rparr> else s) ss) nx l k"
  "session_default_ttl_seconds (config (grace_at t n i b ss nx l k)) = 43200"
  by (simp_all add: run_defs grace_at_def rate_fresh demo_db_def empty_db_def demo_realloc demo_release
    set_default_config_def demo_conf_def)

lemma grace_logs: "\<exists>l'. log_audit demo_env a act det (grace_at t n i b ss nx l k) = grace_at (Suc t) (Suc n) i b ss nx l' k"
  by (simp add: run_defs grace_at_def)

lemma grace_peer: "\<exists>k'. add_peer demo_env pub psk ip (grace_at t n i b ss nx l k) = (0, grace_at t n i b ss nx l k')"
    "\<exists>k'. remove_peer demo_env pub (grace_at t n i b ss nx l k) = grace_at t n i b ss nx l k'"
  by (simp_all add: run_defs grace_at_def Let_def)

lemma grace_create: 
  assumes "\<forall>s \<in> set ss. session_token s \<noteq> auth_generate_token demo_env (i + 2)"
  shows "create_session demo_env 1 (bin2base64 demo_env (clamp (replicate 32 (of_nat i)))) ''10.8.1.12/32''
     (auth_generate_token demo_env (i + 2)) (int t' + 43200) (grace_at (Suc t') n j b ss nx l k) =
   (0, grace_at (Suc (Suc t')) (Suc n) j b (ss @ [new_session nx i (int t')]) (nx + 1) l k)"
  using assms by (auto simp: run_defs grace_at_def new_session_def)


lemma grace_login:
  assumes "length ss < 5"
    "\<forall>s \<in> set ss. session_token s \<noteq> auth_generate_token demo_env (i + 2)"
  shows "\<exists>r l' k'. handle_login demo_env (Inet 1) ''login'' (grace_at t n i 143 ss nx l k) =
    Some (r, grace_at (t + 5) (n + 4) (i + 3) 159 (ss @ [new_session nx i (int (t + 2))]) (nx + 1) l' k')"
proof -
  have sucs: "m + 3 = Suc (Suc (Suc m))" "m + 4 = Suc (Suc (Suc (Suc m)))" "m + 5 = Suc (Suc (Suc (Suc (Suc m))))" for m
    by simp_all
  let ?pub = "clamp (replicate 32 (of_nat i))"
  obtain k' where k': "add_peer demo_env ?pub (replicate 32 (of_nat (Suc i))) ''10.8.1.12/32''
      (grace_at (t + 2) (n + 2) (i + 2) 159 ss nx l k) = (0, grace_at (t + 2) (n + 2) (i + 2) 159 ss nx l k')"
    using grace_peer(1) by blast
  let ?w = "grace_at (t + 4) (n + 3) (i + 3) 159 (ss @ [new_session nx i (int (t + 2))]) (nx + 1)"
  obtain l' where l': "log_audit demo_env 1 ''login'' ''10.8.1.12/32'' (?w l k') =
      grace_at (t + 5) (n + 4) (i + 3) 159 (ss @ [new_session nx i (int (t + 2))]) (nx + 1) l' k'"
    using grace_logs [of 1 "''login''" "''10.8.1.12/32''" "t + 4" "n + 3" "i + 3" 159
        "ss @ [new_session nx i (int (t + 2))]" "nx + 1" l k'] by (auto simp: sucs)
  have kp: "auth_generate_keypair demo_env i = (0, ?pub, ?pub)" "auth_generate_psk demo_env j = replicate 32 (of_nat j)" for j
    by (simp_all add: auth_generate_keypair_def auth_generate_psk_def WG_KEY_LEN_def Let_def)
  have "\<exists>r. login_session demo_env 1 (grace_at (t + 1) (n + 1) i 143 ss nx l k) =
    Some (r, grace_at (t + 5) (n + 4) (i + 3) 159 (ss @ [new_session nx i (int (t + 2))]) (nx + 1) l' k')"
    using k' l' grace_create [OF assms(2), of "t + 2"]
      le_less_trans [OF length_filter_le [of "is_active 1 (1 + int t)" ss] assms(1)]
    by (simp add: login_session_def grace_calls kp sucs Let_def)
  then show ?thesis
    unfolding handle_login_def demo_ip
    by (simp add: grace_calls Let_def demo_parse_def demo_items valuestring_def auth_verify_password_def) blast
qed

lemma grace_reap: "\<exists>l' k'. reap_one demo_env (session_listed (grace_session 10 0)) (grace_at t n i 159 ss nx l k) =
   Some (grace_at (t + 1) (n + 2) i 143 (map (\<lambda>s. if sess_id s = 1 then s\<lparr>revoked := 1\<rparr> else s) ss) nx l' k')"
proof -
  have s: "session_listed (grace_session 10 0) = grace_session 0 0"
    by (simp add: session_listed_def demo_row grace_session_def demo_session_def)
  have k: "key_of_text (wg_key_to_base64 zero_key) = Some zero_key" "decoded_buffer demo_env zero_key = zero_key"
    using demo_key by (auto simp: decode_key_def decoded_buffer_def demo_env_def split: option.splits if_splits)
  obtain k' where k': "remove_peer demo_env zero_key (grace_at t n i 159 ss nx l k) = grace_at t n i 159 ss nx l k'"
    using grace_peer(2) by blast
  let ?ss = "map (\<lambda>s. if sess_id s = 1 then s\<lparr>revoked := 1\<rparr> else s) ss"
  obtain l' where l': "log_audit demo_env 1 ''expired'' ''10.8.1.12/32'' (grace_at t (n + 1) i 143 ?ss nx l k') =
      grace_at (t + 1) (n + 2) i 143 ?ss nx l' k'"
    using grace_logs [of 1 "''expired''" "''10.8.1.12/32''" t "n + 1" i 143 ?ss nx l k'] by auto
  show ?thesis
    unfolding s using k' l' by (auto simp: reap_one_def grace_session_def demo_session_def grace_calls k Let_def)
qed


lemma grace_route: "route demo_env \<lparr>conn_addr = Inet 1, conn_authorization = None\<rparr> ''/login'' ''POST'' (Some ''login'') w =
    handle_login demo_env (Inet 1) ''login'' w"
  "route demo_env c ''/logout'' ''POST'' (Some ''tttttttttttttttttttt'') w = handle_logout demo_env ''tttttttttttttttttttt'' w"
  "route demo_env c ''/renew'' ''POST'' (Some ''tttttttttttttttttttt'') w = handle_renew demo_env ''tttttttttttttttttttt'' w"
  by (simp_all add: route_def body_text_def cstr_def)

lemma grace_start: "grace_world = grace_at 11 0 0 159 [grace_session 10 0] 2 [] []"
  by (simp add: grace_world_def late_world_def grace_at_def busy_world_def demo_world_def grace_session_def
      demo_session_def demo_db_def empty_db_def)

text \<open>
  C24: With a grace period for renewal the main safety property fails. From a state that satisfies
  every invariant, with one expired session and a grace period of an hour, the reaper lists the
  session, its owner renews it and logs out, another client logs in and gets the returned address,
  the reaper then returns that address a second time, and the next login gets it as well: two
  live sessions with one address.\<close>

theorem renew_race_shares_address:
  "world_ok grace_world \<and> session_renew_grace_seconds (config grace_world) = 3600 \<and>
   (\<exists>w. server_reaches demo_env (grace_world, []) (w, []) \<and>
      live_ips (store w) = [''10.8.1.12/32'', ''10.8.1.12/32''])"
proof (intro conjI)
  show "world_ok grace_world"
    using world_ok_busy by (simp add: world_ok_def grace_world_def late_world_def)
  show "session_renew_grace_seconds (config grace_world) = 3600" by (simp add: grace_world_def)
  let ?s = "grace_session 43212 1" and ?n1 = "new_session 2 0 18" and ?todo = "[session_listed (grace_session 10 0)]"
  note step = converse_rtranclp_into_rtranclp and req = server_step.request [where E = demo_env and todo = ?todo]
  have t: "session_token (grace_session e r) = ''tttttttttttttttttttt''" for e r
    by (simp add: grace_session_def demo_session_def)
  obtain r1 a1 where 1: "handle_renew demo_env ''tttttttttttttttttttt'' (grace_at 12 1 0 159 [grace_session 10 0] 2 [] []) =
      Some (r1, grace_at 14 4 0 159 [grace_session 43212 0] 2 a1 [])" using grace_renew by blast
  obtain r2 a2 k2 where 2: "handle_logout demo_env ''tttttttttttttttttttt'' (grace_at 14 4 0 159 [grace_session 43212 0] 2 a1 []) =
      Some (r2, grace_at 16 7 0 143 [?s] 2 a2 k2)" using grace_logout by blast
  obtain r3 a3 k3 where 3: "handle_login demo_env (Inet 1) ''login'' (grace_at 16 7 0 143 [?s] 2 a2 k2) =
      Some (r3, grace_at 21 11 3 159 [?s, ?n1] 3 a3 k3)"
    using grace_login [of "[?s]" 0 16 7 2 a2 k2] demo_tokens(1) [unfolded numeral_2_eq_2] t by auto
  obtain a4 k4 where 4: "reap_one demo_env (session_listed (grace_session 10 0)) (grace_at 21 11 3 159 [?s, ?n1] 3 a3 k3) =
      Some (grace_at 22 13 3 143 [?s, ?n1] 3 a4 k4)"
    using grace_reap [of 21 11 3 "[?s, ?n1]" 3 a3 k3] by (auto simp: grace_session_def new_session_def)
  obtain r5 a5 k5 where 5: "handle_login demo_env (Inet 1) ''login'' (grace_at 22 13 3 143 [?s, ?n1] 3 a4 k4) =
      Some (r5, grace_at 27 17 6 159 [?s, ?n1, new_session 3 3 24] 4 a5 k5)"
    using grace_login [of "[?s, ?n1]" 3 22 13 3 a4 k4] demo_tokens [unfolded numeral_2_eq_2] t by (auto simp: new_session_def)
  let ?w = "grace_at 27 17 6 159 [?s, ?n1, new_session 3 3 24] 4 a5 k5"
  have "live_ips (store ?w) = [''10.8.1.12/32'', ''10.8.1.12/32'']"
    by (simp add: live_ips_def grace_at_def grace_session_def demo_session_def new_session_def)
  moreover have "server_reaches demo_env (grace_world, []) (?w, [])"
    unfolding server_reaches_def grace_start
    by (rule step, rule server_step.snapshot [OF grace_snapshot], rule step, rule req [OF trans [OF grace_route(3) 1]],
        rule step, rule req [OF trans [OF grace_route(2) 2]], rule step, rule req [OF trans [OF grace_route(1) 3]],
        rule step, rule server_step.reap [OF 4], rule r_into_rtranclp,
        rule server_step.request [OF trans [OF grace_route(1) 5]])
  ultimately show "\<exists>w. server_reaches demo_env (grace_world, []) (w, []) \<and>
      live_ips (store w) = [''10.8.1.12/32'', ''10.8.1.12/32'']" by blast
qed

end
