(* ===== verification/EndToEnd.thy ===== *)
theory EndToEnd
  imports AddUser ClientMain RenewRace
begin

text \<open>
  The Linux client talking to the server. One HTTP request is the sequence of calls that
  libmicrohttpd makes to \<open>api_router\<close>: one for the headers, one for each piece of the body and
  one to answer. The theory shows that the router runs a handler exactly once on the whole body,
  and that after a login the client's configuration describes the session the server keeps.
\<close>

section \<open>One request\<close>

fun upload_pieces ::
  "'k env \<Rightarrow> connection \<Rightarrow> string \<Rightarrow> string \<Rightarrow> string list \<Rightarrow> string option option \<Rightarrow> 'k world \<Rightarrow>
   (mhd_result \<times> string option option \<times> 'k world) ub" where
  "upload_pieces E conn url verb [] con_cls w = Some (MHD_YES, con_cls, w)"
| "upload_pieces E conn url verb (p # ps) con_cls w =
     do {
       (r, con_cls, _, w) \<leftarrow> api_router E True conn url verb p con_cls w;
       if r = MHD_YES then upload_pieces E conn url verb ps con_cls w else Some (r, con_cls, w)
     }"

definition serve ::
  "'k env \<Rightarrow> connection \<Rightarrow> string \<Rightarrow> string \<Rightarrow> string list \<Rightarrow> 'k world \<Rightarrow> (mhd_result \<times> 'k world) ub" where
  "serve E conn url verb ps w =
     do {
       (_, con_cls, _, w) \<leftarrow> api_router E True conn url verb [] None w;
       (r, con_cls, w) \<leftarrow> upload_pieces E conn url verb ps con_cls w;
       if r \<noteq> MHD_YES then Some (r, w)
       else do { (r, _, _, w) \<leftarrow> api_router E True conn url verb [] con_cls w; Some (r, w) }
     }"

definition joined :: "string option \<Rightarrow> string list \<Rightarrow> string option" where
  "joined info ps = (if ps = [] then info else Some ((case info of None \<Rightarrow> [] | Some d \<Rightarrow> d) @ concat ps))"

lemma send_error_not_yes: "send_error E code msg \<noteq> MHD_YES"
  by (simp add: send_error_def send_json_response_def split: option.splits)

lemma joined_Cons: "joined (Some (case info of None \<Rightarrow> p | Some d \<Rightarrow> d @ p)) ps = joined info (p # ps)"
  by (simp add: joined_def split: option.splits)

lemma upload_outcome:
  assumes "\<forall>p \<in> set ps. p \<noteq> []" "body_size info \<le> MAX_BODY_SIZE"
  shows "if body_size (joined info ps) \<le> MAX_BODY_SIZE
    then upload_pieces E conn url verb ps (Some info) w = Some (MHD_YES, Some (joined info ps), w)
    else \<exists>c. upload_pieces E conn url verb ps (Some info) w = Some (send_error E 413 ''Request body too large'', c, w)"
  using assms
proof (induction ps arbitrary: info)
  case Nil
  then show ?case by (simp add: joined_def)
next
  case (Cons p ps)
  let ?i = "Some (case info of None \<Rightarrow> p | Some d \<Rightarrow> d @ p)"
  have sz: "body_size ?i = body_size info + length p" by (simp add: body_size_def split: option.splits)
  show ?case
  proof (cases "body_size info + length p \<le> MAX_BODY_SIZE")
    case True
    then have "api_router E True conn url verb p (Some info) w = Some (MHD_YES, Some ?i, 0, w)"
      using Cons.prems by (simp add: api_router_def)
    then have step: "upload_pieces E conn url verb (p # ps) (Some info) w = upload_pieces E conn url verb ps (Some ?i) w"
      by simp
    show ?thesis
      using Cons.IH [of ?i] Cons.prems True unfolding step joined_Cons sz by simp
  next
    case False
    then have "body_size (joined info (p # ps)) > MAX_BODY_SIZE"
      by (simp add: joined_def body_size_def split: option.splits)
    moreover have "api_router E True conn url verb p (Some info) w =
        Some (send_error E 413 ''Request body too large'', Some info, 0, w)"
      using Cons.prems False by (simp add: api_router_def)
    ultimately show ?thesis by (simp add: send_error_not_yes)
  qed
qed

lemma serve_pieces:
  assumes "\<forall>p \<in> set ps. p \<noteq> []"
  shows "serve E conn url verb ps w =
     (if length (concat ps) \<le> MAX_BODY_SIZE then route E conn url verb (joined None ps) w
      else Some (send_error E 413 ''Request body too large'', w))"
proof -
  have first: "api_router E True conn url verb [] None w = Some (MHD_YES, Some None, 0, w)"
    by (simp add: api_router_def)
  have sz: "body_size (joined None ps) = length (concat ps)"
    by (simp add: joined_def body_size_def)
  have nil: "body_size None = 0" by (simp add: body_size_def)
  have last: "api_router E True conn url verb [] (Some i) w = map_option (\<lambda>(r, w). (r, Some i, 0, w)) (route E conn url verb i w)" for i
    by (simp add: api_router_def)
  show ?thesis
    using upload_outcome [OF assms, of None E conn url verb w]
    by (cases "route E conn url verb (joined None ps) w")
      (auto simp: serve_def first last sz nil send_error_not_yes split: if_splits)
qed



section \<open>The network between client and server\<close>

text \<open>
  A request to the server at \<open>base\<close> arrives there with its path, its method and the Authorization
  header, and the answer comes back in one piece. Another address reaches nobody. \<open>ci\<close> is the
  address the server sees.\<close>

definition auth_header :: "string list \<Rightarrow> string option" where
  "auth_header hs = map_option (drop 15) (List.find (\<lambda>h. take 15 h = ''Authorization: '') hs)"

definition reply_of :: "mhd_result \<Rightarrow> transfer" where
  "reply_of r = (case r of
       Queued a \<Rightarrow> Transfer (if body a = [] then [] else [body a]) (Some (status a))
     | _ \<Rightarrow> Transfer [] None)"

definition server_perform ::
  "'k env \<Rightarrow> client_addr \<Rightarrow> string \<Rightarrow> http_request \<Rightarrow> 'k world \<Rightarrow> transfer option \<times> 'k world" where
  "server_perform E ci base r w =
     (if take (length base) (http_url r) \<noteq> base then (Some (Transfer [] None), w)
      else case serve E \<lparr>conn_addr = ci, conn_authorization = auth_header (http_headers r)\<rparr>
                  (drop (length base) (http_url r)) (if http_postfields r = None then ''GET'' else ''POST'')
                  (case http_postfields r of None \<Rightarrow> [] | Some b \<Rightarrow> if b = [] then [] else [b]) w of
             None \<Rightarrow> (Some (Transfer [] None), w)
           | Some (a, w') \<Rightarrow> (Some (reply_of a), w'))"

definition linked_client :: "'k env \<Rightarrow> client_addr \<Rightarrow> string \<Rightarrow> 'k world client_env" where
  "linked_client E ci base = \<lparr>perform = server_perform E ci base, realloc_ok = (\<lambda>n. True),
     client_parse = json_parse E, client_print = json_print E\<rparr>"

text \<open>
  What the composition needs of the JSON library: an object of strings without NUL and of numbers
  below \<open>10 ^ 15\<close> is printed to a text without NUL that parses to the same object.\<close>

definition plain_item :: "json \<Rightarrow> bool" where
  "plain_item j = (case j of JString s \<Rightarrow> CHR 0x00 \<notin> set s | JNumber n \<Rightarrow> \<bar>n\<bar> < 10 ^ 15 | _ \<Rightarrow> False)"

definition plain_object :: "json \<Rightarrow> bool" where
  "plain_object j = (case j of JObject items \<Rightarrow> (\<forall>(k, v) \<in> set items. CHR 0x00 \<notin> set k \<and> plain_item v) | _ \<Rightarrow> False)"

definition json_wire_ok :: "'k env \<Rightarrow> bool" where
  "json_wire_ok E \<longleftrightarrow> (\<forall>j s. plain_object j \<longrightarrow> json_print E j = Some s \<longrightarrow>
     s \<noteq> [] \<and> CHR 0x00 \<notin> set s \<and> json_parse E s = Some j)"

section \<open>The answer of a login\<close>

definition accepted :: "mhd_result \<Rightarrow> bool" where
  "accepted r \<longleftrightarrow> (case r of Queued a \<Rightarrow> status a = 200 | _ \<Rightarrow> False)"

lemma send_error_not_accepted [simp]: "code \<noteq> 200 \<Longrightarrow> \<not> accepted (send_error E code msg)"
  by (simp add: accepted_def send_error_def send_json_response_def split: option.splits)

lemma no_answer_not_accepted [simp]: "\<not> accepted MHD_NO" "\<not> accepted MHD_YES"
  by (simp_all add: accepted_def)

text \<open>The session behind an answer, and the texts the answer gives to the client.\<close>

definition answers_with :: "'k env \<Rightarrow> bytes \<Rightarrow> bytes \<Rightarrow> session \<Rightarrow> mhd_result \<Rightarrow> 'k world \<Rightarrow> bool" where
  "answers_with E priv psk s r w \<longleftrightarrow>
     r = send_json_response E (login_response E w (session_token s) priv psk (allowed_ip s) (expires_at s)) 200"

lemma login_session_answer:
  assumes "login_session E acc w = Some (r, w')" "accepted r"
  shows "\<exists>s pub priv psk i j l. sessions (store w') = sessions (store w) @ [s] \<and> answers_with E priv psk s r w' \<and>
     snd (auth_generate_keypair E i) = (pub, priv) \<and> psk = auth_generate_psk E j \<and> session_token s = auth_generate_token E l \<and>
     device_pubkey s = bin2base64 E pub \<and> account_id s = acc \<and> revoked s = 0"
proof -
  obtain n w1 where w1: "count_active E acc w = (n, w1)" by fastforce
  obtain i w2 where w2: "next_rnd w1 = (i, w2)" by fastforce
  obtain g pub priv where key: "auth_generate_keypair E i = (g, pub, priv)" by (metis prod_cases3)
  obtain j w3 where w3: "next_rnd w2 = (j, w3)" by fastforce
  have n: "\<not> n \<ge> 5" using assms w1 by (auto simp: login_session_def)
  have st: "store w3 = store w" using w1 w2 w3 by (auto simp: call_defs Let_def split: prod.splits if_splits)
  obtain ip w4 where w4: "allocate_ip w3 = Some (Some ip, w4)" "store w4 = store w3"
    using assms w1 w2 key w3 n
    by (auto simp: login_session_def allocate_ip_def Let_def split: bind_splits option.splits)
  obtain rc w5 where w5: "add_peer E pub (auth_generate_psk E j) ip w4 = (rc, w5)" by fastforce
  have w5s: "store w5 = store w4" using quiet_steps [OF quiet_calls(8) [OF w5]] by simp
  have rc: "rc = 0"
  proof (rule ccontr)
    assume "rc \<noteq> 0"
    then show False using assms w1 w2 key w3 n w4 w5 by (auto simp: login_session_def Let_def split: bind_splits)
  qed
  obtain l w6 where w6: "next_rnd w5 = (l, w6)" "store w6 = store w5" by (auto simp: next_rnd_def)
  obtain now w7 where w7: "time_now E w6 = (now, w7)" "store w7 = store w6" by (auto simp: time_now_def)
  obtain rc2 w8 where w8: "create_session E acc (bin2base64 E pub) ip (auth_generate_token E l)
      (now + session_default_ttl_seconds (config w7)) w7 = (rc2, w8)" by fastforce
  have rc2: "rc2 = 0"
  proof (rule ccontr)
    assume "rc2 \<noteq> 0"
    then show False using assms w1 w2 key w3 n w4 w5 rc w6 w7 w8
      by (auto simp: login_session_def Let_def split: bind_splits)
  qed
  from w8 rc2 have "create_session E acc (bin2base64 E pub) ip (auth_generate_token E l)
      (now + session_default_ttl_seconds (config w7)) w7 = (0, w8)" by simp
  then obtain s where s: "sessions (store w8) = sessions (store w7) @ [s]" "session_token s = auth_generate_token E l"
      "allowed_ip s = ip" "device_pubkey s = bin2base64 E pub" "expires_at s = now + session_default_ttl_seconds (config w7)"
      "revoked s = 0" "account_id s = acc"
    by (cases rule: create_session_cases) auto
  have r: "w' = log_audit E acc ''login'' ip w8"
      "r = send_json_response E (login_response E w' (auth_generate_token E l) priv (auth_generate_psk E j) ip
         (now + session_default_ttl_seconds (config w7))) 200"
    using assms w1 w2 key w3 n w4 w5 rc w6 w7 w8 rc2 by (auto simp: login_session_def Let_def)
  then have "answers_with E priv (auth_generate_psk E j) s r w'"
    using s by (simp add: answers_with_def)
  moreover have "sessions (store w') = sessions (store w) @ [s]"
    using r(1) s(1) w7 w6 w5s w4 st by (simp add: frame_simps)
  moreover have "snd (auth_generate_keypair E i) = (pub, priv)" using key by simp
  ultimately show ?thesis using s by blast
qed

lemma handle_login_answer:
  assumes "handle_login E ci req w = Some (r, w')" "accepted r"
  shows "\<exists>s pub priv psk i j l. sessions (store w') = sessions (store w) @ [s] \<and> answers_with E priv psk s r w' \<and>
     snd (auth_generate_keypair E i) = (pub, priv) \<and> psk = auth_generate_psk E j \<and> session_token s = auth_generate_token E l \<and>
     device_pubkey s = bin2base64 E pub \<and> revoked s = 0"
proof -
  obtain acc v where v: "login_session E acc v = Some (r, w')" "store v = store w"
    using assms
    by (auto simp: handle_login_def rate_limited_def find_account_def next_sql_def time_now_def Let_def
        split: prod.splits if_splits option.splits bind_splits)
  show ?thesis using login_session_answer [OF v(1) assms(2)] v(2) by metis
qed

section \<open>The client's side of a request\<close>

lemma server_perform_post:
  assumes "length ep > 0" "b \<noteq> []" "http_url r = base @ ep" "http_postfields r = Some b"
  shows "server_perform E ci base r w =
     (case (if length b \<le> MAX_BODY_SIZE
            then route E \<lparr>conn_addr = ci, conn_authorization = auth_header (http_headers r)\<rparr> ep ''POST'' (Some b) w
            else Some (send_error E 413 ''Request body too large'', w)) of
        None \<Rightarrow> (Some (Transfer [] None), w) | Some (a, w') \<Rightarrow> (Some (reply_of a), w'))"
proof -
  have "serve E conn ep ''POST'' [b] w = (if length b \<le> MAX_BODY_SIZE then route E conn ep ''POST'' (Some b) w
      else Some (send_error E 413 ''Request body too large'', w))" for conn
    using assms(2) serve_pieces [of "[b]" E conn ep "''POST''" w] by (simp add: joined_def)
  then show ?thesis using assms by (simp add: server_perform_def)
qed

lemma do_request_answer:
  assumes "do_request (linked_client E ci base) r w = Some (Some j, w')"
  shows "\<exists>t. server_perform E ci base r w = (Some t, w') \<and> read_reply (linked_client E ci base) t = Some (Some j)"
  using assms by (auto simp: do_request_def linked_client_def split: option.splits prod.splits)

lemma read_answer:
  assumes "read_reply (linked_client E ci base) (reply_of a) = Some (Some j)"
  shows "\<exists>r. a = Queued r \<and> accepted a \<and> body r \<noteq> [] \<and> json_parse E (cstr (body r)) = Some j"
  using assms
  by (auto simp: read_reply_def reply_of_def linked_client_def write_memory_cb_def accepted_def
      split: mhd_result.splits if_splits)

lemma read_no_answer [simp]: "read_reply (linked_client E ci base) (Transfer [] None) = Some None"
  by (simp add: read_reply_def)

lemma post_answer:
  assumes "do_post (linked_client E ci base) (client_api_init base None insecure) ep (Some b) tok w = Some (Some j, w')"
    "length base \<le> 255" "0 < length ep" "length ep \<le> 100" "b \<noteq> []"
  shows "\<exists>hs r. route E \<lparr>conn_addr = ci, conn_authorization = auth_header hs\<rparr> ep ''POST'' (Some b) w = Some (Queued r, w') \<and>
     hs = ''Content-Type: application/json'' # (case tok of None \<Rightarrow> [] | Some t \<Rightarrow> [bearer t]) \<and>
     accepted (Queued r) \<and> json_parse E (cstr (body r)) = Some j"
proof -
  let ?hs = "''Content-Type: application/json'' # (case tok of None \<Rightarrow> [] | Some t \<Rightarrow> [bearer t])"
  let ?r = "(base_request (client_api_init base None insecure) ep ?hs)\<lparr>http_postfields := Some b\<rparr>"
  have r: "http_url ?r = base @ ep" "http_postfields ?r = Some b" "http_headers ?r = ?hs"
    using assms(2,4) by (simp_all add: base_request_def client_api_init_def)
  have "do_request (linked_client E ci base) ?r w = Some (Some j, w')"
    using assms(1) by (simp add: do_post_def Let_def)
  then obtain t where t: "server_perform E ci base ?r w = (Some t, w')"
      "read_reply (linked_client E ci base) t = Some (Some j)" using do_request_answer by blast
  let ?conn = "\<lparr>conn_addr = ci, conn_authorization = auth_header ?hs\<rparr>"
  obtain a where a: "(if length b \<le> MAX_BODY_SIZE then route E ?conn ep ''POST'' (Some b) w
      else Some (send_error E 413 ''Request body too large'', w)) = Some (a, w')" "t = reply_of a"
    using t unfolding server_perform_post [OF assms(3,5) r(1,2)] r(3)
    by (auto split: option.splits)
  obtain q where q: "a = Queued q" "accepted a" "json_parse E (cstr (body q)) = Some j"
    using read_answer t(2) a(2) by blast
  have "length b \<le> MAX_BODY_SIZE"
  proof (rule ccontr)
    assume "\<not> length b \<le> MAX_BODY_SIZE"
    then have "a = send_error E 413 ''Request body too large''" using a(1) by simp
    then show False using q(2) by simp
  qed
  then show ?thesis using a(1) q by auto
qed

text \<open>A request whose body could not be printed goes out as a GET, which no handler answers.\<close>

lemma get_login_refused:
  "do_post (linked_client E ci base) (client_api_init base None insecure) ''/login'' None tok w \<noteq> Some (Some j, w')"
proof
  let ?hs = "''Content-Type: application/json'' # (case tok of None \<Rightarrow> [] | Some t \<Rightarrow> [bearer t])"
  let ?r = "(base_request (client_api_init base None insecure) ''/login'' ?hs)\<lparr>http_postfieldsize := Some 0\<rparr>"
  assume "do_post (linked_client E ci base) (client_api_init base None insecure) ''/login'' None tok w = Some (Some j, w')"
  then have "do_request (linked_client E ci base) ?r w = Some (Some j, w')"
    by (simp add: do_post_def Let_def)
  then obtain t where t: "server_perform E ci base ?r w = (Some t, w')"
      "read_reply (linked_client E ci base) t = Some (Some j)" using do_request_answer by blast
  have f: "http_postfields ?r = None" by (simp add: base_request_def)
  have "serve E conn url ''GET'' [] w = route E conn url ''GET'' None w" for conn url
    using serve_pieces [of "[]" E conn url "''GET''" w] by (simp add: joined_def)
  then obtain a url conn where a: "t = Transfer [] None \<or> route E conn url ''GET'' None w = Some (a, w') \<and> t = reply_of a"
      "url = drop (length base) (http_url ?r)"
    using t(1) f by (auto simp: server_perform_def split: if_splits option.splits)
  have "url \<noteq> ''/status''"
  proof -
    have "http_url ?r = take 255 base @ ''/login''" by (simp add: base_request_def client_api_init_def)
    moreover have "drop n ''/login'' \<noteq> ''/status''" for n
      by (rule notI, drule arg_cong [of _ _ length]) simp
    ultimately show ?thesis using a(2) by (cases "length base \<le> 255") auto
  qed
  then have "t = Transfer [] None \<or> t = reply_of a \<and> \<not> accepted a" using a(1) by (auto simp: route_def)
  then show False using t(2) read_answer [of E ci base a j] by (elim disjE) auto
qed

section \<open>Login from end to end\<close>

text \<open>The texts and numbers of an answer are such that JSON carries them.\<close>

definition wire_plain :: "'k env \<Rightarrow> 'k world \<Rightarrow> bool" where
  "wire_plain E w \<longleftrightarrow> (\<forall>k. CHR 0x00 \<notin> set (bin2base64 E k) \<and> CHR 0x00 \<notin> set (bin2base64url E k)) \<and>
     CHR 0x00 \<notin> set (endpoint_public_addr (config w)) \<and> CHR 0x00 \<notin> set (ip_pool_cidr (config w)) \<and>
     CHR 0x00 \<notin> set (dns (config w)) \<and>
     (\<forall>n. \<bar>sys_time E n + session_default_ttl_seconds (config w)\<bar> < 10 ^ 15)"

lemma string_request_plain:
  assumes "\<forall>(k, v) \<in> set fs. CHR 0x00 \<notin> set k \<and> CHR 0x00 \<notin> set v"
  shows "plain_object (string_request fs)"
proof -
  have "plain_object (fold (\<lambda>(k, v). cJSON_AddItem k (JString v)) fs (JObject items))"
    if "plain_object (JObject items)" for items
    using assms that
    by (induction fs arbitrary: items) (auto simp: cJSON_AddItem_def plain_object_def plain_item_def)
  then show ?thesis by (simp add: string_request_def cJSON_CreateObject_def plain_object_def)
qed

lemma live_ip_plain:
  assumes "world_ok w" "s \<in> set (sessions (store w))" "revoked s = 0"
  shows "CHR 0x00 \<notin> set (allowed_ip s) \<and> length (allowed_ip s) \<le> 31"
proof -
  have "allowed_ip s \<in> held_ips (pool w)"
    using assms by (auto simp: world_ok_def book.consistent_def pool.leased_def live_ips_def)
  then obtain a where "allowed_ip s = ip_string a" by (auto simp: held_ips_def)
  moreover have "CHR 0x00 \<notin> set (ip_string a)"
    by (auto simp: ip_string_def inet_ntop4_def Let_def isdigit_def dest!: dec_of_nat_digits)
  moreover have "length (allowed_ip s) \<le> 31"
    using assms by (auto simp: world_ok_def db_ok_def fits_def)
  ultimately show ?thesis by simp
qed

lemma config_of_login_response:
  assumes "length token \<le> 63" "length (bin2base64 E priv) \<le> 63" "length ip \<le> 63" "length (bin2base64 E psk) \<le> 63"
    "config_ok (config w)" "\<bar>e\<bar> < 10 ^ 15"
  shows "config_of_reply (login_response E w token priv psk ip e) = Some
    \<lparr>cl_session_token = token, cl_client_private_key_b64 = bin2base64 E priv, cl_client_address = ip,
     cl_server_public_key_b64 = take 63 (if server_pubkey_loaded w then bin2base64 E (server_pubkey w) else ''<UNKNOWN>''),
     cl_preshared_key_b64 = bin2base64 E psk, cl_endpoint = endpoint_public_addr (config w),
     cl_allowed_ips = ip_pool_cidr (config w), cl_dns = dns (config w), cl_expires_at = e\<rparr>"
proof -
  have "to_int64 e = Some e" using assms(6) by (auto simp: to_int64_def)
  then show ?thesis
    using assms by (simp add: config_of_reply_def login_response_def copy_string_field_def number_field_def
        cJSON_GetObjectItemCaseSensitive_def config_ok_def)
qed

text \<open>
  What an accepted login means: one new live session, and a reply that describes it, which JSON
  carries to the client.\<close>

definition describes :: "'k env \<Rightarrow> 'k world \<Rightarrow> session \<Rightarrow> bytes \<Rightarrow> bytes \<Rightarrow> json \<Rightarrow> bool" where
  "describes E w s priv psk j \<longleftrightarrow> (\<exists>w' pub i. config w' = config w \<and>
     j = login_response E w' (session_token s) priv psk (allowed_ip s) (expires_at s) \<and>
     snd (auth_generate_keypair E i) = (pub, priv) \<and> device_pubkey s = bin2base64 E pub \<and>
     length (session_token s) \<le> 63 \<and> length (bin2base64 E priv) \<le> 63 \<and> length (bin2base64 E psk) \<le> 63 \<and>
     length (allowed_ip s) \<le> 31 \<and> \<bar>expires_at s\<bar> < 10 ^ 15)"

lemma accepted_login:
  assumes "services_ok E" "json_wire_ok E" "world_ok w" "wire_plain E w"
    "handle_login E ci b w = Some (Queued r, w')" "accepted (Queued r)" "json_parse E (cstr (body r)) = Some j"
  shows "\<exists>s priv psk. sessions (store w') = sessions (store w) @ [s] \<and> revoked s = 0 \<and> describes E w s priv psk j"
proof -
  obtain s pub priv psk i n l where s: "sessions (store w') = sessions (store w) @ [s]" "answers_with E priv psk s (Queued r) w'"
      "snd (auth_generate_keypair E i) = (pub, priv)" "psk = auth_generate_psk E n" "session_token s = auth_generate_token E l"
      "device_pubkey s = bin2base64 E pub" "revoked s = 0"
    using handle_login_answer [OF assms(5,6)] by metis
  have out: "world_ok w'" "config w' = config w" "\<exists>t. expires_at s = sys_time E t + session_default_ttl_seconds (config w)"
    using handle_login_outcome [OF assms(1,3), of b ci] assms(5) s(1) by (auto simp: world_mono_def opens_for_def)
  have e: "\<bar>expires_at s\<bar> < 10 ^ 15" using out(3) assms(4) by (auto simp: wire_plain_def)
  have ip: "CHR 0x00 \<notin> set (allowed_ip s)" "length (allowed_ip s) \<le> 31"
    using live_ip_plain [OF out(1), of s] s(1,7) by auto
  let ?resp = "login_response E w' (session_token s) priv psk (allowed_ip s) (expires_at s)"
  have "plain_object ?resp"
    using assms(4) e ip(1) out(2) s(5)
    by (auto simp: plain_object_def login_response_def plain_item_def wire_plain_def auth_generate_token_def)
  moreover obtain printed where "json_print E ?resp = Some printed" "body r = printed"
    using s(2) assms(6) by (auto simp: answers_with_def send_json_response_def accepted_def split: option.splits)
  ultimately have "json_parse E (cstr (body r)) = Some ?resp"
    using assms(2) cstr_id by (auto simp: json_wire_ok_def)
  then have "j = ?resp" using assms(7) by simp
  moreover have "length priv = WG_KEY_LEN"
    using keypair_length [OF assms(1), of i "fst (auth_generate_keypair E i)" pub priv] s(3) by (metis prod.collapse)
  ultimately have "describes E w s priv psk j"
    unfolding describes_def using assms(1) s e ip out(2)
    by (intro exI [of _ w'] exI [of _ pub] exI [of _ i])
      (auto simp: services_ok_def auth_generate_token_def auth_generate_psk_def WG_KEY_LEN_def)
  then show ?thesis using s(1,7) by blast
qed

text \<open>
  Login from end to end. When a login of the Linux client against this server succeeds, the
  server has added exactly one session, live, and the client's configuration describes it: its
  token, its address and its expiry are those of the session, the public key registered with the
  session belongs to the private key the client got, and endpoint, networks and DNS are those of
  the server's configuration. Assumed: the sizes of the library's texts, that JSON carries plain
  objects, and an address of the server that fits the client's buffer.\<close>

lemma login_described:
  assumes "services_ok E" "json_wire_ok E" "world_ok w" "config_ok (config w)" "wire_plain E w" "length base \<le> 255"
    "CHR 0x00 \<notin> set user" "CHR 0x00 \<notin> set pw"
    "client_api_login (linked_client E ci base) (client_api_init base None insecure) user pw w = Some (0, Some cfg, w')"
  shows "\<exists>s pub priv i. sessions (store w') = sessions (store w) @ [s] \<and> revoked s = 0 \<and>
     cl_session_token cfg = session_token s \<and> cl_client_address cfg = allowed_ip s \<and> cl_expires_at cfg = expires_at s \<and>
     snd (auth_generate_keypair E i) = (pub, priv) \<and> device_pubkey s = bin2base64 E pub \<and>
     cl_client_private_key_b64 cfg = bin2base64 E priv \<and> cl_endpoint cfg = endpoint_public_addr (config w) \<and>
     cl_allowed_ips cfg = ip_pool_cidr (config w) \<and> cl_dns cfg = dns (config w)"
proof -
  let ?req = "string_request [(''username'', user), (''password'', pw)]"
  obtain j where post: "do_post (linked_client E ci base) (client_api_init base None insecure) ''/login''
      (json_print E ?req) None w = Some (Some j, w')" and cfg: "config_of_reply j = Some cfg"
    using assms(9) by (auto simp: client_api_login_def linked_client_def split: bind_splits option.splits)
  have plain: "plain_object ?req" using assms(7,8) by (intro string_request_plain) auto
  obtain b where b: "json_print E ?req = Some b" "b \<noteq> []" "CHR 0x00 \<notin> set b"
  proof (cases "json_print E ?req")
    case None
    then show thesis using post by (simp add: get_login_refused)
  next
    case (Some b)
    then show thesis using that assms(2) plain by (auto simp: json_wire_ok_def)
  qed
  obtain hs r where r: "route E \<lparr>conn_addr = ci, conn_authorization = auth_header hs\<rparr> ''/login'' ''POST'' (Some b) w =
      Some (Queued r, w')" "accepted (Queued r)" "json_parse E (cstr (body r)) = Some j"
    using post_answer [OF post [unfolded b(1)] assms(6) _ _ b(2)] by auto
  then have login: "handle_login E ci b w = Some (Queued r, w')"
    using cstr_id [OF b(3)] by (simp add: route_def body_text_def)
  obtain s priv psk where s: "sessions (store w') = sessions (store w) @ [s]" "revoked s = 0" "describes E w s priv psk j"
    using accepted_login [OF assms(1-3,5) login r(2,3)] by blast
  obtain v pub i where d: "config v = config w" "j = login_response E v (session_token s) priv psk (allowed_ip s) (expires_at s)"
      "snd (auth_generate_keypair E i) = (pub, priv)" "device_pubkey s = bin2base64 E pub"
      "length (session_token s) \<le> 63" "length (bin2base64 E priv) \<le> 63" "length (bin2base64 E psk) \<le> 63"
      "length (allowed_ip s) \<le> 31" "\<bar>expires_at s\<bar> < 10 ^ 15"
    using s(3) unfolding describes_def by blast
  have "config_ok (config v)" using assms(4) d(1) by simp
  then show ?thesis
    using cfg config_of_login_response [of "session_token s" E priv "allowed_ip s" psk v "expires_at s"] d s(1,2) by auto
qed

end
