(* ===== verification/CDouble.thy ===== *)
theory CDouble
  imports CLib Complex_Main
begin

text \<open>
  The C type \<open>double\<close> as far as the JSON library uses it: a finite double is the rational
  number it stands for (the sign of zero is never seen), results are rounded to 53 bits with
  ties to even, and \<open>strtod\<close> and the \<open>%g\<close> conversion of \<open>printf\<close> are the functions of the C
  standard in the C locale, correctly rounded as glibc does. The theory shows that integers
  of up to fifteen digits go through text unchanged.
\<close>

section \<open>Rounding\<close>

datatype double = Fin rat | Inf bool | NaN

definition round_half_even :: "rat \<Rightarrow> int" where
  "round_half_even q =
     (let n = \<lfloor>q\<rfloor>; f = q - of_int n in
      if f < 1 / 2 then n else if f > 1 / 2 then n + 1 else if even n then n else n + 1)"

fun nbits :: "nat \<Rightarrow> nat" where
  "nbits n = (if n = 0 then 0 else Suc (nbits (n div 2)))"

declare nbits.simps [simp del]

definition rat_power :: "nat \<Rightarrow> int \<Rightarrow> rat" where
  "rat_power b e = (if e \<ge> 0 then of_nat (b ^ nat e) else 1 / of_nat (b ^ nat (- e)))"

text \<open>The exponent of the leading bit and of the leading decimal digit of a positive number.\<close>

definition bit_exponent :: "rat \<Rightarrow> int" where
  "bit_exponent a =
     (let (p, r) = quotient_of a; k = int (nbits (nat p)) - int (nbits (nat r))
      in if a \<ge> rat_power 2 k then k else k - 1)"

definition dec_exponent :: "rat \<Rightarrow> int" where
  "dec_exponent a =
     (let (p, r) = quotient_of a in
      if p \<ge> r then int (length (dec_of_nat (nat (p div r)))) - 1
      else - int (length (dec_of_nat (nat ((r + p - 1) div p - 1)))))"

definition round_double :: "rat \<Rightarrow> double" where
  "round_double q =
     (if q = 0 then Fin 0
      else let e = max (-1074) (bit_exponent \<bar>q\<bar> - 52);
               v = of_int (round_half_even (\<bar>q\<bar> / rat_power 2 e)) * rat_power 2 e
           in if v \<ge> rat_power 2 1024 then Inf (q < 0) else Fin (if q < 0 then - v else v))"

definition INT_MAX :: int where "INT_MAX = 2147483647"
definition INT_MIN :: int where "INT_MIN = -2147483648"

text \<open>\<open>(int) d\<close> for a double in range: truncation toward zero.\<close>

definition truncate :: "rat \<Rightarrow> int" where
  "truncate q = (if q < 0 then \<lceil>q\<rceil> else \<lfloor>q\<rfloor>)"

section \<open>Text to double\<close>

text \<open>
  \<open>strtod\<close> on a text of the characters that \<open>parse_number\<close> lets through: the value and the rest,
  \<open>None\<close> when there is no number. An exponent counts only with at least one digit.\<close>

definition strtod_exponent :: "string \<Rightarrow> int \<times> string" where
  "strtod_exponent s =
     (case s of
        c # t \<Rightarrow>
          if c = CHR ''e'' \<or> c = CHR ''E'' then
            let neg = (t \<noteq> [] \<and> hd t = CHR ''-'');
                u = (if t \<noteq> [] \<and> (hd t = CHR ''-'' \<or> hd t = CHR ''+'') then tl t else t);
                ds = takeWhile isdigit u
            in if ds = [] then (0, s)
               else (if neg then - int (digits_val ds) else int (digits_val ds), dropWhile isdigit u)
          else (0, s)
      | [] \<Rightarrow> (0, s))"

definition strtod :: "string \<Rightarrow> (double \<times> string) option" where
  "strtod s =
     (let neg = (s \<noteq> [] \<and> hd s = CHR ''-'');
          t = (if s \<noteq> [] \<and> (hd s = CHR ''-'' \<or> hd s = CHR ''+'') then tl s else s);
          ip = takeWhile isdigit t; u = dropWhile isdigit t;
          fp = (if u \<noteq> [] \<and> hd u = CHR ''.'' then takeWhile isdigit (tl u) else []);
          v = (if u \<noteq> [] \<and> hd u = CHR ''.'' then dropWhile isdigit (tl u) else u)
      in if ip = [] \<and> fp = [] then None
         else let (e, rest) = strtod_exponent v;
                  q = of_nat (digits_val (ip @ fp)) * rat_power 10 (e - int (length fp))
              in Some (round_double (if neg then - q else q), rest))"

section \<open>Double to text\<close>

definition strip_zeros :: "string \<Rightarrow> string" where
  "strip_zeros ds = rev (dropWhile (\<lambda>c. c = CHR ''0'') (rev ds))"

definition fraction :: "string \<Rightarrow> string" where
  "fraction ds = (if strip_zeros ds = [] then [] else CHR ''.'' # strip_zeros ds)"

text \<open>The conversion \<open>%.Pg\<close> of a finite double.\<close>

definition format_g :: "nat \<Rightarrow> rat \<Rightarrow> string" where
  "format_g P q =
     (if q = 0 then ''0''
      else let x = dec_exponent \<bar>q\<bar>;
               m = round_half_even (\<bar>q\<bar> * rat_power 10 (int P - 1 - x));
               (x, m) = (if m = 10 ^ P then (x + 1, 10 ^ (P - 1)) else (x, m));
               ds = dec_of_nat (nat m);
               body = (if x < -4 \<or> x \<ge> int P
                 then hd ds # fraction (tl ds) @ CHR ''e'' # (if x < 0 then CHR ''-'' else CHR ''+'') #
                   (if \<bar>x\<bar> < 10 then CHR ''0'' # dec_of_nat (nat \<bar>x\<bar>) else dec_of_nat (nat \<bar>x\<bar>))
                 else if x \<ge> 0 then take (nat x + 1) ds @ fraction (drop (nat x + 1) ds)
                 else CHR ''0'' # CHR ''.'' # replicate (nat (- x) - 1) (CHR ''0'') @ strip_zeros ds)
           in if q < 0 then CHR ''-'' # body else body)"

section \<open>Integers\<close>

lemma round_half_even_int [simp]: "round_half_even (of_int n) = n"
  by (simp add: round_half_even_def)

lemma nbits_bounds: "n > 0 \<Longrightarrow> 2 ^ (nbits n - 1) \<le> n \<and> n < 2 ^ nbits n"
proof (induction n rule: nbits.induct)
  case (1 n)
  show ?case
  proof (cases "n div 2 = 0")
    case True
    with "1.prems" have "n = 1" by simp
    then show ?thesis by (simp add: nbits.simps)
  next
    case False
    then have ih: "2 ^ (nbits (n div 2) - 1) \<le> n div 2" "n div 2 < 2 ^ nbits (n div 2)"
      using 1 by auto
    have s: "nbits n = Suc (nbits (n div 2))" using "1.prems" by (subst nbits.simps) simp
    have "0 < nbits (n div 2)" using False by (subst nbits.simps) simp
    then have "2 ^ nbits (n div 2) = 2 * (2 ^ (nbits (n div 2) - 1) :: nat)"
      by (simp flip: power_Suc)
    moreover have "n = 2 * (n div 2) + n mod 2" "n mod 2 < 2" by simp_all
    ultimately have "2 * 2 ^ (nbits (n div 2) - 1) \<le> n" "n < 2 * 2 ^ nbits (n div 2)"
      using ih by linarith+
    then show ?thesis using \<open>2 ^ nbits (n div 2) = _\<close> by (simp add: s)
  qed
qed

lemma nbits_pos: "n > 0 \<Longrightarrow> 0 < nbits n"
  by (subst nbits.simps) simp

lemma nbits_le: assumes "n < 2 ^ k" shows "nbits n \<le> k"
proof (cases "n = 0")
  case False
  then have "2 ^ (nbits n - 1) < (2 :: nat) ^ k" using nbits_bounds [of n] assms by (meson le_less_trans neq0_conv)
  then have "nbits n - 1 < k" by (simp only: power_strict_increasing_iff)
  then show ?thesis by simp
qed (simp add: nbits.simps)

lemma bit_exponent_int: assumes "n > 0" shows "bit_exponent (of_int n) = int (nbits (nat n)) - 1"
proof -
  have one: "nbits (Suc 0) = 1" by (simp add: nbits.simps)
  have "2 ^ (nbits (nat n) - 1) \<le> nat n" using nbits_bounds [of "nat n"] assms by simp
  then have "(of_nat (2 ^ (nbits (nat n) - 1)) :: rat) \<le> of_nat (nat n)" by (simp only: of_nat_le_iff)
  moreover have "nat (int (nbits (nat n)) - 1) = nbits (nat n) - 1" by simp
  ultimately show ?thesis
    using assms nbits_pos [of "nat n"]
    by (simp add: bit_exponent_def quotient_of_int Let_def one rat_power_def)
qed

lemma round_double_int:
  assumes "\<bar>n\<bar> < 2 ^ 53"
  shows "round_double (of_int n) = Fin (of_int n)"
proof (cases "n = 0")
  case False
  let ?a = "\<bar>n\<bar>" and ?k = "nbits (nat \<bar>n\<bar>)"
  have k: "1 \<le> ?k" "?k \<le> 53"
    using nbits_le [of "nat ?a" 53] nbits_pos [of "nat ?a"] assms False by auto
  let ?e = "int ?k - 53"
  have e: "max (-1074) (bit_exponent \<bar>of_int n :: rat\<bar> - 52) = ?e"
    using bit_exponent_int [of ?a] False k by (simp flip: of_int_abs)
  have p: "rat_power 2 ?e = 1 / 2 ^ (53 - ?k)"
    using k by (cases "?k = 53") (auto simp: rat_power_def nat_diff_distrib' of_nat_diff)
  have "\<bar>of_int n\<bar> / rat_power 2 ?e = of_int (?a * 2 ^ (53 - ?k))"
    by (simp add: p)
  then have "round_half_even (\<bar>of_int n\<bar> / rat_power 2 ?e) = ?a * 2 ^ (53 - ?k)"
    by (simp only: round_half_even_int)
  then have v: "of_int (round_half_even (\<bar>of_int n\<bar> / rat_power 2 ?e)) * rat_power 2 ?e = (of_int ?a :: rat)"
    by (simp add: p)
  have "(of_int ?a :: rat) < of_int (2 ^ 53)" using assms by (simp only: of_int_less_iff)
  also have "(of_int (2 ^ 53) :: rat) \<le> rat_power 2 1024"
    by (simp add: rat_power_def)
  finally show ?thesis
    using False v unfolding round_double_def Let_def e by auto
qed (simp add: round_double_def)

lemma dec_bounds: "n > 0 \<Longrightarrow> 10 ^ (length (dec_of_nat n) - 1) \<le> n \<and> n < 10 ^ length (dec_of_nat n)"
proof (induction n rule: dec_of_nat.induct)
  case (1 n)
  show ?case
  proof (cases "n < 10")
    case True
    then show ?thesis using "1.prems" by (simp add: dec_of_nat.simps)
  next
    case False
    let ?l = "length (dec_of_nat (n div 10))"
    have ih: "10 ^ (?l - 1) \<le> n div 10" "n div 10 < 10 ^ ?l" using 1 False by auto
    have l: "length (dec_of_nat n) = Suc ?l" using False by (subst dec_of_nat.simps) simp
    have "0 < ?l" by simp
    then have "10 ^ ?l = 10 * (10 ^ (?l - 1) :: nat)" by (simp flip: power_Suc)
    moreover have "n = 10 * (n div 10) + n mod 10" "n mod 10 < 10" by simp_all
    ultimately have "10 ^ ?l \<le> n" "n < 10 * 10 ^ ?l" using ih by linarith+
    then show ?thesis by (simp add: l)
  qed
qed

lemma digit_char_zero [simp]: "digit_char 0 = CHR ''0''"
  by code_simp

lemma dec_times_ten: "n > 0 \<Longrightarrow> dec_of_nat (n * 10) = dec_of_nat n @ ''0''"
  by (subst dec_of_nat.simps) simp

lemma dec_times_power: "n > 0 \<Longrightarrow> dec_of_nat (n * 10 ^ k) = dec_of_nat n @ replicate k (CHR ''0'')"
proof (induction k)
  case (Suc k)
  then show ?case
    using dec_times_ten [of "n * 10 ^ k"] by (simp add: mult.assoc mult.left_commute [of 10] replicate_append_same mult.commute)
qed simp

lemma fraction_zeros [simp]: "fraction (replicate k (CHR ''0'')) = []"
  by (simp add: fraction_def strip_zeros_def)

lemma format_g_fixed:
  assumes "q \<noteq> 0" "dec_exponent \<bar>q\<bar> = x" "round_half_even (\<bar>q\<bar> * rat_power 10 (int P - 1 - x)) = m"
    "m \<noteq> 10 ^ P" "0 \<le> x" "x < int P"
  shows "format_g P q = (if q < 0 then [CHR ''-''] else []) @
     take (nat x + 1) (dec_of_nat (nat m)) @ fraction (drop (nat x + 1) (dec_of_nat (nat m)))"
  using assms by (simp add: format_g_def Let_def)

lemma format_g_int:
  assumes "\<bar>n\<bar> < 10 ^ 15"
  shows "format_g 15 (of_int n) = dec_of_int n"
proof (cases "n = 0")
  case True
  then show ?thesis by (simp add: format_g_def dec_of_int_def dec_of_nat.simps)
next
  case False
  let ?a = "nat \<bar>n\<bar>" and ?l = "length (dec_of_nat (nat \<bar>n\<bar>))"
  have a: "0 < ?a" "?a < 10 ^ 15" using assms False by auto
  have b: "10 ^ (?l - 1) \<le> ?a" "?a < 10 ^ ?l" using dec_bounds [OF a(1)] by auto
  have l: "1 \<le> ?l" "?l \<le> 15"
  proof -
    have "10 ^ (?l - 1) < (10 :: nat) ^ 15" using b(1) a(2) by (rule le_less_trans)
    then have "?l - 1 < 15" by (simp only: power_strict_increasing_iff)
    then show "?l \<le> 15" by simp
    show "1 \<le> ?l" by (cases "dec_of_nat ?a") auto
  qed
  let ?k = "15 - ?l"
  have "1 \<le> \<bar>n\<bar>" using False by simp
  then have x: "dec_exponent \<bar>of_int n\<bar> = int ?l - 1"
    using \<open>1 \<le> \<bar>n\<bar>\<close> by (simp add: dec_exponent_def quotient_of_int flip: of_int_abs)
  have p: "rat_power 10 (int 15 - 1 - (int ?l - 1)) = of_nat (10 ^ ?k)"
    using l by (simp add: rat_power_def nat_diff_distrib')
  have "\<bar>of_int n\<bar> * rat_power 10 (int 15 - 1 - (int ?l - 1)) = of_int (int (?a * 10 ^ ?k))"
    unfolding p by simp
  then have m: "round_half_even (\<bar>of_int n\<bar> * rat_power 10 (int 15 - 1 - (int ?l - 1))) = int (?a * 10 ^ ?k)"
    by (simp only: round_half_even_int)
  have "?a * 10 ^ ?k < 10 ^ ?l * 10 ^ ?k" using b(2) by simp
  also have "\<dots> = 10 ^ 15" using l by (simp flip: power_add)
  finally have lt: "?a * 10 ^ ?k < 10 ^ 15" .
  have ne: "int (?a * 10 ^ ?k) \<noteq> 10 ^ 15"
  proof
    assume "int (?a * 10 ^ ?k) = 10 ^ 15"
    then have "int (?a * 10 ^ ?k) = int (10 ^ 15)" unfolding of_nat_power [of 10] of_nat_numeral .
    then show False using lt unfolding of_nat_eq_iff by (simp only: less_irrefl)
  qed
  have q: "of_int n \<noteq> (0 :: rat)" using False by simp
  have r: "0 \<le> int ?l - 1" "int ?l - 1 < int 15" using l by simp_all
  have "format_g 15 (of_int n) = (if of_int n < (0 :: rat) then [CHR ''-''] else []) @
     take (nat (int ?l - 1) + 1) (dec_of_nat (nat (int (?a * 10 ^ ?k)))) @
     fraction (drop (nat (int ?l - 1) + 1) (dec_of_nat (nat (int (?a * 10 ^ ?k)))))"
    by (rule format_g_fixed [OF q x m ne r])
  also have "nat (int ?l - 1) + 1 = ?l" using l by simp
  also have "dec_of_nat (nat (int (?a * 10 ^ ?k))) = dec_of_nat ?a @ replicate ?k (CHR ''0'')"
    unfolding nat_int by (rule dec_times_power [OF a(1)])
  finally show ?thesis by (simp add: dec_of_int_def)
qed

lemma isdigit_split: "takeWhile isdigit (dec_of_nat n @ r) = dec_of_nat n @ takeWhile isdigit r"
    "dropWhile isdigit (dec_of_nat n @ r) = dropWhile isdigit r"
  using dec_of_nat_digits by (auto simp: takeWhile_append dropWhile_append)

definition number_ends :: "string \<Rightarrow> bool" where
  "number_ends r \<longleftrightarrow> r = [] \<or> \<not> isdigit (hd r) \<and> hd r \<notin> {CHR ''.'', CHR ''e'', CHR ''E''}"

lemma strtod_dec:
  assumes "number_ends r"
  shows "strtod (dec_of_int n @ r) = Some (round_double (of_int n), r)"
proof -
  have r: "takeWhile isdigit r = []" "dropWhile isdigit r = r" "r \<noteq> [] \<longrightarrow> hd r \<noteq> CHR ''.''" "strtod_exponent r = (0, r)"
    using assms by (auto simp: number_ends_def strtod_exponent_def takeWhile_eq_Nil_iff dropWhile_eq_self_iff split: list.splits)
  have h: "hd (dec_of_nat m @ s) \<noteq> CHR ''-''" "hd (dec_of_nat m @ s) \<noteq> CHR ''+''" for m s
    using dec_of_nat_digits [of "hd (dec_of_nat m)" m] isdigit_not_sign by (auto simp: hd_append)
  have "strtod (dec_of_nat m @ r) = Some (round_double (of_nat m), r)" for m
    using h [of m r] r by (auto simp: strtod_def isdigit_split rat_power_def Let_def)
  moreover have "strtod (CHR ''-'' # dec_of_nat m @ r) = Some (round_double (- of_nat m), r)" for m
    using r by (auto simp: strtod_def isdigit_split rat_power_def Let_def)
  ultimately show ?thesis by (simp add: dec_of_int_def)
qed

end
