(* ===== verification/CJson.thy ===== *)
theory CJson
  imports CDouble
begin

text \<open>
  The JSON library, \<open>windows/client/src/cJSON.c\<close>: its items, its parser and its printer. The
  server and the Linux client use the same library as a system package. A parse buffer is the
  list of its bytes and an offset; a printbuffer keeps the bytes before its offset and its
  allocated length, and writing past that length is undefined behaviour (\<open>None\<close>). Here an item
  is a value: allocations of items succeed and children are lists. Items in memory, with pointers
  and allocations that fail, are the subject of theory \<open>CJsonHeap\<close> and those that
  import it; \<open>CJsonMemory\<close> has the parser there.
\<close>

section \<open>Items\<close>

text \<open>
  \<open>CNumber\<close> carries \<open>valueint\<close> and \<open>valuedouble\<close>. A \<open>valuestring\<close> or a name is \<open>None\<close> when it
  is NULL.\<close>

datatype cjson = CInvalid | CNull | CFalse | CTrue | CNumber int double
  | CString "string option" | CRaw "string option" | CArray "cjson list"
  | CObject "(string option \<times> cjson) list"

definition CJSON_NESTING_LIMIT :: nat where "CJSON_NESTING_LIMIT = 1000"

text \<open>Saturation at the limits of \<open>int\<close>; the conversion of NaN gives \<open>INT_MIN\<close> on the platform.\<close>

definition saturate :: "double \<Rightarrow> int" where
  "saturate d =
     (case d of
        Fin q \<Rightarrow> if q \<ge> of_int INT_MAX then INT_MAX else if q \<le> of_int INT_MIN then INT_MIN else truncate q
      | Inf neg \<Rightarrow> if neg then INT_MIN else INT_MAX
      | NaN \<Rightarrow> INT_MIN)"

definition cJSON_CreateNumber :: "double \<Rightarrow> cjson" where
  "cJSON_CreateNumber num = CNumber (saturate num) num"

section \<open>Reading\<close>

datatype 'a presult = Parsed 'a nat | Failed nat | NoFuel

definition char_at :: "string \<Rightarrow> nat \<Rightarrow> char option" where
  "char_at c off = (case drop off c of [] \<Rightarrow> None | x # _ \<Rightarrow> Some x)"

definition is_ws :: "char \<Rightarrow> bool" where
  "is_ws x \<longleftrightarrow> (of_char x :: nat) \<le> 32"

text \<open>Skipping to the end of the buffer steps back to its last byte.\<close>

definition buffer_skip_whitespace :: "string \<Rightarrow> nat \<Rightarrow> nat" where
  "buffer_skip_whitespace c off =
     (if off < length c then
        let o' = off + length (takeWhile is_ws (drop off c)) in
        if o' = length c then o' - 1 else o'
      else off)"

definition utf8_bom :: string where
  "utf8_bom = [CHR 0xEF, CHR 0xBB, CHR 0xBF]"

definition skip_utf8_bom :: "string \<Rightarrow> nat" where
  "skip_utf8_bom c = (if 4 < length c \<and> take 3 c = utf8_bom then 3 else 0)"

section \<open>Numbers and strings\<close>

definition is_number_char :: "char \<Rightarrow> bool" where
  "is_number_char x \<longleftrightarrow> isdigit x \<or> x \<in> {CHR ''+'', CHR ''-'', CHR ''e'', CHR ''E'', CHR ''.''}"

definition parse_number :: "string \<Rightarrow> nat \<Rightarrow> cjson presult" where
  "parse_number c off =
     (let s = takeWhile is_number_char (drop off c) in
      case strtod s of
        None \<Rightarrow> Failed off
      | Some (number, after_end) \<Rightarrow> Parsed (CNumber (saturate number) number) (off + (length s - length after_end)))"

definition hex_digit :: "char \<Rightarrow> nat option" where
  "hex_digit x =
     (let v = of_char x :: nat in
      if 48 \<le> v \<and> v \<le> 57 then Some (v - 48)
      else if 65 \<le> v \<and> v \<le> 70 then Some (10 + v - 65)
      else if 97 \<le> v \<and> v \<le> 102 then Some (10 + v - 97)
      else None)"

text \<open>A byte that is no hexadecimal digit makes the value 0.\<close>

definition parse_hex4 :: "string \<Rightarrow> nat" where
  "parse_hex4 input =
     (case foldl (\<lambda>h x. case (h, hex_digit x) of (Some h, Some d) \<Rightarrow> Some (16 * h + d) | _ \<Rightarrow> None)
          (Some 0) (take 4 input) of None \<Rightarrow> 0 | Some h \<Rightarrow> h)"

fun utf8_bytes :: "nat \<Rightarrow> nat \<Rightarrow> nat \<Rightarrow> string" where
  "utf8_bytes first_byte_mark len codepoint =
     (if len \<le> 1 then [char_of ((codepoint OR first_byte_mark) AND 0xFF)]
      else utf8_bytes first_byte_mark (len - 1) (drop_bit 6 codepoint) @ [char_of ((codepoint OR 0x80) AND 0xBF)])"

declare utf8_bytes.simps [simp del]

definition encode_utf8 :: "nat \<Rightarrow> string" where
  "encode_utf8 codepoint =
     (if codepoint < 0x80 then [char_of (codepoint AND 0x7F)]
      else if codepoint < 0x800 then utf8_bytes 0xC0 2 codepoint
      else if codepoint < 0x10000 then utf8_bytes 0xE0 3 codepoint
      else utf8_bytes 0xF0 4 codepoint)"

text \<open>The input up to the closing quote, from the backslash on; the length of the sequence and its bytes.\<close>

definition utf16_literal_to_utf8 :: "string \<Rightarrow> (nat \<times> string) option" where
  "utf16_literal_to_utf8 s =
     (if length s < 6 then None
      else let first_code = parse_hex4 (drop 2 s) in
      if 0xDC00 \<le> first_code \<and> first_code \<le> 0xDFFF then None
      else if 0xD800 \<le> first_code \<and> first_code \<le> 0xDBFF then
        let t = drop 6 s in
        if length t < 6 then None
        else if t ! 0 \<noteq> CHR 0x5C \<or> t ! 1 \<noteq> CHR ''u'' then None
        else let second_code = parse_hex4 (drop 2 t) in
          if second_code < 0xDC00 \<or> second_code > 0xDFFF then None
          else Some (12, encode_utf8 (0x10000 + (push_bit 10 (first_code AND 0x3FF) OR (second_code AND 0x3FF))))
      else Some (6, encode_utf8 first_code))"

definition simple_escape :: "char \<Rightarrow> char option" where
  "simple_escape x =
     (if x = CHR ''b'' then Some (CHR 0x08) else if x = CHR ''f'' then Some (CHR 0x0C)
      else if x = CHR ''n'' then Some (CHR 0x0A) else if x = CHR ''r'' then Some (CHR 0x0D)
      else if x = CHR ''t'' then Some (CHR 0x09)
      else if x \<in> {CHR 0x22, CHR 0x5C, CHR ''/''} then Some x else None)"

text \<open>The bytes before the closing quote.\<close>

fun string_end :: "string \<Rightarrow> nat option" where
  "string_end [] = None"
| "string_end (x # s) =
     (if x = CHR 0x22 then Some 0
      else if x = CHR 0x5C then (case s of [] \<Rightarrow> None | _ # r \<Rightarrow> map_option (\<lambda>n. n + 2) (string_end r))
      else map_option Suc (string_end s))"

text \<open>
  The loop over the literal: its bytes, or how far it came. A backslash as the last byte, which
  the search for the closing quote excludes, would read the quote.\<close>

definition further :: "nat \<Rightarrow> string \<Rightarrow> nat + string \<Rightarrow> nat + string" where
  "further n out r = (case r of Inl k \<Rightarrow> Inl (n + k) | Inr t \<Rightarrow> Inr (out @ t))"

function unescape :: "string \<Rightarrow> nat + string" where
  "unescape [] = Inr []"
| "unescape (x # s) =
     (if x \<noteq> CHR 0x5C then further 1 [x] (unescape s)
      else case s of
        [] \<Rightarrow> Inr [CHR 0x22]
      | y # r \<Rightarrow>
          if y = CHR ''u'' then
            (case utf16_literal_to_utf8 (x # s) of
               None \<Rightarrow> Inl 0
             | Some (n, out) \<Rightarrow> further n out (unescape (drop (n - 2) r)))
          else (case simple_escape y of
              None \<Rightarrow> Inl 0
            | Some z \<Rightarrow> further 2 [z] (unescape r)))"
  by pat_completeness auto
termination by (relation "measure length") auto

text \<open>The value is the C string of the output: a decoded NUL ends it.\<close>

definition parse_string :: "string \<Rightarrow> nat \<Rightarrow> string presult" where
  "parse_string c off =
     (if char_at c off \<noteq> Some (CHR 0x22) then Failed (off + 1)
      else let body = drop (off + 1) c in
      case string_end body of
        None \<Rightarrow> Failed (off + 1)
      | Some n \<Rightarrow>
          (case unescape (take n body) of
             Inl k \<Rightarrow> Failed (off + 1 + k)
           | Inr out \<Rightarrow> Parsed (cstr out) (off + n + 2)))"

section \<open>The parser\<close>

text \<open>
  The three mutually recursive parsers with the fuel \<open>n\<close>: a value, the elements of an array from
  the byte before the next one, and the members of an object likewise. \<open>depth\<close> is the nesting
  depth of the buffer.\<close>

definition starts :: "string \<Rightarrow> nat \<Rightarrow> string \<Rightarrow> bool" where
  "starts c off s \<longleftrightarrow> take (length s) (drop off c) = s"

fun parse_value :: "nat \<Rightarrow> string \<Rightarrow> nat \<Rightarrow> nat \<Rightarrow> cjson presult"
  and parse_elements :: "nat \<Rightarrow> string \<Rightarrow> nat \<Rightarrow> nat \<Rightarrow> cjson list presult"
  and parse_members :: "nat \<Rightarrow> string \<Rightarrow> nat \<Rightarrow> nat \<Rightarrow> (string option \<times> cjson) list presult" where
  "parse_value n c depth off =
     (if n = 0 then NoFuel
      else if starts c off ''null'' then Parsed CNull (off + 4)
      else if starts c off ''false'' then Parsed CFalse (off + 5)
      else if starts c off ''true'' then Parsed CTrue (off + 4)
      else if char_at c off = Some (CHR 0x22) then
        (case parse_string c off of Parsed s o' \<Rightarrow> Parsed (CString (Some s)) o' | Failed o' \<Rightarrow> Failed o' | NoFuel \<Rightarrow> NoFuel)
      else if (case char_at c off of None \<Rightarrow> False | Some x \<Rightarrow> x = CHR ''-'' \<or> isdigit x) then parse_number c off
      else if char_at c off = Some (CHR ''['') then
        (if depth \<ge> CJSON_NESTING_LIMIT then Failed off
         else let o1 = buffer_skip_whitespace c (off + 1) in
           if char_at c o1 = Some (CHR '']'') then Parsed (CArray []) (o1 + 1)
           else if char_at c o1 = None then Failed (o1 - 1)
           else (case parse_elements (n - 1) c (depth + 1) (o1 - 1) of
               Parsed vs o' \<Rightarrow> Parsed (CArray vs) (o' + 1) | Failed o' \<Rightarrow> Failed o' | NoFuel \<Rightarrow> NoFuel))
      else if char_at c off = Some (CHR 0x7B) then
        (if depth \<ge> CJSON_NESTING_LIMIT then Failed off
         else let o1 = buffer_skip_whitespace c (off + 1) in
           if char_at c o1 = Some (CHR 0x7D) then Parsed (CObject []) (o1 + 1)
           else if char_at c o1 = None then Failed (o1 - 1)
           else (case parse_members (n - 1) c (depth + 1) (o1 - 1) of
               Parsed vs o' \<Rightarrow> Parsed (CObject vs) (o' + 1) | Failed o' \<Rightarrow> Failed o' | NoFuel \<Rightarrow> NoFuel))
      else Failed off)"
| "parse_elements n c depth pos =
     (if n = 0 then NoFuel
      else (case parse_value (n - 1) c depth (buffer_skip_whitespace c (pos + 1)) of
          Parsed v o1 \<Rightarrow>
            let o2 = buffer_skip_whitespace c o1 in
            if char_at c o2 = Some (CHR '','') then
              (case parse_elements (n - 1) c depth o2 of Parsed vs o' \<Rightarrow> Parsed (v # vs) o' | r \<Rightarrow> r)
            else if char_at c o2 = Some (CHR '']'') then Parsed [v] o2
            else Failed o2
        | Failed o1 \<Rightarrow> Failed o1 | NoFuel \<Rightarrow> NoFuel))"
| "parse_members n c depth pos =
     (if n = 0 then NoFuel
      else if char_at c (pos + 1) = None then Failed pos
      else (case parse_string c (buffer_skip_whitespace c (pos + 1)) of
          Parsed k o1 \<Rightarrow>
            let o2 = buffer_skip_whitespace c o1 in
            if char_at c o2 \<noteq> Some (CHR '':'') then Failed o2
            else (case parse_value (n - 1) c depth (buffer_skip_whitespace c (o2 + 1)) of
                Parsed v o3 \<Rightarrow>
                  let o4 = buffer_skip_whitespace c o3 in
                  if char_at c o4 = Some (CHR '','') then
                    (case parse_members (n - 1) c depth o4 of Parsed vs o' \<Rightarrow> Parsed ((Some k, v) # vs) o' | r \<Rightarrow> r)
                  else if char_at c o4 = Some (CHR 0x7D) then Parsed [(Some k, v)] o4
                  else Failed o4
              | Failed o3 \<Rightarrow> Failed o3 | NoFuel \<Rightarrow> NoFuel)
        | Failed o1 \<Rightarrow> Failed o1 | NoFuel \<Rightarrow> NoFuel))"

declare parse_value.simps [simp del] parse_elements.simps [simp del] parse_members.simps [simp del]

text \<open>
  The buffer holds \<open>buffer_length\<close> bytes. The result is the item and the offset where parsing
  ended, or the error position.\<close>

definition parse_fuel :: "string \<Rightarrow> nat" where
  "parse_fuel c = 2 * length c + 2"

definition cJSON_ParseWithLengthOpts :: "string \<Rightarrow> bool \<Rightarrow> cjson presult" where
  "cJSON_ParseWithLengthOpts c require_null_terminated =
     (if c = [] then Failed 0
      else case parse_value (parse_fuel c) c 0 (buffer_skip_whitespace c (skip_utf8_bom c)) of
        Parsed item off \<Rightarrow>
          if require_null_terminated then
            let off = buffer_skip_whitespace c off in
            if char_at c off \<noteq> Some (CHR 0x00) then Failed (min off (length c - 1)) else Parsed item off
          else Parsed item off
      | Failed off \<Rightarrow> Failed (min off (length c - 1))
      | NoFuel \<Rightarrow> NoFuel)"

definition cJSON_ParseWithOpts :: "string \<Rightarrow> bool \<Rightarrow> cjson presult" where
  "cJSON_ParseWithOpts value require_null_terminated =
     cJSON_ParseWithLengthOpts (cstr value @ [CHR 0x00]) require_null_terminated"

definition cJSON_Parse :: "string \<Rightarrow> cjson option" where
  "cJSON_Parse value = (case cJSON_ParseWithOpts value False of Parsed item _ \<Rightarrow> Some item | _ \<Rightarrow> None)"

end
