(* ===== verification/CJsonTotal.thy ===== *)
theory CJsonTotal
  imports CJson
begin

text \<open>
  The JSON parser ends on every input: each recursive call starts at a later byte, so the fuel of
  \<open>parse_fuel\<close> never runs out, and a parser that succeeds stays inside the buffer.
\<close>

section \<open>Progress\<close>

lemma skip_ge: "off \<le> buffer_skip_whitespace c off"
proof (cases "off < length c")
  case True
  then show ?thesis by (auto simp: buffer_skip_whitespace_def Let_def)
qed (simp add: buffer_skip_whitespace_def)

lemma skip_inside: "off \<le> length c \<Longrightarrow> buffer_skip_whitespace c off \<le> length c"
  using length_takeWhile_le [of is_ws "drop off c"] by (auto simp: buffer_skip_whitespace_def Let_def)

lemma char_at_inside: "char_at c off \<noteq> None \<longleftrightarrow> off < length c"
  by (auto simp: char_at_def split: list.splits) (metis drop_eq_Nil leI list.distinct(1))

lemma char_at_Some: "char_at c off = Some x \<Longrightarrow> off < length c"
  using char_at_inside by fastforce

lemma starts_inside: "starts c off (x # s) \<Longrightarrow> off + length (x # s) \<le> length c"
  unfolding starts_def by (metis length_drop length_take list.distinct(1) list.size(3) min.absorb_iff1 min_def
    add_diff_cancel_left' diff_is_0_eq le_add_diff_inverse length_0_conv nat_add_left_cancel_le nat_le_linear)

lemma exponent_rest: "length (snd (strtod_exponent v)) \<le> length v"
  using length_dropWhile_le [of isdigit]
  by (auto simp: strtod_exponent_def Let_def split: list.splits intro: le_trans [OF length_dropWhile_le] le_SucI)

lemma split_length: "length (takeWhile P xs) + length (dropWhile P xs) = length xs"
  by (metis length_append takeWhile_dropWhile_id)

lemma strtod_consumes:
  assumes "strtod s = Some (d, rest)"
  shows "length rest < length s"
proof -
  obtain t where t: "t = (if s \<noteq> [] \<and> (hd s = CHR ''-'' \<or> hd s = CHR ''+'') then tl s else s)" by simp
  obtain u where u: "u = dropWhile isdigit t" by simp
  obtain fp where fp: "fp = (if u \<noteq> [] \<and> hd u = CHR ''.'' then takeWhile isdigit (tl u) else [])" by simp
  obtain v where v: "v = (if u \<noteq> [] \<and> hd u = CHR ''.'' then dropWhile isdigit (tl u) else u)" by simp
  obtain e r where er: "strtod_exponent v = (e, r)" by fastforce
  note a = assms [unfolded strtod_def Let_def, folded t, folded u, folded fp, folded v, unfolded er prod.case]
  have ne: "\<not> (takeWhile isdigit t = [] \<and> fp = [])"
    by (rule notI) (use a in \<open>simp only: simp_thms if_True option.distinct\<close>)
  then have r: "rest = r" using a by (simp only: if_False option.inject prod.inject)
  have "length fp + length v \<le> length u"
    using split_length [of isdigit "tl u"] by (cases "u \<noteq> [] \<and> hd u = CHR ''.''") (auto simp: fp v)
  moreover have "length (takeWhile isdigit t) + length u = length t" unfolding u by (rule split_length)
  moreover have "length t \<le> length s" by (simp add: t)
  moreover have "0 < length (takeWhile isdigit t) + length fp" using ne by auto
  moreover have "length r \<le> length v" using exponent_rest [of v] er by simp
  ultimately show ?thesis unfolding r by linarith
qed

text \<open>A parser that started at \<open>off\<close>: it has not run out of fuel, and on success it moved on.\<close>

definition ends_well :: "string \<Rightarrow> nat \<Rightarrow> 'a presult \<Rightarrow> bool" where
  "ends_well c off r \<longleftrightarrow> (case r of Parsed _ o' \<Rightarrow> off < o' \<and> o' \<le> length c | Failed _ \<Rightarrow> True | NoFuel \<Rightarrow> False)"

lemma ends_well_simps [simp]:
  "ends_well c off (Parsed v o') \<longleftrightarrow> off < o' \<and> o' \<le> length c" "ends_well c off (Failed k)" "\<not> ends_well c off NoFuel"
  by (simp_all add: ends_well_def)

lemma number_ends_well: "ends_well c off (parse_number c off)"
proof -
  let ?s = "takeWhile is_number_char (drop off c)"
  have "length ?s \<le> length c - off" using length_takeWhile_le [of is_number_char "drop off c"] by simp
  then show ?thesis
    using strtod_consumes [of ?s] by (fastforce simp: parse_number_def Let_def split: option.splits)
qed

lemma string_end_less: "string_end s = Some n \<Longrightarrow> n < length s"
  by (induction s arbitrary: n rule: string_end.induct) (auto split: if_splits list.splits)

lemma string_ends_well: "ends_well c off (parse_string c off)"
  using string_end_less [of "drop (off + 1) c"]
  by (fastforce simp: parse_string_def Let_def split: option.splits sum.splits)

lemma ends_well_case:
  assumes "\<And>v o'. r = Parsed v o' \<Longrightarrow> ends_well c off (f v o')" "r \<noteq> NoFuel"
  shows "ends_well c off (case r of Parsed v o' \<Rightarrow> f v o' | Failed k \<Rightarrow> Failed k | NoFuel \<Rightarrow> NoFuel)"
  using assms by (cases r) simp_all

lemma ends_well_if:
  "(P \<Longrightarrow> ends_well c off a) \<Longrightarrow> (\<not> P \<Longrightarrow> ends_well c off b) \<Longrightarrow> ends_well c off (if P then a else b)"
  by simp

lemma ends_well_fuel: "ends_well c off r \<Longrightarrow> r \<noteq> NoFuel"
  by auto

text \<open>What follows an element or a member: the rest of the list or its end.\<close>

lemma list_tail_ends:
  assumes "pos < o2" "char_at c o2 = Some sep \<Longrightarrow> ends_well c o2 r"
  shows "ends_well c pos (if char_at c o2 = Some sep then (case r of Parsed vs o' \<Rightarrow> Parsed (f vs) o' | Failed k \<Rightarrow> Failed k | NoFuel \<Rightarrow> NoFuel)
      else if char_at c o2 = Some stop then Parsed g o2 else Failed o2)"
proof (cases "char_at c o2 = Some sep")
  case True
  then have "ends_well c o2 r" by (rule assms(2))
  then show ?thesis using True assms(1) by (cases r) auto
qed (use assms(1) in \<open>auto simp: less_imp_le dest: char_at_Some\<close>)

section \<open>The recursive parsers\<close>

lemma elements_step:
  assumes v: "\<And>p. pos < p \<Longrightarrow> ends_well c p (parse_value (n - 1) c depth p)"
    and es: "\<And>p. pos < p \<Longrightarrow> p < length c \<Longrightarrow> ends_well c p (parse_elements (n - 1) c depth p)"
    and n: "n \<noteq> 0"
  shows "ends_well c pos (parse_elements n c depth pos)"
proof -
  let ?p = "buffer_skip_whitespace c (pos + 1)"
  have p: "pos < ?p" using skip_ge [of "pos + 1" c] by simp
  show ?thesis
    unfolding parse_elements.simps [of n] if_not_P [OF n] Let_def
  proof (rule ends_well_case)
    fix x o1
    assume "parse_value (n - 1) c depth ?p = Parsed x o1"
    then have t: "pos < buffer_skip_whitespace c o1" using v [OF p] skip_ge [of o1 c] p by simp
    show "ends_well c pos (if char_at c (buffer_skip_whitespace c o1) = Some (CHR '','')
        then (case parse_elements (n - 1) c depth (buffer_skip_whitespace c o1) of
            Parsed vs o' \<Rightarrow> Parsed (x # vs) o' | Failed k \<Rightarrow> Failed k | NoFuel \<Rightarrow> NoFuel)
        else if char_at c (buffer_skip_whitespace c o1) = Some (CHR '']'') then Parsed [x] (buffer_skip_whitespace c o1)
        else Failed (buffer_skip_whitespace c o1))"
      by (rule list_tail_ends [OF t]) (rule es [OF t], rule char_at_Some)
  qed (rule ends_well_fuel, rule v [OF p])
qed

lemma members_step:
  assumes v: "\<And>p. pos < p \<Longrightarrow> ends_well c p (parse_value (n - 1) c depth p)"
    and es: "\<And>p. pos < p \<Longrightarrow> p < length c \<Longrightarrow> ends_well c p (parse_members (n - 1) c depth p)"
    and n: "n \<noteq> 0"
  shows "ends_well c pos (parse_members n c depth pos)"
proof (cases "char_at c (pos + 1) = None")
  case False
  let ?p = "buffer_skip_whitespace c (pos + 1)"
  have p: "pos < ?p" using skip_ge [of "pos + 1" c] by simp
  show ?thesis
    unfolding parse_members.simps [of n] if_not_P [OF n] if_not_P [OF False] Let_def
  proof (rule ends_well_case)
    fix k o1
    assume k: "parse_string c ?p = Parsed k o1"
    let ?o2 = "buffer_skip_whitespace c o1"
    let ?q = "buffer_skip_whitespace c (?o2 + 1)"
    have q: "pos < ?q"
      using k string_ends_well [of c ?p] skip_ge [of o1 c] skip_ge [of "?o2 + 1" c] p by simp
    have "ends_well c pos (case parse_value (n - 1) c depth ?q of
                Parsed x o3 \<Rightarrow>
                  (if char_at c (buffer_skip_whitespace c o3) = Some (CHR '','') then
                    (case parse_members (n - 1) c depth (buffer_skip_whitespace c o3) of
                       Parsed vs o' \<Rightarrow> Parsed ((Some k, x) # vs) o' | Failed k \<Rightarrow> Failed k | NoFuel \<Rightarrow> NoFuel)
                  else if char_at c (buffer_skip_whitespace c o3) = Some (CHR 0x7D) then
                    Parsed [(Some k, x)] (buffer_skip_whitespace c o3)
                  else Failed (buffer_skip_whitespace c o3))
              | Failed o3 \<Rightarrow> Failed o3 | NoFuel \<Rightarrow> NoFuel)"
    proof (rule ends_well_case)
      fix x o3
      assume "parse_value (n - 1) c depth ?q = Parsed x o3"
      then have t: "pos < buffer_skip_whitespace c o3" using v [OF q] skip_ge [of o3 c] q by simp
      show "ends_well c pos (if char_at c (buffer_skip_whitespace c o3) = Some (CHR '','') then
                    (case parse_members (n - 1) c depth (buffer_skip_whitespace c o3) of
                       Parsed vs o' \<Rightarrow> Parsed ((Some k, x) # vs) o' | Failed k \<Rightarrow> Failed k | NoFuel \<Rightarrow> NoFuel)
                  else if char_at c (buffer_skip_whitespace c o3) = Some (CHR 0x7D) then
                    Parsed [(Some k, x)] (buffer_skip_whitespace c o3)
                  else Failed (buffer_skip_whitespace c o3))"
        by (rule list_tail_ends [OF t]) (rule es [OF t], rule char_at_Some)
    qed (rule ends_well_fuel, rule v [OF q])
    then show "ends_well c pos (if char_at c ?o2 \<noteq> Some (CHR '':'') then Failed ?o2
        else (case parse_value (n - 1) c depth ?q of
                Parsed x o3 \<Rightarrow>
                  (if char_at c (buffer_skip_whitespace c o3) = Some (CHR '','') then
                    (case parse_members (n - 1) c depth (buffer_skip_whitespace c o3) of
                       Parsed vs o' \<Rightarrow> Parsed ((Some k, x) # vs) o' | Failed k \<Rightarrow> Failed k | NoFuel \<Rightarrow> NoFuel)
                  else if char_at c (buffer_skip_whitespace c o3) = Some (CHR 0x7D) then
                    Parsed [(Some k, x)] (buffer_skip_whitespace c o3)
                  else Failed (buffer_skip_whitespace c o3))
              | Failed o3 \<Rightarrow> Failed o3 | NoFuel \<Rightarrow> NoFuel))"
      by (simp only: ends_well_simps simp_thms split: if_split)
  qed (rule ends_well_fuel, rule string_ends_well)
qed (simp add: parse_members.simps [of n] n)

lemma elements_end: "parse_elements n c depth pos = Parsed vs o' \<Longrightarrow> o' < length c"
proof (induction n arbitrary: pos vs)
  case (Suc n)
  then show ?case
    by (auto simp: parse_elements.simps [of "Suc n"] Let_def dest: char_at_Some split: presult.splits if_splits)
qed (simp add: parse_elements.simps)

lemma members_end: "parse_members n c depth pos = Parsed ms o' \<Longrightarrow> o' < length c"
proof (induction n arbitrary: pos ms)
  case (Suc n)
  then show ?case
    by (auto simp: parse_members.simps [of "Suc n"] Let_def dest: char_at_Some split: presult.splits if_splits)
qed (simp add: parse_members.simps)

lemma bracket_ends:
  assumes "\<And>p. off \<le> p \<Longrightarrow> p < length c \<Longrightarrow> ends_well c p (f p)"
    "\<And>p vs o'. f p = Parsed vs o' \<Longrightarrow> o' < length c"
  shows "ends_well c off (if depth \<ge> CJSON_NESTING_LIMIT then Failed off
     else if char_at c (buffer_skip_whitespace c (off + 1)) = Some stop then Parsed e (buffer_skip_whitespace c (off + 1) + 1)
     else if char_at c (buffer_skip_whitespace c (off + 1)) = None then Failed (buffer_skip_whitespace c (off + 1) - 1)
     else (case f (buffer_skip_whitespace c (off + 1) - 1) of
        Parsed vs o' \<Rightarrow> Parsed (g vs) (o' + 1) | Failed k \<Rightarrow> Failed k | NoFuel \<Rightarrow> NoFuel))"
proof -
  obtain q where q: "buffer_skip_whitespace c (off + 1) = q" "off < q" using skip_ge [of "off + 1" c] by fastforce
  have "ends_well c off (case f (q - 1) of Parsed vs o' \<Rightarrow> Parsed (g vs) (o' + 1) | Failed k \<Rightarrow> Failed k | NoFuel \<Rightarrow> NoFuel)"
    if "q < length c"
  proof -
    have f: "ends_well c (q - 1) (f (q - 1))" using q(2) that by (intro assms(1)) auto
    show ?thesis
    proof (rule ends_well_case)
      fix vs o'
      assume p: "f (q - 1) = Parsed vs o'"
      then show "ends_well c off (Parsed (g vs) (o' + 1))"
        using f q(2) assms(2) [OF p] by simp
    qed (rule ends_well_fuel, rule f)
  qed
  moreover have "char_at c q \<noteq> None \<Longrightarrow> q < length c" using char_at_inside by blast
  ultimately show ?thesis
    unfolding q(1) using q(2) by (auto dest: char_at_Some)
qed

lemma value_step:
  assumes es: "\<And>p. off \<le> p \<Longrightarrow> p < length c \<Longrightarrow> ends_well c p (parse_elements (n - 1) c (depth + 1) p)"
    and ms: "\<And>p. off \<le> p \<Longrightarrow> p < length c \<Longrightarrow> ends_well c p (parse_members (n - 1) c (depth + 1) p)"
    and n: "n \<noteq> 0"
  shows "ends_well c off (parse_value n c depth off)"
proof -
  have str: "ends_well c off (case parse_string c off of
      Parsed s o' \<Rightarrow> Parsed (CString (Some s)) o' | Failed o' \<Rightarrow> Failed o' | NoFuel \<Rightarrow> NoFuel)"
    using string_ends_well [of c off] by (cases "parse_string c off") auto
  note arr = bracket_ends [OF es elements_end, where stop = "CHR '']''" and e = "CArray []" and g = CArray]
  note obj = bracket_ends [OF ms members_end, where stop = "CHR 0x7D" and e = "CObject []" and g = CObject]
  have lit: "ends_well c off (Parsed v (off + k))" if "starts c off s" "length s = k" "0 < k" for s k and v :: cjson
    using starts_inside [of c off "hd s" "tl s"] that by (cases s) auto
  show ?thesis
    unfolding parse_value.simps [of n] if_not_P [OF n] Let_def
    by (rule ends_well_if, rule lit, assumption, simp, simp)+
      (rule ends_well_if, rule str, rule ends_well_if, rule number_ends_well, rule ends_well_if, rule arr, assumption+,
        rule ends_well_if, rule obj, assumption+, simp)
qed

lemma parsers_end:
  "(\<forall>off depth. 2 * (length c - off) < n \<longrightarrow> ends_well c off (parse_value n c depth off)) \<and>
   (\<forall>off depth. off < length c \<longrightarrow> 2 * (length c - off) \<le> n \<longrightarrow> ends_well c off (parse_elements n c depth off) \<and>
      ends_well c off (parse_members n c depth off))"
proof (induction n)
  case (Suc n)
  have v: "ends_well c p (parse_value n c depth p)" if "off < p" "off < length c" "2 * (length c - off) \<le> Suc n" for off p depth
    using Suc that by simp
  have es: "ends_well c p (parse_elements n c depth p) \<and> ends_well c p (parse_members n c depth p)"
    if "off \<le> p" "p < length c" "2 * (length c - off) \<le> n" for off p depth
    using Suc that by simp
  have "ends_well c off (parse_value (Suc n) c depth off)" if "2 * (length c - off) < Suc n" for off depth
    using es [of off] that by (intro value_step) auto
  moreover have "ends_well c off (parse_elements (Suc n) c depth off)" if "off < length c" "2 * (length c - off) \<le> Suc n" for off depth
  proof (rule elements_step)
    fix p
    assume "off < p"
    then show "ends_well c p (parse_value (Suc n - 1) c depth p)" using v that by simp
    show "ends_well c p (parse_elements (Suc n - 1) c depth p)" if "p < length c"
      using es [of p p] that \<open>off < p\<close> \<open>off < length c\<close> \<open>2 * (length c - off) \<le> Suc n\<close> by simp
  qed simp
  moreover have "ends_well c off (parse_members (Suc n) c depth off)" if "off < length c" "2 * (length c - off) \<le> Suc n" for off depth
  proof (rule members_step)
    fix p
    assume "off < p"
    then show "ends_well c p (parse_value (Suc n - 1) c depth p)" using v that by simp
    show "ends_well c p (parse_members (Suc n - 1) c depth p)" if "p < length c"
      using es [of p p] that \<open>off < p\<close> \<open>off < length c\<close> \<open>2 * (length c - off) \<le> Suc n\<close> by simp
  qed simp
  ultimately show ?case by blast
qed simp

lemma parse_within:
  "case cJSON_ParseWithLengthOpts c strict of
     Parsed item off \<Rightarrow> off \<le> length c | Failed off \<Rightarrow> off \<le> length c - 1 | NoFuel \<Rightarrow> False"
proof (cases "c = []")
  case False
  let ?off = "buffer_skip_whitespace c (skip_utf8_bom c)"
  have "2 * (length c - ?off) < parse_fuel c" by (simp add: parse_fuel_def)
  then have e: "ends_well c ?off (parse_value (parse_fuel c) c 0 ?off)"
    using parsers_end [of c "parse_fuel c"] by blast
  show ?thesis
  proof (cases "parse_value (parse_fuel c) c 0 ?off")
    case (Parsed item off)
    then have "off \<le> length c" using e by simp
    then show ?thesis
      using False Parsed skip_inside [of off c]
      by (simp only: cJSON_ParseWithLengthOpts_def if_False presult.case Let_def split: if_split) simp
  qed (use False e in \<open>auto simp: cJSON_ParseWithLengthOpts_def\<close>)
qed (simp add: cJSON_ParseWithLengthOpts_def)

text \<open>
  C19: Parsing ends on every input, also on one that is no JSON: with the fuel of the model, two
  calls for every byte, the parser returns an item and an end inside the buffer, or an error
  position inside it.\<close>

theorem parse_ends:
  "case cJSON_ParseWithLengthOpts c strict of
     Parsed item off \<Rightarrow> off \<le> length c | Failed off \<Rightarrow> off \<le> length c - 1 | NoFuel \<Rightarrow> False"
  by (rule parse_within)

end
