(* ===== verification/CJsonPrint.thy ===== *)
theory CJsonPrint
  imports CJson
begin

text \<open>
  The printer of the JSON library. The theory shows that no write leaves the allocated buffer,
  also for a buffer of the caller that must not grow, and that what is printed is the text of a
  plain recursive function.
\<close>

section \<open>The print buffer\<close>

text \<open>\<open>pb_grow n\<close> says whether the allocator delivers a buffer of \<open>n\<close> bytes.\<close>

record printbuffer =
  pb_text :: string
  pb_length :: nat
  pb_depth :: nat
  pb_noalloc :: bool
  pb_format :: bool
  pb_grow :: "nat \<Rightarrow> bool"

definition ensure :: "nat \<Rightarrow> printbuffer \<Rightarrow> printbuffer option" where
  "ensure needed p =
     (if pb_length p > 0 \<and> length (pb_text p) \<ge> pb_length p then None
      else if int needed > INT_MAX then None
      else let needed = needed + length (pb_text p) + 1 in
      if needed \<le> pb_length p then Some p
      else if pb_noalloc p then None
      else if int needed > INT_MAX div 2 \<and> int needed > INT_MAX then None
      else let newsize = (if int needed > INT_MAX div 2 then nat INT_MAX else needed * 2) in
        if pb_grow p newsize then Some (p\<lparr>pb_length := newsize\<rparr>) else None)"

text \<open>
  Writing \<open>s\<close> and \<open>extra\<close> more bytes (a terminating NUL that the next write overwrites); then a
  function that reserves \<open>needed\<close> bytes and writes. A call returns false as \<open>Some None\<close>.\<close>

definition put :: "string \<Rightarrow> nat \<Rightarrow> printbuffer \<Rightarrow> printbuffer ub" where
  "put s extra p =
     (if length (pb_text p) + length s + extra \<le> pb_length p then Some (p\<lparr>pb_text := pb_text p @ s\<rparr>) else None)"

definition emit :: "nat \<Rightarrow> string \<Rightarrow> nat \<Rightarrow> printbuffer \<Rightarrow> printbuffer option ub" where
  "emit needed s extra p =
     (case ensure needed p of None \<Rightarrow> Some None | Some p \<Rightarrow> map_option Some (put s extra p))"

text \<open>The second step only if the first returned true.\<close>

definition and_then :: "printbuffer option ub \<Rightarrow> (printbuffer \<Rightarrow> printbuffer option ub) \<Rightarrow> printbuffer option ub" where
  "and_then r f = (case r of Some (Some p) \<Rightarrow> f p | _ \<Rightarrow> r)"

section \<open>Numbers and strings\<close>

definition compare_double :: "double \<Rightarrow> double \<Rightarrow> bool" where
  "compare_double a b =
     (case (a, b) of
        (Fin x, Fin y) \<Rightarrow>
          (case (round_double (x - y), round_double (max \<bar>x\<bar> \<bar>y\<bar> / 2 ^ 52)) of
             (Fin d, Fin m) \<Rightarrow> \<bar>d\<bar> \<le> m | _ \<Rightarrow> False)
      | (NaN, _) \<Rightarrow> False | (_, NaN) \<Rightarrow> False
      | (Inf s, Inf t) \<Rightarrow> s \<noteq> t
      | _ \<Rightarrow> True)"

definition number_text :: "int \<Rightarrow> double \<Rightarrow> string" where
  "number_text i d =
     (case d of
        Fin q \<Rightarrow>
          if q = of_int i then dec_of_int i
          else let s = format_g 15 q in
            (case strtod s of
               Some (test, _) \<Rightarrow> if compare_double test d then s else format_g 17 q
             | None \<Rightarrow> format_g 17 q)
      | _ \<Rightarrow> ''null'')"

definition print_number :: "int \<Rightarrow> double \<Rightarrow> printbuffer \<Rightarrow> printbuffer option ub" where
  "print_number i d p =
     (let s = number_text i d in
      if length s > 25 then Some None else emit (length s + 1) s 1 p)"

definition hex_char :: "nat \<Rightarrow> char" where
  "hex_char d = (if d < 10 then char_of (48 + d) else char_of (87 + d))"

definition escape_char :: "char \<Rightarrow> string" where
  "escape_char x =
     (if x = CHR 0x5C then [CHR 0x5C, CHR 0x5C] else if x = CHR 0x22 then [CHR 0x5C, CHR 0x22]
      else if (of_char x :: nat) > 31 then [x]
      else if x = CHR 0x08 then [CHR 0x5C, CHR ''b''] else if x = CHR 0x0C then [CHR 0x5C, CHR ''f'']
      else if x = CHR 0x0A then [CHR 0x5C, CHR ''n''] else if x = CHR 0x0D then [CHR 0x5C, CHR ''r'']
      else if x = CHR 0x09 then [CHR 0x5C, CHR ''t'']
      else [CHR 0x5C, CHR ''u'', CHR ''0'', CHR ''0'', hex_char (of_char x div 16), hex_char (of_char x mod 16)])"

text \<open>The first loop, which counts the extra bytes.\<close>

definition escape_extra :: "char \<Rightarrow> nat" where
  "escape_extra x =
     (if x \<in> {CHR 0x22, CHR 0x5C, CHR 0x08, CHR 0x0C, CHR 0x0A, CHR 0x0D, CHR 0x09} then 1
      else if (of_char x :: nat) < 32 then 5 else 0)"

definition quoted :: "string \<Rightarrow> string" where
  "quoted s = CHR 0x22 # concat (map escape_char s) @ [CHR 0x22]"

definition print_string_ptr :: "string option \<Rightarrow> printbuffer \<Rightarrow> printbuffer option ub" where
  "print_string_ptr input p =
     (case input of
        None \<Rightarrow> emit 3 [CHR 0x22, CHR 0x22] 1 p
      | Some s \<Rightarrow>
          let output_length = length s + sum_list (map escape_extra s)
          in emit (output_length + 3) (quoted s) 1 p)"

section \<open>Values\<close>

definition tabs :: "nat \<Rightarrow> string" where "tabs n = replicate n (CHR 0x09)"

fun print_value :: "cjson \<Rightarrow> printbuffer \<Rightarrow> printbuffer option ub"
  and print_elements :: "cjson list \<Rightarrow> printbuffer \<Rightarrow> printbuffer option ub"
  and print_members :: "(string option \<times> cjson) list \<Rightarrow> printbuffer \<Rightarrow> printbuffer option ub" where
  "print_value CInvalid p = Some None"
| "print_value CNull p = emit 5 ''null'' 1 p"
| "print_value CFalse p = emit 6 ''false'' 1 p"
| "print_value CTrue p = emit 5 ''true'' 1 p"
| "print_value (CNumber i d) p = print_number i d p"
| "print_value (CString s) p = print_string_ptr s p"
| "print_value (CRaw s) p = (case s of None \<Rightarrow> Some None | Some t \<Rightarrow> emit (length t + 1) t 1 p)"
| "print_value (CArray vs) p =
     (if pb_depth p \<ge> CJSON_NESTING_LIMIT then Some None
      else and_then (emit 1 ''['' 0 p) (\<lambda>p.
        and_then (print_elements vs (p\<lparr>pb_depth := pb_depth p + 1\<rparr>)) (\<lambda>p.
        and_then (emit 2 '']'' 1 p) (\<lambda>p. Some (Some (p\<lparr>pb_depth := pb_depth p - 1\<rparr>))))))"
| "print_value (CObject ms) p =
     (if pb_depth p \<ge> CJSON_NESTING_LIMIT then Some None
      else let s = (if pb_format p then [CHR 0x7B, newline] else [CHR 0x7B]) in
      and_then (emit (length s + 1) s 0 p) (\<lambda>p.
        and_then (print_members ms (p\<lparr>pb_depth := pb_depth p + 1\<rparr>)) (\<lambda>p.
        and_then (emit (if pb_format p then pb_depth p + 1 else 2)
             ((if pb_format p then tabs (pb_depth p - 1) else []) @ [CHR 0x7D]) 1 p)
          (\<lambda>p. Some (Some (p\<lparr>pb_depth := pb_depth p - 1\<rparr>))))))"
| "print_elements [] p = Some (Some p)"
| "print_elements (v # vs) p =
     and_then (print_value v p) (\<lambda>p.
       if vs = [] then Some (Some p)
       else let s = (if pb_format p then '', '' else '','') in
         and_then (emit (length s + 1) s 1 p) (\<lambda>p. print_elements vs p))"
| "print_members [] p = Some (Some p)"
| "print_members ((k, v) # ms) p =
     and_then (if pb_format p then emit (pb_depth p) (tabs (pb_depth p)) 0 p else Some (Some p)) (\<lambda>p.
     and_then (print_string_ptr k p) (\<lambda>p.
       let s = (if pb_format p then [CHR '':'', CHR 0x09] else '':'') in
     and_then (emit (length s) s 0 p) (\<lambda>p.
     and_then (print_value v p) (\<lambda>p.
       let t = (if ms = [] then [] else '','') @ (if pb_format p then [newline] else []) in
     and_then (emit (length t + 1) t 1 p) (\<lambda>p. print_members ms p)))))"

text \<open>The two public functions; a NULL result is \<open>None\<close>.\<close>

definition print_with :: "(nat \<Rightarrow> bool) \<Rightarrow> bool \<Rightarrow> cjson \<Rightarrow> string option ub" where
  "print_with grow fmt item =
     (if \<not> grow 256 then Some None
      else case print_value item \<lparr>pb_text = [], pb_length = 256, pb_depth = 0, pb_noalloc = False,
              pb_format = fmt, pb_grow = grow\<rparr> of
        None \<Rightarrow> None
      | Some None \<Rightarrow> Some None
      | Some (Some p) \<Rightarrow> Some (if grow (length (pb_text p) + 1) then Some (pb_text p) else None))"

definition cJSON_Print :: "(nat \<Rightarrow> bool) \<Rightarrow> cjson \<Rightarrow> string option ub" where
  "cJSON_Print grow item = print_with grow True item"

definition cJSON_PrintUnformatted :: "(nat \<Rightarrow> bool) \<Rightarrow> cjson \<Rightarrow> string option ub" where
  "cJSON_PrintUnformatted grow item = print_with grow False item"

definition cJSON_PrintBuffered :: "(nat \<Rightarrow> bool) \<Rightarrow> cjson \<Rightarrow> int \<Rightarrow> bool \<Rightarrow> string option ub" where
  "cJSON_PrintBuffered grow item prebuffer fmt =
     (if prebuffer < 0 then Some None
      else if \<not> grow (nat prebuffer) then Some None
      else map_option (map_option pb_text) (print_value item \<lparr>pb_text = [], pb_length = nat prebuffer, pb_depth = 0,
             pb_noalloc = False, pb_format = fmt, pb_grow = grow\<rparr>))"

text \<open>The text in the caller's buffer, or false.\<close>

definition cJSON_PrintPreallocated :: "cjson \<Rightarrow> int \<Rightarrow> bool \<Rightarrow> string option ub" where
  "cJSON_PrintPreallocated item len fmt =
     (if len < 0 then Some None
      else map_option (map_option pb_text) (print_value item \<lparr>pb_text = [], pb_length = nat len, pb_depth = 0,
             pb_noalloc = True, pb_format = fmt, pb_grow = (\<lambda>n. False)\<rparr>))"

section \<open>No write leaves the buffer\<close>

lemma ensure_room: "ensure needed p = Some p' \<Longrightarrow>
    length (pb_text p') + needed + 1 \<le> pb_length p' \<and> pb_text p' = pb_text p \<and> pb_depth p' = pb_depth p \<and>
    pb_format p' = pb_format p"
  by (auto simp: ensure_def Let_def INT_MAX_def split: if_splits)

lemma emit_safe:
  assumes "length s + extra \<le> needed + 1"
  shows "\<exists>r. emit needed s extra p = Some r \<and> (\<forall>p'. r = Some p' \<longrightarrow>
     pb_text p' = pb_text p @ s \<and> pb_depth p' = pb_depth p \<and> pb_format p' = pb_format p)"
proof (cases "ensure needed p")
  case (Some p')
  then show ?thesis using ensure_room [OF Some] assms by (auto simp: emit_def put_def)
qed (simp add: emit_def)

section \<open>The text\<close>

fun render :: "bool \<Rightarrow> nat \<Rightarrow> cjson \<Rightarrow> string"
  and render_elements :: "bool \<Rightarrow> nat \<Rightarrow> cjson list \<Rightarrow> string"
  and render_members :: "bool \<Rightarrow> nat \<Rightarrow> (string option \<times> cjson) list \<Rightarrow> string" where
  "render fmt d CInvalid = []"
| "render fmt d CNull = ''null''"
| "render fmt d CFalse = ''false''"
| "render fmt d CTrue = ''true''"
| "render fmt d (CNumber i x) = number_text i x"
| "render fmt d (CString s) = quoted (case s of None \<Rightarrow> [] | Some t \<Rightarrow> t)"
| "render fmt d (CRaw s) = (case s of None \<Rightarrow> [] | Some t \<Rightarrow> t)"
| "render fmt d (CArray vs) = CHR ''['' # render_elements fmt (d + 1) vs @ '']''"
| "render fmt d (CObject ms) = CHR 0x7B # (if fmt then [newline] else []) @ render_members fmt (d + 1) ms @
     (if fmt then tabs d else []) @ [CHR 0x7D]"
| "render_elements fmt d [] = []"
| "render_elements fmt d (v # vs) = render fmt d v @
     (if vs = [] then [] else if fmt then '', '' else '','') @ render_elements fmt d vs"
| "render_members fmt d [] = []"
| "render_members fmt d ((k, v) # ms) = (if fmt then tabs d else []) @ quoted (case k of None \<Rightarrow> [] | Some t \<Rightarrow> t) @
     (if fmt then [CHR '':'', CHR 0x09] else '':'') @ render fmt d v @
     (if ms = [] then [] else '','') @ (if fmt then [newline] else []) @ render_members fmt d ms"

text \<open>The items that can be printed at a nesting depth.\<close>

fun printable :: "nat \<Rightarrow> cjson \<Rightarrow> bool" where
  "printable d CInvalid \<longleftrightarrow> False"
| "printable d (CNumber i x) \<longleftrightarrow> length (number_text i x) \<le> 25"
| "printable d (CRaw s) \<longleftrightarrow> s \<noteq> None"
| "printable d (CArray vs) \<longleftrightarrow> d < CJSON_NESTING_LIMIT \<and> (\<forall>v \<in> set vs. printable (d + 1) v)"
| "printable d (CObject ms) \<longleftrightarrow> d < CJSON_NESTING_LIMIT \<and> (\<forall>(k, v) \<in> set ms. printable (d + 1) v)"
| "printable d v \<longleftrightarrow> True"

definition fits_buffer :: "printbuffer \<Rightarrow> bool" where
  "fits_buffer p \<longleftrightarrow> length (pb_text p) < pb_length p"

definition growing :: "printbuffer \<Rightarrow> bool" where
  "growing p \<longleftrightarrow> \<not> pb_noalloc p \<and> (\<forall>n. pb_grow p n)"

text \<open>What a call leaves alone, and what it keeps.\<close>

definition same_settings :: "printbuffer \<Rightarrow> printbuffer \<Rightarrow> bool" where
  "same_settings p p' \<longleftrightarrow> pb_depth p' = pb_depth p \<and> pb_format p' = pb_format p \<and> pb_noalloc p' = pb_noalloc p \<and>
     pb_grow p' = pb_grow p \<and> (pb_noalloc p \<longrightarrow> pb_length p' = pb_length p)"

text \<open>
  A call that prints \<open>s\<close>: it is safe, and if it returns true exactly \<open>s\<close> was added. It does
  return true when \<open>ok\<close> holds, the buffer can grow and the text stays below \<open>INT_MAX\<close>.\<close>

definition prints :: "bool \<Rightarrow> string \<Rightarrow> printbuffer \<Rightarrow> printbuffer option ub \<Rightarrow> bool" where
  "prints ok s p r \<longleftrightarrow> (\<exists>q. r = Some q \<and>
     (\<forall>p'. q = Some p' \<longrightarrow> pb_text p' = pb_text p @ s \<and> same_settings p p' \<and> (s \<noteq> [] \<or> fits_buffer p \<longrightarrow> fits_buffer p')) \<and>
     (ok \<and> growing p \<and> fits_buffer p \<and> int (length (pb_text p) + length s + 3) \<le> INT_MAX \<longrightarrow> q \<noteq> None))"

lemma prints_false [simp]: "prints False s p (Some None)"
  by (simp add: prints_def)

lemma prints_nothing [simp]: "prints True [] p (Some (Some p))"
  by (simp add: prints_def same_settings_def)

lemma prints_weaken: "prints ok s p r \<Longrightarrow> (ok' \<Longrightarrow> ok) \<Longrightarrow> prints ok' s p r"
  by (auto simp: prints_def)

lemma prints_emit:
  assumes "length s \<le> needed" "length s + extra \<le> needed + 1" "needed \<le> length s + 1"
  shows "prints ok s p (emit needed s extra p)"
proof (cases "ensure needed p")
  case None
  then have "\<not> (growing p \<and> fits_buffer p \<and> int (length (pb_text p) + length s + 3) \<le> INT_MAX)"
    using assms(3) by (auto simp: ensure_def Let_def growing_def fits_buffer_def INT_MAX_def split: if_splits)
  then show ?thesis by (auto simp: prints_def emit_def None)
next
  case (Some p')
  have "same_settings p p'"
    using Some by (auto simp: ensure_def Let_def same_settings_def split: if_splits)
  then show ?thesis
    using ensure_room [OF Some] assms(1,2)
    by (auto simp: prints_def emit_def Some put_def same_settings_def fits_buffer_def)
qed

lemma same_settings_trans: "same_settings p q \<Longrightarrow> same_settings q r \<Longrightarrow> same_settings p r"
  by (auto simp: same_settings_def)

lemma prints_then:
  assumes "prints a s p r"
    "\<And>p'. pb_depth p' = pb_depth p \<Longrightarrow> pb_format p' = pb_format p \<Longrightarrow> prints b t p' (f p')"
  shows "prints (a \<and> b) (s @ t) p (and_then r f)"
proof -
  obtain q where q: "r = Some q" "\<And>p'. q = Some p' \<Longrightarrow> pb_text p' = pb_text p @ s \<and> same_settings p p' \<and>
      (s \<noteq> [] \<or> fits_buffer p \<longrightarrow> fits_buffer p')"
    "a \<Longrightarrow> growing p \<Longrightarrow> fits_buffer p \<Longrightarrow> int (length (pb_text p) + length s + 3) \<le> INT_MAX \<Longrightarrow> q \<noteq> None"
    using assms(1) unfolding prints_def by blast
  show ?thesis
  proof (cases q)
    case None
    then show ?thesis using q(1,3) by (auto simp: and_then_def prints_def)
  next
    case (Some p')
    note p' = q(2) [OF Some]
    then have d: "pb_depth p' = pb_depth p" "pb_format p' = pb_format p" "growing p \<Longrightarrow> growing p'"
      by (auto simp: same_settings_def growing_def)
    obtain u where u: "f p' = Some u" "\<And>p''. u = Some p'' \<Longrightarrow> pb_text p'' = pb_text p' @ t \<and> same_settings p' p'' \<and>
        (t \<noteq> [] \<or> fits_buffer p' \<longrightarrow> fits_buffer p'')"
      "b \<Longrightarrow> growing p' \<Longrightarrow> fits_buffer p' \<Longrightarrow> int (length (pb_text p') + length t + 3) \<le> INT_MAX \<Longrightarrow> u \<noteq> None"
      using assms(2) [OF d(1,2)] unfolding prints_def by blast
    have "and_then r f = Some u" using q(1) Some u(1) by (simp add: and_then_def)
    moreover have "pb_text p'' = pb_text p @ s @ t \<and> same_settings p p'' \<and> (s @ t \<noteq> [] \<or> fits_buffer p \<longrightarrow> fits_buffer p'')"
      if "u = Some p''" for p''
      using u(2) [OF that] p' same_settings_trans by auto
    moreover have "u \<noteq> None"
      if "a \<and> b \<and> growing p \<and> fits_buffer p \<and> int (length (pb_text p) + length (s @ t) + 3) \<le> INT_MAX"
      using u(3) d(3) p' that by auto
    ultimately show ?thesis unfolding prints_def by blast
  qed
qed

lemma length_escape: "length (escape_char x) = escape_extra x + 1"
  by (simp add: escape_char_def escape_extra_def)

lemma length_quoted: "length (quoted s) = length s + sum_list (map escape_extra s) + 2"
  by (simp add: quoted_def length_concat o_def length_escape sum_list_Suc)

lemma prints_string: "prints True (quoted (case k of None \<Rightarrow> [] | Some t \<Rightarrow> t)) p (print_string_ptr k p)"
  by (auto simp: print_string_ptr_def Let_def length_quoted intro!: prints_emit split: option.splits)
    (simp add: quoted_def prints_emit)

lemma prints_number: "prints (length (number_text i d) \<le> 25) (number_text i d) p (print_number i d p)"
  by (simp add: print_number_def Let_def prints_emit)


lemma prints_nested:
  assumes "prints a s (p\<lparr>pb_depth := pb_depth p + 1\<rparr>) r"
    "\<And>p'. pb_depth p' = pb_depth p + 1 \<Longrightarrow> pb_format p' = pb_format p \<Longrightarrow> prints b t p' (g p')"
  shows "prints (a \<and> b) (s @ t) p (and_then r (\<lambda>p. and_then (g p) (\<lambda>p. Some (Some (p\<lparr>pb_depth := pb_depth p - 1\<rparr>)))))"
proof -
  let ?p = "p\<lparr>pb_depth := pb_depth p + 1\<rparr>" and ?close = "\<lambda>p. Some (Some (p\<lparr>pb_depth := pb_depth p - 1\<rparr>))"
  have "prints (a \<and> b) (s @ t) ?p (and_then r g)"
    by (rule prints_then [OF assms(1)]) (use assms(2) in auto)
  then obtain q where q: "and_then r g = Some q" "\<And>p'. q = Some p' \<Longrightarrow> pb_text p' = pb_text p @ s @ t \<and> same_settings ?p p' \<and>
      (s @ t \<noteq> [] \<or> fits_buffer p \<longrightarrow> fits_buffer p')"
    "a \<and> b \<Longrightarrow> growing p \<Longrightarrow> fits_buffer p \<Longrightarrow> int (length (pb_text p) + length (s @ t) + 3) \<le> INT_MAX \<Longrightarrow> q \<noteq> None"
    unfolding prints_def by (auto simp: growing_def fits_buffer_def)
  have "and_then r (\<lambda>p. and_then (g p) ?close) = and_then (and_then r g) ?close"
    by (simp add: and_then_def split: option.splits)
  also have "\<dots> = Some (map_option (\<lambda>p. p\<lparr>pb_depth := pb_depth p - 1\<rparr>) q)"
    unfolding q(1) by (simp add: and_then_def split: option.splits)
  finally have r: "and_then r (\<lambda>p. and_then (g p) ?close) = Some (map_option (\<lambda>p. p\<lparr>pb_depth := pb_depth p - 1\<rparr>) q)" .
  show ?thesis
  proof (cases q)
    case None
    then show ?thesis using q(3) unfolding prints_def r by auto
  next
    case (Some p')
    then show ?thesis using q(2) [OF Some] unfolding prints_def r by (auto simp: same_settings_def fits_buffer_def)
  qed
qed

lemma prints_array:
  assumes "\<And>q. pb_depth q = d + 1 \<Longrightarrow> pb_format q = f \<Longrightarrow> prints a t q (print_elements vs q)"
    "pb_depth p = d" "pb_format p = f"
  shows "prints (d < CJSON_NESTING_LIMIT \<and> a) (CHR ''['' # t @ '']'') p (print_value (CArray vs) p)"
proof (cases "d < CJSON_NESTING_LIMIT")
  case True
  have "prints (True \<and> (a \<and> True)) (''['' @ (t @ '']'')) p
     (and_then (emit 1 ''['' 0 p) (\<lambda>p. and_then (print_elements vs (p\<lparr>pb_depth := pb_depth p + 1\<rparr>)) (\<lambda>p.
        and_then (emit 2 '']'' 1 p) (\<lambda>p. Some (Some (p\<lparr>pb_depth := pb_depth p - 1\<rparr>))))))"
    using assms(2,3) by (intro prints_then prints_nested assms(1)) (auto intro: prints_emit)
  then show ?thesis using True assms(2) by simp
qed (simp add: assms(2))

lemma prints_object:
  assumes "\<And>q. pb_depth q = d + 1 \<Longrightarrow> pb_format q = f \<Longrightarrow> prints a t q (print_members ms q)"
    "pb_depth p = d" "pb_format p = f"
  shows "prints (d < CJSON_NESTING_LIMIT \<and> a) (CHR 0x7B # (if f then [newline] else []) @ t @ (if f then tabs d else []) @ [CHR 0x7D]) p
    (print_value (CObject ms) p)"
proof (cases "d < CJSON_NESTING_LIMIT")
  case True
  let ?s = "if f then [CHR 0x7B, newline] else [CHR 0x7B]"
  have "prints (True \<and> (a \<and> True)) (?s @ (t @ ((if f then tabs d else []) @ [CHR 0x7D]))) p
     (and_then (emit (length ?s + 1) ?s 0 p) (\<lambda>p. and_then (print_members ms (p\<lparr>pb_depth := pb_depth p + 1\<rparr>)) (\<lambda>p.
        and_then (emit (if pb_format p then pb_depth p + 1 else 2)
             ((if pb_format p then tabs (pb_depth p - 1) else []) @ [CHR 0x7D]) 1 p)
          (\<lambda>p. Some (Some (p\<lparr>pb_depth := pb_depth p - 1\<rparr>))))))"
    using assms(2,3) by (intro prints_then prints_nested assms(1)) (auto intro: prints_emit simp: tabs_def)
  then show ?thesis using True assms(2,3) by (auto simp: Let_def)
qed (simp add: assms(2))

lemma prints_element:
  assumes "\<And>q. pb_depth q = d \<Longrightarrow> pb_format q = f \<Longrightarrow> prints a s q (print_value v q)"
    "\<And>q. vs \<noteq> [] \<Longrightarrow> pb_depth q = d \<Longrightarrow> pb_format q = f \<Longrightarrow> prints b t q (print_elements vs q)"
    "vs = [] \<Longrightarrow> t = []" "pb_depth p = d" "pb_format p = f"
  shows "prints (a \<and> b) (s @ (if vs = [] then [] else if f then '', '' else '','') @ t) p (print_elements (v # vs) p)"
proof (cases "vs = []")
  case True
  have "prints (a \<and> True) (s @ []) p (and_then (print_value v p) (\<lambda>p. Some (Some p)))"
    using assms(1) assms(4,5) by (intro prints_then) auto
  then show ?thesis using True assms(3) by (auto elim: prints_weaken)
next
  case False
  have "prints (a \<and> (True \<and> b)) (s @ ((if f then '', '' else '','') @ t)) p (and_then (print_value v p) (\<lambda>p.
      and_then (emit (length (if pb_format p then '', '' else '','') + 1) (if pb_format p then '', '' else '','') 1 p)
        (\<lambda>p. print_elements vs p)))"
    using assms(4,5) False by (intro prints_then assms(1,2)) (auto intro: prints_emit)
  then show ?thesis using False by (simp add: Let_def)
qed

lemma prints_member:
  assumes "\<And>q. pb_depth q = d \<Longrightarrow> pb_format q = f \<Longrightarrow> prints a s q (print_value v q)"
    "\<And>q. pb_depth q = d \<Longrightarrow> pb_format q = f \<Longrightarrow> prints b t q (print_members ms q)" "pb_depth p = d" "pb_format p = f"
  shows "prints (True \<and> (True \<and> (True \<and> (a \<and> (True \<and> b)))))
     ((if f then tabs d else []) @ (quoted (case k of None \<Rightarrow> [] | Some t \<Rightarrow> t) @
     ((if f then [CHR '':'', CHR 0x09] else '':'') @ (s @ (((if ms = [] then [] else '','') @ (if f then [newline] else [])) @ t))))) p
     (print_members ((k, v) # ms) p)"
  unfolding print_members.simps Let_def
  using assms(3,4) by (intro prints_then prints_string assms(1,2)) (auto intro: prints_emit simp: tabs_def)

lemma print_value_prints:
  "\<And>p. pb_format p = fmt \<Longrightarrow> pb_depth p = d \<Longrightarrow> prints (printable d v) (render fmt d v) p (print_value v p)"
  "\<And>p. pb_format p = fmt \<Longrightarrow> pb_depth p = d \<Longrightarrow>
     prints (\<forall>v \<in> set vs. printable d v) (render_elements fmt d vs) p (print_elements vs p)"
  "\<And>p. pb_format p = fmt \<Longrightarrow> pb_depth p = d \<Longrightarrow>
     prints (\<forall>(k, v) \<in> set ms. printable d v) (render_members fmt d ms) p (print_members ms p)"
proof (induction fmt d v and fmt d vs and fmt d ms rule: render_render_elements_render_members.induct)
  case (8 fmt d vs)
  then show ?case using prints_array [of d fmt] by simp
next
  case (9 fmt d ms)
  then show ?case using prints_object [of d fmt] by simp
next
  case (11 fmt d v vs)
  then show ?case using prints_element [of d fmt _ _ v vs] by simp
next
  case (13 fmt d k v ms)
  then show ?case
    using prints_member [of d fmt "printable d v" "render fmt d v" v _ "render_members fmt d ms" ms p k] by simp
qed (auto simp: prints_emit prints_number prints_string elim: prints_weaken split: option.splits)

lemma print_no_room:
  assumes "pb_noalloc p" "pb_length p = 0"
  shows "print_value item p = Some None"
proof -
  have "emit n s e p = Some None" for n s e
    using assms by (simp add: emit_def ensure_def Let_def)
  then show ?thesis
    by (cases item) (auto simp: and_then_def print_number_def print_string_ptr_def Let_def split: option.splits)
qed

lemma print_with_prints:
  "\<exists>q. print_with grow fmt item = Some q \<and> set_option q \<subseteq> {render fmt 0 item} \<and>
     ((\<forall>n. grow n) \<and> printable 0 item \<and> int (length (render fmt 0 item)) + 3 \<le> INT_MAX \<longrightarrow> q \<noteq> None)"
proof -
  let ?p = "\<lparr>pb_text = [], pb_length = 256, pb_depth = 0, pb_noalloc = False, pb_format = fmt, pb_grow = grow\<rparr>"
  have "prints (printable 0 item) (render fmt 0 item) ?p (print_value item ?p)"
    by (rule print_value_prints) simp_all
  then show ?thesis
    by (auto simp: prints_def print_with_def growing_def fits_buffer_def split: option.splits)
qed

text \<open>With memory to allocate, everything printable is printed.\<close>

lemma print_total:
  assumes "printable 0 item" "int (length (render fmt 0 item)) + 3 \<le> INT_MAX"
  shows "print_with (\<lambda>n. True) fmt item = Some (Some (render fmt 0 item))"
  using print_with_prints [of "\<lambda>n. True" fmt item] assms by auto

text \<open>
  C18: The printer is safe and prints the plain text: into a buffer of the caller it never writes
  past the given length, it never writes past its own buffer whatever the allocator does, and
  every text it delivers is that of the plain recursive function.\<close>

theorem print_safe:
  "(\<exists>r. cJSON_PrintPreallocated item len fmt = Some r \<and>
      set_option r \<subseteq> {s. s = render fmt 0 item \<and> int (length s) < len}) \<and>
   (\<exists>r. print_with grow fmt item = Some r \<and> set_option r \<subseteq> {render fmt 0 item})"
proof (intro conjI)
  let ?p = "\<lparr>pb_text = [], pb_length = nat len, pb_depth = 0, pb_noalloc = True, pb_format = fmt, pb_grow = (\<lambda>n. False)\<rparr>"
  have "prints (printable 0 item) (render fmt 0 item) ?p (print_value item ?p)"
    by (rule print_value_prints) simp_all
  then obtain q where q: "print_value item ?p = Some q" "\<And>p'. q = Some p' \<Longrightarrow> pb_text p' = render fmt 0 item \<and>
      pb_length p' = nat len \<and> (render fmt 0 item \<noteq> [] \<or> 0 < nat len \<longrightarrow> length (pb_text p') < pb_length p')"
    by (auto simp: prints_def same_settings_def fits_buffer_def)
  have "nat len = 0 \<Longrightarrow> q = None"
    using print_no_room [of ?p item] q(1) by simp
  then have "int (length (pb_text p')) < len" if "q = Some p'" "0 \<le> len" for p'
    using q(2) [OF that(1)] that by auto
  then show "\<exists>r. cJSON_PrintPreallocated item len fmt = Some r \<and>
      set_option r \<subseteq> {s. s = render fmt 0 item \<and> int (length s) < len}"
    using q by (auto simp: cJSON_PrintPreallocated_def)
next
  show "\<exists>r. print_with grow fmt item = Some r \<and> set_option r \<subseteq> {render fmt 0 item}"
    using print_with_prints [of grow fmt item] by blast
qed

end
