(* ===== verification/CJsonRoundtrip.thy ===== *)
theory CJsonRoundtrip
  imports CJsonTotal CJsonPrint
begin

text \<open>
  What the JSON printer prints, the JSON parser reads back: for items of integers of up to
  fifteen digits, strings, literals, arrays and objects, formatted or not.
\<close>

section \<open>Numbers\<close>

lemma round_half_even_bounds: "0 \<le> q \<Longrightarrow> 0 \<le> round_half_even q \<and> of_int (round_half_even q) \<le> q + 1"
  by (auto simp: round_half_even_def Let_def; linarith)

lemma rat_power_pos: "0 < b \<Longrightarrow> 0 < rat_power b e"
  by (simp add: rat_power_def)

lemma rat_power_le_1: "e \<le> 0 \<Longrightarrow> rat_power 2 e \<le> 1"
  by (auto simp: rat_power_def)

lemma nbits_mono: "m \<le> n \<Longrightarrow> nbits m \<le> nbits n"
  using nbits_bounds [of n] by (cases "n = 0") (auto intro!: nbits_le)

lemma bit_exponent_small:
  assumes "0 < r" "r < 1"
  shows "bit_exponent r \<le> 0"
proof -
  obtain p q where q: "quotient_of r = (p, q)" by fastforce
  then have "0 < q" "r = of_int p / of_int q" by (auto dest: quotient_of_denom_pos quotient_of_div)
  then have "0 < p" "p < q" using assms by (auto simp: zero_less_divide_iff divide_less_eq)
  then have "nbits (nat p) \<le> nbits (nat q)" by (intro nbits_mono) simp
  then show ?thesis by (auto simp: bit_exponent_def q Let_def)
qed

lemma round_double_small:
  assumes "0 \<le> r" "r < 1"
  shows "\<exists>m. round_double r = Fin m \<and> 0 \<le> m"
proof (cases "r = 0")
  case False
  then have r: "0 < r" using assms by simp
  obtain e where e: "e = max (-1074) (bit_exponent \<bar>r\<bar> - 52)" by simp
  have "e \<le> 0" using bit_exponent_small [OF r assms(2)] r by (simp add: e)
  obtain k where k: "k = round_half_even (\<bar>r\<bar> / rat_power 2 e)" by simp
  have pos: "0 < rat_power 2 e" by (simp add: rat_power_pos)
  have b: "0 \<le> k" "of_int k \<le> \<bar>r\<bar> / rat_power 2 e + 1"
    using round_half_even_bounds [of "\<bar>r\<bar> / rat_power 2 e"] pos by (simp_all add: k)
  have "of_int k * rat_power 2 e \<le> (\<bar>r\<bar> / rat_power 2 e + 1) * rat_power 2 e"
    using b(2) pos by (intro mult_right_mono) auto
  also have "\<dots> = \<bar>r\<bar> + rat_power 2 e" using pos by (simp add: field_simps)
  also have "\<dots> < 2" using rat_power_le_1 [OF \<open>e \<le> 0\<close>] assms r by simp
  also have "(2 :: rat) \<le> rat_power 2 1024" by (simp add: rat_power_def)
  finally have "\<not> of_int k * rat_power 2 e \<ge> rat_power 2 1024" by simp
  then have "round_double r = Fin (of_int k * rat_power 2 e)"
    using r unfolding round_double_def Let_def by (simp add: e k)
  then show ?thesis using b(1) pos by auto
qed (simp add: round_double_def)

lemma compare_double_refl:
  assumes "\<bar>q\<bar> < 2 ^ 52"
  shows "compare_double (Fin q) (Fin q)"
proof -
  have "\<bar>q\<bar> / 2 ^ 52 < 1" using assms by (simp only: divide_less_eq_1) simp
  then obtain m where "round_double (\<bar>q\<bar> / 2 ^ 52) = Fin m" "0 \<le> m"
    using round_double_small [of "\<bar>q\<bar> / 2 ^ 52"] by fastforce
  moreover have "round_double 0 = Fin 0" by (simp add: round_double_def)
  ultimately show ?thesis by (simp only: compare_double_def prod.case double.case max.idem diff_self abs_zero)
qed

lemma number_text_int:
  assumes "\<bar>n\<bar> < 10 ^ 15"
  shows "number_text i (Fin (of_int n)) = dec_of_int n"
proof (cases "n = i")
  case False
  have "\<bar>n\<bar> < 2 ^ 52" using assms by (rule less_le_trans) simp
  then have "(of_int \<bar>n\<bar> :: rat) < of_int (2 ^ 52)" by (simp only: of_int_less_iff)
  then have "compare_double (Fin (of_int n)) (Fin (of_int n))" by (intro compare_double_refl) simp
  moreover have "strtod (dec_of_int n) = Some (Fin (of_int n), [])"
    using strtod_dec [of "[]" n] round_double_int [of n] \<open>\<bar>n\<bar> < 2 ^ 52\<close> by (simp add: number_ends_def)
  ultimately show ?thesis
    using False format_g_int [OF assms] by (simp add: number_text_def Let_def)
qed (simp add: number_text_def)

lemma dec_of_int_chars: "set (dec_of_int n) \<subseteq> Collect is_number_char" "dec_of_int n \<noteq> []"
    "hd (dec_of_int n) = CHR ''-'' \<or> isdigit (hd (dec_of_int n))"
  using dec_of_nat_digits dec_of_nat_digits [OF hd_in_set [OF dec_of_nat_not_Nil]] by (auto simp: dec_of_int_def is_number_char_def)

lemma parse_number_dec:
  assumes "drop off c = dec_of_int n @ post" "number_ends post" "\<bar>n\<bar> < 2 ^ 53"
    "post = [] \<or> \<not> is_number_char (hd post)"
  shows "parse_number c off = Parsed (CNumber (saturate (Fin (of_int n))) (Fin (of_int n))) (off + length (dec_of_int n))"
proof -
  have "takeWhile is_number_char (drop off c) = dec_of_int n"
    using assms(1,4) dec_of_int_chars(1) [of n] by (cases post) (auto simp: takeWhile_append)
  then show ?thesis
    using strtod_dec [of "[]" n] round_double_int [OF assms(3)] by (simp add: parse_number_def number_ends_def)
qed

section \<open>Strings\<close>

lemma control_char_roundtrip: "\<forall>k \<in> set [1..<32].
    let e = escape_char (char_of k) in
    hd e = CHR 0x5C \<and> length e \<ge> 2 \<and> CHR 0x22 \<notin> set e \<and> CHR 0x5C \<notin> set (tl e) \<and> CHR 0x00 \<notin> set e \<and>
    (if e ! 1 = CHR ''u'' then length e = 6 \<and> utf16_literal_to_utf8 e = Some (6, [char_of k])
     else length e = 2 \<and> simple_escape (e ! 1) = Some (char_of k))"
  by code_simp

text \<open>The three shapes of a printed character.\<close>

lemma escape_char_cases:
  assumes "x \<noteq> CHR 0x00"
  obtains (plain) "escape_char x = [x]" "x \<noteq> CHR 0x22" "x \<noteq> CHR 0x5C"
  | (short) y where "escape_char x = [CHR 0x5C, y]" "y \<noteq> CHR ''u''" "simple_escape y = Some x" "y \<noteq> CHR 0x00"
  | (long) a b c d where "escape_char x = [CHR 0x5C, CHR ''u'', a, b, c, d]"
      "{a, b, c, d} \<inter> {CHR 0x22, CHR 0x5C, CHR 0x00} = {}"
      "utf16_literal_to_utf8 (escape_char x) = Some (6, [x])"
proof (cases "(of_char x :: nat) < 32")
  case True
  let ?k = "of_char x :: nat" and ?e = "escape_char x"
  have "char_of (0 :: nat) = CHR 0x00" by code_simp
  then have "?k \<noteq> 0" using assms by (metis char_of_char)
  then have k: "?k \<in> set [1..<32]" using True by simp
  have e: "hd ?e = CHR 0x5C" "length ?e \<ge> 2" "CHR 0x22 \<notin> set ?e" "CHR 0x5C \<notin> set (tl ?e)" "CHR 0x00 \<notin> set ?e"
    "if ?e ! 1 = CHR ''u'' then length ?e = 6 \<and> utf16_literal_to_utf8 ?e = Some (6, [x])
     else length ?e = 2 \<and> simple_escape (?e ! 1) = Some x"
    using bspec [OF control_char_roundtrip k] unfolding Let_def char_of_char by auto
  obtain y s where ys: "?e = CHR 0x5C # y # s" using e(1,2) by (cases ?e; cases "tl ?e") auto
  show thesis
  proof (cases "y = CHR ''u''")
    case u: True
    then have "length s = 4" using e(6) ys by simp
    then obtain a b c d where "s = [a, b, c, d]" by (auto simp: length_Suc_conv numeral_eq_Suc)
    then show thesis using long [of a b c d] e u ys by auto
  next
    case False
    then show thesis using short [of y] e ys by auto
  qed
next
  case False
  show thesis
  proof (cases "x = CHR 0x22 \<or> x = CHR 0x5C")
    case True
    then show thesis using short [of x] by (auto simp: escape_char_def simple_escape_def)
  next
    case no: False
    then show thesis using plain False by (simp add: escape_char_def)
  qed
qed

lemma utf16_literal_append:
  assumes "utf16_literal_to_utf8 e = Some (6, out)" "length e = 6"
  shows "utf16_literal_to_utf8 (e @ r) = Some (6, out)"
  using assms by (auto simp: utf16_literal_to_utf8_def Let_def parse_hex4_def split: if_splits)

lemma further_append: "further n s (further m t r) = further (n + m) (s @ t) r"
  by (simp add: further_def split: sum.splits)

lemma unescape_escape_char:
  assumes "x \<noteq> CHR 0x00"
  shows "unescape (escape_char x @ s) = further (length (escape_char x)) [x] (unescape s)"
  using assms
proof (cases rule: escape_char_cases)
  case (long a b c d)
  then have "utf16_literal_to_utf8 (escape_char x @ s) = Some (6, [x])"
    by (intro utf16_literal_append) auto
  then have "unescape (escape_char x @ s) = further 6 [x] (unescape s)" using long(1) by simp
  moreover have "length (escape_char x) = 6" using long(1) by simp
  ultimately show ?thesis by (simp only:)
qed (auto simp: numeral_2_eq_2)

lemma unescape_escape: "CHR 0x00 \<notin> set s \<Longrightarrow> unescape (concat (map escape_char s)) = Inr s"
  by (induction s) (auto simp: unescape_escape_char further_def)

lemma string_end_escape_char:
  assumes "x \<noteq> CHR 0x00"
  shows "string_end (escape_char x @ s) = map_option ((+) (length (escape_char x))) (string_end s)"
  using assms
  by (cases rule: escape_char_cases) (auto simp: option.map_comp o_def intro!: arg_cong [of _ _ "\<lambda>f. map_option f (string_end s)"])

lemma string_end_quoted:
  "CHR 0x00 \<notin> set s \<Longrightarrow> string_end (concat (map escape_char s) @ CHR 0x22 # post) = Some (length (concat (map escape_char s)))"
  by (induction s) (auto simp: string_end_escape_char)

lemma parse_string_quoted:
  assumes "drop off c = quoted s @ post" "CHR 0x00 \<notin> set s"
  shows "parse_string c off = Parsed s (off + length (quoted s))"
proof -
  let ?b = "concat (map escape_char s)"
  have d: "drop off c = CHR 0x22 # ?b @ CHR 0x22 # post" using assms(1) by (simp add: quoted_def)
  then have "drop (off + 1) c = ?b @ CHR 0x22 # post"
    by (metis drop_drop drop_Suc_Cons drop_0 One_nat_def add.commute)
  then show ?thesis
    using d string_end_quoted [OF assms(2)] unescape_escape [OF assms(2)] cstr_id [OF assms(2)]
    by (simp add: parse_string_def char_at_def quoted_def)
qed

section \<open>Values\<close>

text \<open>A parser that reads a value and leaves \<open>post\<close>.\<close>

definition reads :: "string \<Rightarrow> 'a presult \<Rightarrow> 'a \<Rightarrow> string \<Rightarrow> bool" where
  "reads c r v post \<longleftrightarrow> (\<exists>o'. r = Parsed v o' \<and> drop o' c = post)"

lemma char_at_drop: "drop off c = x # r \<Longrightarrow> char_at c off = Some x"
  by (simp add: char_at_def)

lemma drop_more: "drop off c = s @ r \<Longrightarrow> drop (off + length s) c = r"
  by (metis add.commute append_eq_conv_conj drop_drop)

lemma skip_ws:
  assumes "drop off c = w @ x # r" "\<forall>y \<in> set w. is_ws y" "\<not> is_ws x"
  shows "drop (buffer_skip_whitespace c off) c = x # r" "buffer_skip_whitespace c off = off + length w"
proof -
  have "takeWhile is_ws (drop off c) = w" using assms by (simp add: takeWhile_append)
  moreover have "off + length w < length c"
    using arg_cong [OF assms(1), of length] by simp
  ultimately show "buffer_skip_whitespace c off = off + length w" by (simp add: buffer_skip_whitespace_def Let_def)
  then show "drop (buffer_skip_whitespace c off) c = x # r" using drop_more [OF assms(1)] by simp
qed

definition value_stop :: "string \<Rightarrow> bool" where
  "value_stop post \<longleftrightarrow> post = [] \<or> is_ws (hd post) \<or> hd post \<in> {CHR '','', CHR '']'', CHR 0x7D}"

lemma value_stop_number: "value_stop post \<Longrightarrow> number_ends post \<and> (post = [] \<or> \<not> is_number_char (hd post))"
  by (auto simp: value_stop_def number_ends_def is_number_char_def is_ws_def isdigit_def)

text \<open>The items that JSON text carries without loss.\<close>

fun carried :: "cjson \<Rightarrow> bool" where
  "carried CInvalid \<longleftrightarrow> False"
| "carried (CNumber i x) \<longleftrightarrow> (case x of Fin q \<Rightarrow> q = of_int \<lfloor>q\<rfloor> \<and> \<bar>\<lfloor>q\<rfloor>\<bar> < 10 ^ 15 \<and> i = saturate x | _ \<Rightarrow> False)"
| "carried (CString s) \<longleftrightarrow> (case s of None \<Rightarrow> False | Some t \<Rightarrow> CHR 0x00 \<notin> set t)"
| "carried (CRaw s) \<longleftrightarrow> False"
| "carried (CArray vs) \<longleftrightarrow> (\<forall>v \<in> set vs. carried v)"
| "carried (CObject ms) \<longleftrightarrow> (\<forall>(k, v) \<in> set ms. (case k of None \<Rightarrow> False | Some t \<Rightarrow> CHR 0x00 \<notin> set t) \<and> carried v)"
| "carried v \<longleftrightarrow> True"

lemma carried_number: "carried (CNumber i x) \<Longrightarrow> \<exists>n. x = Fin (of_int n) \<and> \<bar>n\<bar> < 10 ^ 15 \<and> i = saturate x"
  by (auto split: double.splits)

lemma render_number: "carried (CNumber i x) \<Longrightarrow> \<exists>n. x = Fin (of_int n) \<and> \<bar>n\<bar> < 10 ^ 15 \<and> i = saturate x \<and>
    render fmt d (CNumber i x) = dec_of_int n"
  using carried_number [of i x] number_text_int by fastforce

lemma digit_not_blank: "isdigit x \<Longrightarrow> \<not> is_ws x \<and> x \<noteq> CHR '']''"
  by (auto simp: is_ws_def isdigit_def)

lemma first_char:
  assumes "carried v"
  obtains x r where "render fmt d v = x # r" "\<not> is_ws x" "x \<noteq> CHR '']''"
proof (cases v)
  case (CNumber i y)
  then obtain n where n: "render fmt d v = dec_of_int n" using render_number assms by blast
  then have "hd (render fmt d v) = CHR ''-'' \<or> isdigit (hd (render fmt d v))" "render fmt d v \<noteq> []"
    using dec_of_int_chars [of n] by auto
  then show thesis using that digit_not_blank by (cases "render fmt d v") (auto simp: is_ws_def)
qed (use that assms in \<open>auto simp: is_ws_def quoted_def split: option.splits\<close>)

lemma starts_drop: "drop off c = s @ post \<Longrightarrow> starts c off t \<longleftrightarrow> take (length t) (s @ post) = t"
  by (simp add: starts_def)

lemma number_not_literal:
  assumes "drop off c = x # r" "x = CHR ''-'' \<or> isdigit x \<or> x \<in> {CHR 0x22, CHR ''['', CHR 0x7B}"
  shows "\<not> starts c off ''null''" "\<not> starts c off ''false''" "\<not> starts c off ''true''"
  using assms by (auto simp: starts_def isdigit_def)

lemma reads_number:
  assumes "carried (CNumber i y)" "drop off c = render fmt d (CNumber i y) @ post" "value_stop post" "0 < n"
  shows "reads c (parse_value n c depth off) (CNumber i y) post"
proof -
  obtain m where m: "y = Fin (of_int m)" "\<bar>m\<bar> < 10 ^ 15" "i = saturate y" "render fmt d (CNumber i y) = dec_of_int m"
    using render_number [OF assms(1)] by blast
  have d: "drop off c = dec_of_int m @ post" using assms(2) m(4) by simp
  obtain x r where x: "dec_of_int m = x # r" "x = CHR ''-'' \<or> isdigit x"
    using dec_of_int_chars [of m] by (cases "dec_of_int m") auto
  have dx: "drop off c = x # r @ post" using d x(1) by simp
  have "\<bar>m\<bar> < 2 ^ 53" using m(2) by (rule less_le_trans) simp
  then have p: "parse_number c off = Parsed (CNumber i y) (off + length (dec_of_int m))"
    using parse_number_dec [OF d] value_stop_number [OF assms(3)] m by blast
  have "x \<noteq> CHR 0x22" using x(2) by (auto simp: isdigit_def)
  moreover have "\<not> starts c off ''null''" "\<not> starts c off ''false''" "\<not> starts c off ''true''"
    using number_not_literal [OF dx] x(2) by blast+
  ultimately have "parse_value n c depth off = parse_number c off"
    using x(2) char_at_drop [OF dx] assms(4) by (auto simp: parse_value.simps [of n])
  then show ?thesis using p drop_more [OF d] by (simp add: reads_def)
qed

lemma reads_string:
  assumes "drop off c = quoted s @ post" "CHR 0x00 \<notin> set s" "0 < n"
  shows "reads c (parse_value n c depth off) (CString (Some s)) post"
proof -
  have dx: "drop off c = CHR 0x22 # tl (quoted s) @ post" using assms(1) by (simp add: quoted_def)
  then have "parse_value n c depth off = Parsed (CString (Some s)) (off + length (quoted s))"
    using number_not_literal [OF dx] char_at_drop [OF dx] assms(3) parse_string_quoted [OF assms(1,2)]
    by (simp add: parse_value.simps [of n])
  then show ?thesis using drop_more [OF assms(1)] by (simp add: reads_def)
qed

lemma reads_literal:
  assumes "drop off c = render fmt d v @ post" "v \<in> {CNull, CFalse, CTrue}" "0 < n"
  shows "reads c (parse_value n c depth off) v post"
proof -
  have "parse_value n c depth off = Parsed v (off + length (render fmt d v))"
    using assms by (auto simp: parse_value.simps [of n] starts_def)
  then show ?thesis using drop_more [OF assms(1)] by (simp add: reads_def)
qed

section \<open>Arrays and objects\<close>

lemma skip_here: "drop off c = x # r \<Longrightarrow> \<not> is_ws x \<Longrightarrow> buffer_skip_whitespace c off = off"
  using skip_ws(2) [of off c "[]" x r] by simp

lemma is_ws_marks [simp]: "\<not> is_ws (CHR 0x22)" "\<not> is_ws (CHR '','')" "\<not> is_ws (CHR '']'')" "\<not> is_ws (CHR 0x7D)"
    "\<not> is_ws (CHR '':'')" "is_ws (CHR 0x09)" "is_ws newline" "is_ws (CHR '' '')"
  by (simp_all add: is_ws_def newline_def)

lemma drop_next: "drop off c = x # r \<Longrightarrow> drop (off + 1) c = r"
  by (metis Suc_eq_plus1 drop_Suc list.sel(3) tl_drop)

lemma parse_array_reads:
  assumes "drop off c = CHR ''['' # s" "depth < CJSON_NESTING_LIMIT" "0 < n"
    "vs = [] \<Longrightarrow> s = CHR '']'' # post"
    "vs \<noteq> [] \<Longrightarrow> \<exists>x r. s = x # r \<and> \<not> is_ws x \<and> x \<noteq> CHR '']''"
    "vs \<noteq> [] \<Longrightarrow> reads c (parse_elements (n - 1) c (depth + 1) off) vs (CHR '']'' # post)"
  shows "reads c (parse_value n c depth off) (CArray vs) post"
proof -
  let ?o = "buffer_skip_whitespace c (off + 1)"
  have ns: "\<not> starts c off ''null''" "\<not> starts c off ''false''" "\<not> starts c off ''true''"
    using number_not_literal [OF assms(1)] by blast+
  have v: "parse_value n c depth off =
      (if char_at c ?o = Some (CHR '']'') then Parsed (CArray []) (?o + 1)
       else if char_at c ?o = None then Failed (?o - 1)
       else (case parse_elements (n - 1) c (depth + 1) (?o - 1) of
               Parsed vs o' \<Rightarrow> Parsed (CArray vs) (o' + 1) | Failed o' \<Rightarrow> Failed o' | NoFuel \<Rightarrow> NoFuel))"
    unfolding parse_value.simps [of n] Let_def using ns char_at_drop [OF assms(1)] assms(2,3) by (simp add: isdigit_def)
  note s = drop_next [OF assms(1)]
  show ?thesis
  proof (cases "vs = []")
    case True
    have s': "drop (off + 1) c = CHR '']'' # post" using s assms(4) [OF True] by simp
    then have "?o = off + 1" by (rule skip_here) simp
    then show ?thesis using v char_at_drop [OF s'] drop_next [OF s'] True by (simp add: reads_def)
  next
    case False
    then obtain x r where x: "s = x # r" "\<not> is_ws x" "x \<noteq> CHR '']''" using assms(5) by blast
    have s': "drop (off + 1) c = x # r" using s x(1) by simp
    then have "?o = off + 1" using x(2) by (rule skip_here)
    then show ?thesis
      using v char_at_drop [OF s'] x(3) assms(6) [OF False] drop_next by (fastforce simp: reads_def)
  qed
qed

lemma parse_elements_reads:
  assumes "drop (pos + 1) c = w @ render fmt d v @ post" "\<forall>y \<in> set w. is_ws y" "carried v" "0 < n"
    "\<And>off. drop off c = render fmt d v @ post \<Longrightarrow> reads c (parse_value (n - 1) c depth off) v post"
    "if vs = [] then post = CHR '']'' # rest else (\<exists>r. post = CHR '','' # r \<and>
       (\<forall>q. drop (q + 1) c = r \<longrightarrow> reads c (parse_elements (n - 1) c depth q) vs (CHR '']'' # rest)))"
  shows "reads c (parse_elements n c depth pos) (v # vs) (CHR '']'' # rest)"
proof -
  obtain x r where x: "render fmt d v = x # r" "\<not> is_ws x" using first_char [OF assms(3)] by metis
  have "drop (buffer_skip_whitespace c (pos + 1)) c = render fmt d v @ post"
    using skip_ws(1) [of "pos + 1" c w x "r @ post"] assms(1,2) x by simp
  then obtain o1 where o1: "parse_value (n - 1) c depth (buffer_skip_whitespace c (pos + 1)) = Parsed v o1" "drop o1 c = post"
    using assms(5) unfolding reads_def by blast
  show ?thesis
  proof (cases "vs = []")
    case True
    have p: "drop o1 c = CHR '']'' # rest" using assms(6) True o1(2) by simp
    then have "buffer_skip_whitespace c o1 = o1" by (rule skip_here) simp
    then show ?thesis
      using o1(1) assms(4) char_at_drop [OF p] p True by (simp add: parse_elements.simps [of n] reads_def)
  next
    case False
    then obtain r where r: "post = CHR '','' # r"
      "\<And>q. drop (q + 1) c = r \<Longrightarrow> reads c (parse_elements (n - 1) c depth q) vs (CHR '']'' # rest)"
      using assms(6) by (simp only: if_False) blast
    have p: "drop o1 c = CHR '','' # r" using r(1) o1(2) by simp
    then have "buffer_skip_whitespace c o1 = o1" by (rule skip_here) simp
    moreover obtain o' where "parse_elements (n - 1) c depth o1 = Parsed vs o'" "drop o' c = CHR '']'' # rest"
      using r(2) [OF drop_next [OF p]] unfolding reads_def by blast
    ultimately show ?thesis
      using o1(1) assms(4) char_at_drop [OF p] by (simp add: parse_elements.simps [of n] reads_def)
  qed
qed

lemma parse_value_object:
  assumes "drop off c = CHR 0x7B # s" "depth < CJSON_NESTING_LIMIT" "0 < n"
  shows "parse_value n c depth off =
      (let o1 = buffer_skip_whitespace c (off + 1) in
       if char_at c o1 = Some (CHR 0x7D) then Parsed (CObject []) (o1 + 1)
       else if char_at c o1 = None then Failed (o1 - 1)
       else (case parse_members (n - 1) c (depth + 1) (o1 - 1) of
               Parsed vs o' \<Rightarrow> Parsed (CObject vs) (o' + 1) | Failed o' \<Rightarrow> Failed o' | NoFuel \<Rightarrow> NoFuel))"
proof -
  have ns: "\<not> starts c off ''null''" "\<not> starts c off ''false''" "\<not> starts c off ''true''"
    using number_not_literal [OF assms(1)] by blast+
  have n: "\<not> n = 0" "\<not> depth \<ge> CJSON_NESTING_LIMIT" using assms by auto
  have x: "CHR 0x7B \<noteq> CHR 0x22" "\<not> (CHR 0x7B = CHR ''-'' \<or> isdigit (CHR 0x7B))" "CHR 0x7B \<noteq> CHR ''[''"
    by (simp_all add: isdigit_def)
  show ?thesis
    unfolding parse_value.simps [of n]
    by (simp only: n ns char_at_drop [OF assms(1)] x option.inject option.case if_False if_True simp_thms)
qed

lemma parse_object_reads:
  assumes "drop off c = CHR 0x7B # w @ s" "\<forall>y \<in> set w. is_ws y" "depth < CJSON_NESTING_LIMIT" "0 < n"
    "ms = [] \<Longrightarrow> s = CHR 0x7D # post"
    "ms \<noteq> [] \<Longrightarrow> \<exists>r. s = CHR 0x22 # r"
    "\<And>pos. ms \<noteq> [] \<Longrightarrow> drop (pos + 1) c = s \<Longrightarrow> reads c (parse_members (n - 1) c (depth + 1) pos) ms (CHR 0x7D # post)"
  shows "reads c (parse_value n c depth off) (CObject ms) post"
proof -
  let ?o = "buffer_skip_whitespace c (off + 1)"
  note v = parse_value_object [OF assms(1,3,4), unfolded Let_def]
  have "\<exists>x r. s = x # r \<and> \<not> is_ws x"
    using assms(5,6) is_ws_marks(1,4) by (cases "ms = []") blast+
  then obtain x r where x: "s = x # r" "\<not> is_ws x" by blast
  have d: "drop ?o c = s" "off + 1 \<le> ?o"
    using skip_ws(1) [of "off + 1" c w x r] drop_next [OF assms(1)] assms(2) x skip_ge by auto
  show ?thesis
  proof (cases "ms = []")
    case True
    have s': "drop ?o c = CHR 0x7D # post" using d assms(5) [OF True] by simp
    then show ?thesis using v char_at_drop [OF s'] drop_next [OF s'] True by (simp add: reads_def)
  next
    case False
    then obtain r where r: "s = CHR 0x22 # r" using assms(6) by blast
    have "reads c (parse_members (n - 1) c (depth + 1) (?o - 1)) ms (CHR 0x7D # post)"
      using assms(7) [OF False, of "?o - 1"] d by simp
    then obtain o' where "parse_members (n - 1) c (depth + 1) (?o - 1) = Parsed ms o'" "drop o' c = CHR 0x7D # post"
      unfolding reads_def by blast
    then show ?thesis
      using v char_at_drop [of ?o c] d(1) r drop_next by (fastforce simp: reads_def)
  qed
qed

lemma parse_members_reads:
  assumes "drop (pos + 1) c = w @ quoted k @ CHR '':'' # w2 @ render fmt d v @ post" "\<forall>y \<in> set w \<union> set w2. is_ws y"
    "carried v" "CHR 0x00 \<notin> set k" "0 < n"
    "\<And>off. drop off c = render fmt d v @ post \<Longrightarrow> reads c (parse_value (n - 1) c depth off) v post"
    "if ms = [] then \<exists>w3. post = w3 @ CHR 0x7D # rest \<and> (\<forall>y \<in> set w3. is_ws y) else (\<exists>r. post = CHR '','' # r \<and>
       (\<forall>q. drop (q + 1) c = r \<longrightarrow> reads c (parse_members (n - 1) c depth q) ms (CHR 0x7D # rest)))"
  shows "reads c (parse_members n c depth pos) ((Some k, v) # ms) (CHR 0x7D # rest)"
proof -
  let ?p = "buffer_skip_whitespace c (pos + 1)"
  have q: "quoted k = CHR 0x22 # tl (quoted k)" by (simp add: quoted_def)
  have "drop ?p c = quoted k @ CHR '':'' # w2 @ render fmt d v @ post"
    using skip_ws(1) [of "pos + 1" c w "CHR 0x22" "tl (quoted k) @ CHR '':'' # w2 @ render fmt d v @ post"] assms(1,2) q by simp
  note key = parse_string_quoted [OF this assms(4)] drop_more [OF this]
  let ?o1 = "?p + length (quoted k)"
  have o1: "buffer_skip_whitespace c ?o1 = ?o1" "char_at c ?o1 = Some (CHR '':'')"
    using skip_here [OF key(2)] char_at_drop [OF key(2)] by simp_all
  obtain x r where x: "render fmt d v = x # r" "\<not> is_ws x" using first_char [OF assms(3)] by metis
  have "drop (buffer_skip_whitespace c (?o1 + 1)) c = render fmt d v @ post"
    using skip_ws(1) [of "?o1 + 1" c w2 x "r @ post"] drop_next [OF key(2)] assms(2) x by simp
  then obtain o3 where o3: "parse_value (n - 1) c depth (buffer_skip_whitespace c (?o1 + 1)) = Parsed v o3" "drop o3 c = post"
    using assms(6) unfolding reads_def by blast
  have "drop (pos + 1) c \<noteq> []" using assms(1) q by (metis append_is_Nil_conv list.distinct(1))
  then have ne: "char_at c (pos + 1) \<noteq> None" by (simp add: char_at_def split: list.splits)
  show ?thesis
  proof (cases "ms = []")
    case True
    then obtain w3 where w3: "post = w3 @ CHR 0x7D # rest" "\<forall>y \<in> set w3. is_ws y" using assms(7) by auto
    have p: "drop (buffer_skip_whitespace c o3) c = CHR 0x7D # rest"
      using skip_ws(1) [of o3 c w3 "CHR 0x7D" rest] o3(2) w3 by simp
    show ?thesis
      using key(1) o1 o3(1) ne assms(5) char_at_drop [OF p] p True by (simp add: parse_members.simps [of n] reads_def)
  next
    case False
    then obtain r where r: "post = CHR '','' # r"
      "\<And>q. drop (q + 1) c = r \<Longrightarrow> reads c (parse_members (n - 1) c depth q) ms (CHR 0x7D # rest)"
      using assms(7) by (simp only: if_False) blast
    have p: "drop o3 c = CHR '','' # r" using r(1) o3(2) by simp
    then have "buffer_skip_whitespace c o3 = o3" by (rule skip_here) simp
    moreover obtain o' where "parse_members (n - 1) c depth o3 = Parsed ms o'" "drop o' c = CHR 0x7D # rest"
      using r(2) [OF drop_next [OF p]] unfolding reads_def by blast
    ultimately show ?thesis
      using key(1) o1 o3(1) ne assms(5) char_at_drop [OF p] by (simp add: parse_members.simps [of n] reads_def)
  qed
qed

section \<open>Round trip\<close>

lemma value_stop_simps [simp]: "value_stop (CHR '','' # r)" "value_stop (CHR '']'' # r)" "value_stop (CHR 0x7D # r)"
    "is_ws x \<Longrightarrow> value_stop (x # r)"
  by (simp_all add: value_stop_def)

definition member_text :: "bool \<Rightarrow> nat \<Rightarrow> string \<Rightarrow> cjson \<Rightarrow> (string option \<times> cjson) list \<Rightarrow> string" where
  "member_text fmt d k v ms = quoted k @ CHR '':'' # (if fmt then [CHR 0x09] else []) @ render fmt d v @
     (if ms = [] then [] else '','') @ (if fmt then [newline] else []) @ render_members fmt d ms"

lemma render_members_text:
  "render_members fmt d ((Some k, v) # ms) = (if fmt then tabs d else []) @ member_text fmt d k v ms"
  by (simp add: member_text_def)

definition closing :: "bool \<Rightarrow> nat \<Rightarrow> string" where
  "closing fmt d = (if fmt then tabs d else []) @ [CHR 0x7D]"

lemma tabs_ws: "y \<in> set (tabs d) \<Longrightarrow> is_ws y"
  by (simp add: tabs_def)

lemma render_reads:
  "\<And>off n post. carried v \<Longrightarrow> printable d v \<Longrightarrow> drop off c = render fmt d v @ post \<Longrightarrow> value_stop post \<Longrightarrow>
     2 * length (render fmt d v) < n \<Longrightarrow> reads c (parse_value n c d off) v post"
  "\<And>pos n w post. vs \<noteq> [] \<Longrightarrow> \<forall>v \<in> set vs. carried v \<and> printable d v \<Longrightarrow> \<forall>y \<in> set w. is_ws y \<Longrightarrow>
     drop (pos + 1) c = w @ render_elements fmt d vs @ CHR '']'' # post \<Longrightarrow>
     2 * length (render_elements fmt d vs) + 1 < n \<Longrightarrow> reads c (parse_elements n c d pos) vs (CHR '']'' # post)"
  "\<And>pos n w post k0 v0 rest. ms = (k0, v0) # rest \<Longrightarrow> carried (CObject ms) \<Longrightarrow> \<forall>(k, v) \<in> set ms. printable d v \<Longrightarrow>
     \<forall>y \<in> set w. is_ws y \<Longrightarrow> drop (pos + 1) c = w @ member_text fmt d (the k0) v0 rest @ closing fmt (d - 1) @ post \<Longrightarrow>
     2 * length (member_text fmt d (the k0) v0 rest) + 1 < n \<Longrightarrow> reads c (parse_members n c d pos) ms (CHR 0x7D # post)"
proof (induction fmt d v and fmt d vs and fmt d ms rule: render_render_elements_render_members.induct)
  case (5 fmt d i x)
  from 5 show ?case by (intro reads_number [where d = d and fmt = fmt]) auto
next
  case (6 fmt d s)
  from 6 show ?case by (auto intro: reads_string split: option.splits)
next
  case (8 fmt d vs)
  show ?case
  proof (rule parse_array_reads)
    show "drop off c = CHR ''['' # render_elements fmt (d + 1) vs @ CHR '']'' # post" using 8 by simp
    show "d < CJSON_NESTING_LIMIT" "0 < n" using 8 by simp_all
    show "render_elements fmt (d + 1) vs @ CHR '']'' # post = CHR '']'' # post" if "vs = []" using that by simp
    show "\<exists>x r. render_elements fmt (d + 1) vs @ CHR '']'' # post = x # r \<and> \<not> is_ws x \<and> x \<noteq> CHR '']''" if "vs \<noteq> []"
    proof -
      have "carried (hd vs)" using that "8.prems"(1) by (cases vs) auto
      then obtain x r where "render fmt (d + 1) (hd vs) = x # r" "\<not> is_ws x" "x \<noteq> CHR '']''" by (rule first_char)
      then show ?thesis using that by (cases vs) auto
    qed
    show "reads c (parse_elements (n - 1) c (d + 1) off) vs (CHR '']'' # post)" if "vs \<noteq> []"
      using that "8.prems" by (intro "8.IH" [of "[]"]) (auto dest: drop_next)
  qed
next
  case (9 fmt d ms)
  let ?w = "(if fmt then [newline] else []) @ (if fmt \<and> ms \<noteq> [] then tabs (d + 1) else if fmt then tabs d else [])"
  let ?s = "case ms of [] \<Rightarrow> CHR 0x7D # post | (k, v) # ms \<Rightarrow> member_text fmt (d + 1) (the k) v ms @ closing fmt d @ post"
  have key: "\<exists>k' v ms'. ms = (Some k', v) # ms'" if "ms \<noteq> []"
    using that "9.prems"(1) by (cases ms) (auto split: option.splits)
  have r: "render fmt d (CObject ms) @ post = CHR 0x7B # ?w @ ?s"
  proof (cases "ms = []")
    case False
    then show ?thesis using key render_members_text [of fmt "d + 1"] by (auto simp: closing_def simp del: render_members.simps)
  qed simp
  show ?case
  proof (rule parse_object_reads)
    show "drop off c = CHR 0x7B # ?w @ ?s" using "9.prems"(3) r by simp
    show "\<forall>y \<in> set ?w. is_ws y" by (auto dest: tabs_ws)
    show "d < CJSON_NESTING_LIMIT" "0 < n" using "9.prems" by simp_all
    show "?s = CHR 0x7D # post" if "ms = []" using that by simp
    show "\<exists>r. ?s = CHR 0x22 # r" if "ms \<noteq> []" using key [OF that] by (auto simp: member_text_def quoted_def)
    show "reads c (parse_members (n - 1) c (d + 1) pos) ms (CHR 0x7D # post)" if ne: "ms \<noteq> []" and p: "drop (pos + 1) c = ?s" for pos
    proof -
      obtain k v ms' where m: "ms = (Some k, v) # ms'" using key [OF ne] by blast
      have "length (member_text fmt (d + 1) k v ms') \<le> length (render_members fmt (d + 1) ms)"
        unfolding m render_members_text by simp
      then have l: "2 * length (member_text fmt (d + 1) (the (Some k)) v ms') + 1 < n - 1"
        using "9.prems"(5) by simp
      show ?thesis
        by (rule "9.IH" [OF m "9.prems"(1) _ _ _ l, of "[]"]) (use "9.prems"(2) p m in auto)
    qed
  qed
next
  case (11 fmt d v vs)
  let ?post = "(if vs = [] then [] else if fmt then '', '' else '','') @ render_elements fmt d vs @ CHR '']'' # post"
  show ?case
  proof (rule parse_elements_reads)
    show "drop (pos + 1) c = w @ render fmt d v @ ?post" using "11.prems"(4) by simp
    show "\<forall>y \<in> set w. is_ws y" "carried v" "0 < n" using "11.prems" by auto
    show "reads c (parse_value (n - 1) c d off) v ?post" if "drop off c = render fmt d v @ ?post" for off
      using "11.prems" that by (intro "11.IH"(1)) auto
    show "if vs = [] then ?post = CHR '']'' # post else (\<exists>r. ?post = CHR '','' # r \<and>
       (\<forall>q. drop (q + 1) c = r \<longrightarrow> reads c (parse_elements (n - 1) c d q) vs (CHR '']'' # post)))"
    proof (cases "vs = []")
      case False
      let ?w = "if fmt then '' '' else []"
      have "reads c (parse_elements (n - 1) c d q) vs (CHR '']'' # post)"
        if "drop (q + 1) c = ?w @ render_elements fmt d vs @ CHR '']'' # post" for q
      proof (rule "11.IH"(2) [OF False _ _ that])
        show "2 * length (render_elements fmt d vs) + 1 < n - 1" using "11.prems"(5) False by (cases fmt) auto
      qed (use "11.prems"(2) in auto)
      then show ?thesis using False by simp
    qed simp
  qed
next
  case (13 fmt d k v ms)
  obtain k' where k': "k = Some k'" "CHR 0x00 \<notin> set k'" using "13.prems"(2) by (auto split: option.splits)
  have eq: "k0 = Some k'" "v0 = v" "rest = ms" using "13.prems"(1) k'(1) by simp_all
  let ?post = "(if ms = [] then [] else '','') @ (if fmt then [newline] else []) @ render_members fmt d ms @ closing fmt (d - 1) @ post"
  show ?case unfolding k'(1)
  proof (rule parse_members_reads)
    show "drop (pos + 1) c = w @ quoted k' @ CHR '':'' # (if fmt then [CHR 0x09] else []) @ render fmt d v @ ?post"
      using "13.prems"(5) unfolding eq by (simp add: member_text_def)
    show "\<forall>y \<in> set w \<union> set (if fmt then [CHR 0x09] else []). is_ws y" "carried v" "0 < n" "CHR 0x00 \<notin> set k'"
      using "13.prems" k' by auto
    have stop: "value_stop ?post"
      by (auto simp: closing_def tabs_def value_stop_def)
    show "reads c (parse_value (n - 1) c d off) v ?post" if "drop off c = render fmt d v @ ?post" for off
      by (rule "13.IH"(1) [OF _ _ that stop]) (use "13.prems"(2,3,6) eq in \<open>auto simp: member_text_def\<close>)
    show "if ms = [] then \<exists>w3. ?post = w3 @ CHR 0x7D # post \<and> (\<forall>y \<in> set w3. is_ws y) else (\<exists>r. ?post = CHR '','' # r \<and>
       (\<forall>q. drop (q + 1) c = r \<longrightarrow> reads c (parse_members (n - 1) c d q) ms (CHR 0x7D # post)))"
    proof (cases "ms = []")
      case True
      then show ?thesis
        by (auto simp: closing_def dest: tabs_ws intro: exI [of _ "(if fmt then [newline] else []) @ (if fmt then tabs (d - 1) else [])"])
    next
      case False
      then obtain k2 v2 ms' where m: "ms = (Some k2, v2) # ms'"
        using "13.prems"(2) by (cases ms) (auto split: option.splits)
      let ?w = "if fmt then newline # tabs d else []"
      have "reads c (parse_members (n - 1) c d q) ms (CHR 0x7D # post)"
        if q: "drop (q + 1) c = ?w @ member_text fmt d (the (Some k2)) v2 ms' @ closing fmt (d - 1) @ post" for q
      proof (rule "13.IH"(2) [OF m _ _ _ q])
        have "length (member_text fmt d k2 v2 ms') \<le> length (render_members fmt d ms)"
          unfolding m render_members_text by simp
        also have "\<dots> < length (member_text fmt d k' v ms)" by (simp add: member_text_def)
        finally show "2 * length (member_text fmt d (the (Some k2)) v2 ms') + 1 < n - 1"
          using "13.prems"(6) unfolding eq by simp
      qed (use "13.prems" tabs_ws in auto)
      moreover have "?post = CHR '','' # ?w @ member_text fmt d k2 v2 ms' @ closing fmt (d - 1) @ post"
        using m render_members_text by (simp del: render_members.simps)
      ultimately show ?thesis using False by simp
    qed
  qed
qed (auto intro: reads_literal)

lemma render_not_bom: "carried v \<Longrightarrow> skip_utf8_bom (render fmt d v @ r) = 0"
proof (cases v)
  case (CNumber i y)
  assume "carried v"
  then obtain n where n: "render fmt d v = dec_of_int n" using render_number CNumber by blast
  obtain x s where x: "dec_of_int n = x # s" "x = CHR ''-'' \<or> isdigit x"
    using dec_of_int_chars [of n] by (cases "dec_of_int n") auto
  have "x \<noteq> CHR 0xEF" using x(2) by (auto simp: isdigit_def)
  then show ?thesis using n x(1) by (simp add: skip_utf8_bom_def utf8_bom_def)
qed (auto simp: skip_utf8_bom_def utf8_bom_def quoted_def)

lemma quoted_no_nul: "CHR 0x00 \<notin> set s \<Longrightarrow> CHR 0x00 \<notin> set (quoted s)"
proof -
  have e: "CHR 0x00 \<notin> set (escape_char x)" if "x \<noteq> CHR 0x00" for x
    using that
  proof (cases rule: escape_char_cases)
    case (long a b c d)
    then show ?thesis by auto
  qed (use that in auto)
  have "CHR 0x00 \<notin> set s \<Longrightarrow> CHR 0x00 \<notin> set (concat (map escape_char s))" by (induction s) (simp_all add: e [OF not_sym])
  then show "CHR 0x00 \<notin> set s \<Longrightarrow> CHR 0x00 \<notin> set (quoted s)" by (simp add: quoted_def)
qed

lemma render_no_nul:
  "carried v \<Longrightarrow> CHR 0x00 \<notin> set (render fmt d v)"
  "\<forall>v \<in> set vs. carried v \<Longrightarrow> CHR 0x00 \<notin> set (render_elements fmt d vs)"
  "carried (CObject ms) \<Longrightarrow> CHR 0x00 \<notin> set (render_members fmt d ms)"
proof (induction fmt d v and fmt d vs and fmt d ms rule: render_render_elements_render_members.induct)
  case (5 fmt d i x)
  then obtain n where n: "render fmt d (CNumber i x) = dec_of_int n" using render_number by blast
  show ?case unfolding n using dec_of_int_chars(1) [of n] by (auto simp: is_number_char_def isdigit_def)
next
  case (6 fmt d s)
  then show ?case using quoted_no_nul by (auto split: option.splits)
next
  case (13 fmt d k v ms)
  then show ?case using quoted_no_nul by (auto simp: tabs_def newline_def split: option.splits)
qed (auto simp: newline_def tabs_def)

lemma parse_render:
  assumes "carried item" "printable 0 item"
  shows "cJSON_Parse (render fmt 0 item) = Some item"
proof -
  let ?s = "render fmt 0 item"
  let ?c = "?s @ [CHR 0x00]"
  obtain x r where x: "?s = x # r" "\<not> is_ws x" using first_char [OF assms(1)] by metis
  then have "drop 0 ?c = x # r @ [CHR 0x00]" by simp
  from skip_here [OF this x(2)] have skip: "buffer_skip_whitespace ?c (skip_utf8_bom ?c) = 0"
    by (simp only: render_not_bom [OF assms(1)])
  have "parse_fuel ?c = 2 * length ?s + 4" by (simp add: parse_fuel_def)
  then have "2 * length ?s < parse_fuel ?c" by linarith
  then have "reads ?c (parse_value (parse_fuel ?c) ?c 0 0) item [CHR 0x00]"
    by (intro render_reads(1) [OF assms(1,2), of 0 ?c fmt]) (simp_all add: is_ws_def)
  then obtain off where "parse_value (parse_fuel ?c) ?c 0 0 = Parsed item off"
    by (auto simp: reads_def)
  then have "cJSON_ParseWithLengthOpts ?c False = Parsed item off"
    using skip by (simp add: cJSON_ParseWithLengthOpts_def)
  then show ?thesis
    using cstr_id [OF render_no_nul(1) [OF assms(1)]] by (simp add: cJSON_Parse_def cJSON_ParseWithOpts_def)
qed



end
