(* ===== verification/Wire.thy ===== *)
theory Wire
  imports EndToEnd CJsonRoundtrip
begin

text \<open>
  The programs on top of the JSON library: the values they exchange as items of the library, and
  the login of theory \<open>EndToEnd\<close> with the library's parser and printer on both sides.
\<close>

section \<open>Values and items\<close>

fun build :: "json \<Rightarrow> cjson" where
  "build JNull = CNull"
| "build (JBool b) = (if b then CTrue else CFalse)"
| "build (JNumber n) = cJSON_CreateNumber (Fin (of_int n))"
| "build (JString s) = CString (Some s)"
| "build (JArray vs) = CArray (map build vs)"
| "build (JObject ms) = CObject (map (\<lambda>(k, v). (Some k, build v)) ms)"

fun view :: "cjson \<Rightarrow> json" where
  "view CTrue = JBool True"
| "view CFalse = JBool False"
| "view (CNumber i x) = (case x of Fin q \<Rightarrow> JNumber (CDouble.truncate q) | _ \<Rightarrow> JNumber i)"
| "view (CString s) = JString (case s of None \<Rightarrow> [] | Some t \<Rightarrow> t)"
| "view (CArray vs) = JArray (map view vs)"
| "view (CObject ms) = JObject (map (\<lambda>(k, v). (case k of None \<Rightarrow> [] | Some t \<Rightarrow> t, view v)) ms)"
| "view _ = JNull"

definition cjson_parse :: "string \<Rightarrow> json option" where
  "cjson_parse s = map_option view (cJSON_Parse s)"

definition cjson_print :: "(nat \<Rightarrow> bool) \<Rightarrow> json \<Rightarrow> string option" where
  "cjson_print grow j = (case cJSON_PrintUnformatted grow (build j) of Some r \<Rightarrow> r | None \<Rightarrow> None)"

lemma length_dec: "n < 10 ^ Suc k \<Longrightarrow> length (dec_of_nat n) \<le> Suc k"
proof (cases "n = 0")
  case False
  assume "n < 10 ^ Suc k"
  moreover have "10 ^ (length (dec_of_nat n) - 1) \<le> n" using dec_bounds [of n] False by simp
  ultimately have "(10 :: nat) ^ (length (dec_of_nat n) - 1) < 10 ^ Suc k" by simp
  then have "length (dec_of_nat n) - 1 < Suc k" by (simp only: power_strict_increasing_iff)
  then show ?thesis by simp
qed (simp add: dec_of_nat.simps)

lemma build_number:
  assumes "\<bar>n\<bar> < 10 ^ 15"
  shows "carried (build (JNumber n))" "printable d (build (JNumber n))" "view (build (JNumber n)) = JNumber n"
proof -
  have "nat \<bar>n\<bar> < 10 ^ Suc 14" using assms by (simp add: nat_less_iff)
  then have "length (dec_of_nat (nat \<bar>n\<bar>)) \<le> Suc 14" by (rule length_dec)
  then have "length (dec_of_int n) \<le> 16" by (auto simp: dec_of_int_def abs_if split: if_splits)
  then show "printable d (build (JNumber n))"
    using number_text_int [OF assms] by (simp add: cJSON_CreateNumber_def)
  show "carried (build (JNumber n))" "view (build (JNumber n)) = JNumber n"
    using assms by (auto simp: cJSON_CreateNumber_def CDouble.truncate_def)
qed

lemma plain_item_carried:
  assumes "plain_item v"
  shows "carried (build v)" "printable d (build v)" "view (build v) = v"
  using assms build_number by (cases v; simp add: plain_item_def)+

lemma plain_object_carried:
  assumes "plain_object j"
  shows "carried (build j)" "printable 0 (build j)" "view (build j) = j"
proof -
  obtain ms where j: "j = JObject ms" "\<forall>(k, v) \<in> set ms. CHR 0x00 \<notin> set k \<and> plain_item v"
    using assms by (cases j) (auto simp: plain_object_def)
  show "carried (build j)" "printable 0 (build j)"
    using j plain_item_carried(1,2) by (auto simp: CJSON_NESTING_LIMIT_def)
  have "map ((\<lambda>(k, v). (case k of None \<Rightarrow> [] | Some t \<Rightarrow> t, view v)) \<circ> (\<lambda>(k, v). (Some k, build v))) ms = ms"
    using j(2) plain_item_carried(3) by (intro map_idI) auto
  then show "view (build j) = j" by (simp add: j(1))
qed

lemma render_not_Nil: "carried v \<Longrightarrow> render fmt d v \<noteq> []"
  by (metis first_char list.distinct(1))

text \<open>The requirement of theory \<open>EndToEnd\<close> on the JSON library holds for this library.\<close>

lemma json_wire_ok_cjson:
  assumes "json_parse E = cjson_parse" "json_print E = cjson_print grow"
  shows "json_wire_ok E"
  unfolding json_wire_ok_def
proof (intro allI impI)
  fix j s
  assume j: "plain_object j" and "json_print E j = Some s"
  then have "s = render False 0 (build j)"
    using print_with_prints [of grow False "build j"] assms(2)
    by (auto simp: cjson_print_def cJSON_PrintUnformatted_def split: option.splits)
  then show "s \<noteq> [] \<and> CHR 0x00 \<notin> set s \<and> json_parse E s = Some j"
    using plain_object_carried [OF j] render_no_nul(1) render_not_Nil parse_render assms(1) by (simp add: cjson_parse_def)
qed

section \<open>Login over the wire\<close>

text \<open>An accepted login reaches the client.\<close>

lemma login_delivered:
  assumes "length base \<le> 255" "json_print E (string_request [(''username'', user), (''password'', pw)]) = Some b"
    "b \<noteq> []" "length b \<le> MAX_BODY_SIZE" "CHR 0x00 \<notin> set b" "handle_login E ci b w = Some (Queued r, w')"
    "accepted (Queued r)" "body r \<noteq> []" "json_parse E (cstr (body r)) = Some j" "config_of_reply j = Some cfg" "cl_session_token cfg \<noteq> []"
  shows "client_api_login (linked_client E ci base) (client_api_init base None insecure) user pw w = Some (0, Some cfg, w')"
proof -
  let ?r = "(base_request (client_api_init base None insecure) ''/login'' [''Content-Type: application/json''])\<lparr>http_postfields := Some b\<rparr>"
  have r: "http_url ?r = base @ ''/login''" "http_postfields ?r = Some b"
    using assms(1) by (simp_all add: base_request_def client_api_init_def)
  have "server_perform E ci base ?r w = (Some (reply_of (Queued r)), w')"
    using assms(4-6) cstr_id [OF assms(5)]
    by (subst server_perform_post [OF _ assms(3) r]) (simp_all add: route_def body_text_def)
  moreover have "read_reply (linked_client E ci base) (reply_of (Queued r)) = Some (Some j)"
    using assms(7-9) by (simp add: read_reply_def reply_of_def linked_client_def write_memory_cb_def accepted_def)
  ultimately have "do_post (linked_client E ci base) (client_api_init base None insecure) ''/login'' (Some b) None w = Some (Some j, w')"
    by (simp add: do_post_def do_request_def linked_client_def Let_def)
  then show ?thesis using assms(2,10,11) by (simp add: client_api_login_def linked_client_def)
qed

text \<open>
  C3: Login from end to end, with the JSON library on both sides. When a login of the Linux client
  against this server succeeds, the server has added exactly one session, live, and the client's
  configuration describes it: its token, its address and its expiry are those of the session, the
  public key registered with the session belongs to the private key the client got, and endpoint,
  networks and DNS are those of the server's configuration. Assumed: the sizes of the texts the
  other libraries produce, and an address of the server that fits the client's buffer.\<close>

theorem login_end_to_end:
  assumes "services_ok E" "json_parse E = cjson_parse" "json_print E = cjson_print grow"
    "world_ok w" "config_ok (config w)" "wire_plain E w" "length base \<le> 255"
    "CHR 0x00 \<notin> set user" "CHR 0x00 \<notin> set pw"
    "client_api_login (linked_client E ci base) (client_api_init base None insecure) user pw w = Some (0, Some cfg, w')"
  shows "\<exists>s pub priv i. sessions (store w') = sessions (store w) @ [s] \<and> revoked s = 0 \<and>
     cl_session_token cfg = session_token s \<and> cl_client_address cfg = allowed_ip s \<and> cl_expires_at cfg = expires_at s \<and>
     snd (auth_generate_keypair E i) = (pub, priv) \<and> device_pubkey s = bin2base64 E pub \<and>
     cl_client_private_key_b64 cfg = bin2base64 E priv \<and> cl_endpoint cfg = endpoint_public_addr (config w) \<and>
     cl_allowed_ips cfg = ip_pool_cidr (config w) \<and> cl_dns cfg = dns (config w)"
  by (rule login_described [OF assms(1) json_wire_ok_cjson [OF assms(2,3)] assms(4-10)])

section \<open>A login of the demonstration account\<close>

definition wired_env :: "wg_device list env" where
  "wired_env = demo_env\<lparr>json_parse := cjson_parse, json_print := cjson_print (\<lambda>n. True), sys_time := (\<lambda>n. 100)\<rparr>"

lemma wired_simps [simp]: "json_parse wired_env = cjson_parse" "json_print wired_env = cjson_print (\<lambda>n. True)"
  "sys_time wired_env = (\<lambda>n. 100)" "randombytes wired_env = (\<lambda>n l. replicate l (of_nat n))"
  "pwhash_str_verify wired_env = (=)" "scalarmult_base wired_env = Some" "bin2base64 wired_env = wg_key_to_base64"
  "bin2base64url wired_env = bin2base64url demo_env"
  "base642bin wired_env = (\<lambda>s n. key_of_text s)" "sql wired_env = (\<lambda>n. SqlOk)" "scan wired_env = id"
  "wg_set_device wired_env = (\<lambda>d k. (0, d # k))" "wg_get_device wired_env = (\<lambda>n k. None)"
  by (simp_all add: wired_env_def demo_env_def)

lemma wired_ip: "get_client_ip wired_env (Inet 1) = ''0.0.0.1''"
  using demo_ip by (simp add: get_client_ip_def)

text \<open>The answer to the login of the demonstration account.\<close>

definition wired_reply :: json where
  "wired_reply = login_response wired_env demo_world (auth_generate_token wired_env 2) (clamp (replicate 32 0))
     (auth_generate_psk wired_env 1) ''10.8.1.12/32'' 43300"

lemma wired_login:
  assumes "cjson_parse b = Some (JObject [(''username'', JString ''ann''), (''password'', JString ''secret'')])"
  shows "\<exists>w'. handle_login wired_env (Inet 1) b demo_world = Some (send_json_response wired_env wired_reply 200, w')"
proof -
  have ttl: "100 + session_default_ttl_seconds set_default_config = 43300" by (simp add: set_default_config_def)
  show ?thesis
    unfolding handle_login_def wired_ip
    by (simp add: assms rate_fresh demo_items Let_def demo_world_def demo_db_def empty_db_def find_account_def next_sql_def
     db_get_account_by_username_def rows_read_def account_of_row_def valuestring_def auth_verify_password_def
     login_session_def count_active_def timed_sql_def time_now_def db_count_active_sessions_def next_rnd_def
     auth_generate_keypair_def allocate_ip_def demo_alloc add_peer_def wgctl_add_peer_def create_session_def db_create_session_def
     log_audit_def db_log_audit_def login_response_def wired_reply_def ttl WG_KEY_LEN_def numeral_2_eq_2 split: option.splits)
qed

definition wired_request :: string where
  "wired_request = ''{\"username\":\"ann\",\"password\":\"secret\"}''"

lemma wired_texts:
  "cjson_print (\<lambda>n. True) (string_request [(''username'', ''ann''), (''password'', ''secret'')]) = Some wired_request"
  "wired_request \<noteq> []" "length wired_request \<le> MAX_BODY_SIZE" "CHR 0x00 \<notin> set wired_request"
  by code_simp+

lemma wired_text_parses: "cjson_parse wired_request = Some (JObject [(''username'', JString ''ann''), (''password'', JString ''secret'')])"
  by code_simp

lemma wired_printed: "cjson_print (\<lambda>n. True) wired_reply \<noteq> None"
  by code_simp

lemma wired_config: "case config_of_reply wired_reply of Some cfg \<Rightarrow> cl_session_token cfg \<noteq> [] | None \<Rightarrow> False"
  by code_simp

lemma wired_plain_reply: "plain_object wired_reply"
  by code_simp

lemma base64_char_plain: "0 \<le> v \<Longrightarrow> v < 64 \<Longrightarrow> base64_char v \<noteq> CHR 0x00"
proof
  assume v: "0 \<le> v" "v < 64" "base64_char v = CHR 0x00"
  have "base64_val (CHR 0x00) = -1" by code_simp
  then show False using base64_val_char [OF v(1,2)] v(1,3) by simp
qed

lemma base64_text_plain: "CHR 0x00 \<notin> set (wg_key_to_base64 k)"
proof -
  have "CHR 0x00 \<notin> set (encode_base64 a b c)" for a b c
    using base64_char_plain by (cases rule: sextets_Cons [of a b c]) (auto simp: encode_sextets_base64 dest: not_sym)
  then show ?thesis
    by (induction k rule: wg_key_to_base64.induct) (auto dest: in_set_takeD)
qed

lemma wire_plain_wired: "wire_plain wired_env demo_world"
proof -
  have "CHR 0x00 \<notin> set (map url_char (take 43 (wg_key_to_base64 k)))" for k
    using base64_text_plain [of k] by (auto simp: url_char_def dest: in_set_takeD split: if_splits)
  then show ?thesis
    using base64_text_plain by (simp add: wire_plain_def demo_world_def set_default_config_def wired_env_def demo_env_def)
qed

theorem login_end_to_end_witness:
  "\<exists>cfg w' s. client_api_login (linked_client wired_env (Inet 1) ''http://s'') (client_api_init ''http://s'' None True)
       ''ann'' ''secret'' demo_world = Some (0, Some cfg, w') \<and>
     sessions (store w') = sessions (store demo_world) @ [s] \<and> cl_session_token cfg = session_token s"
proof -
  obtain w' where w': "handle_login wired_env (Inet 1) wired_request demo_world = Some (send_json_response wired_env wired_reply 200, w')"
    using wired_login [OF wired_text_parses] by blast
  obtain out where out: "cjson_print (\<lambda>n. True) wired_reply = Some out" using wired_printed by blast
  obtain r where r: "send_json_response wired_env wired_reply 200 = Queued r" "accepted (Queued r)" "body r = out"
    by (simp add: send_json_response_def out accepted_def)
  have wire: "out \<noteq> []" "CHR 0x00 \<notin> set out" "cjson_parse out = Some wired_reply"
    using json_wire_ok_cjson [OF wired_simps(1,2)] wired_plain_reply out by (simp_all add: json_wire_ok_def)
  obtain cfg where cfg: "config_of_reply wired_reply = Some cfg" "cl_session_token cfg \<noteq> []"
    using wired_config by (auto split: option.splits)
  have login: "client_api_login (linked_client wired_env (Inet 1) ''http://s'') (client_api_init ''http://s'' None True)
       ''ann'' ''secret'' demo_world = Some (0, Some cfg, w')"
    by (rule login_delivered [OF _ _ wired_texts(2-4) w' [unfolded r(1)] r(2) _ _ cfg])
      (simp_all add: wired_texts(1) r(3) wire cstr_id)
  have "services_ok wired_env" using services_ok_demo by (simp add: services_ok_def wired_env_def)
  moreover have "config_ok (config demo_world)" by (simp add: demo_world_def config_ok_default)
  ultimately show ?thesis
    using login_end_to_end [OF _ wired_simps(1,2) world_ok_demo _ wire_plain_wired _ _ _ login] login by auto
qed

end
