(* ===== verification/WinLink.thy ===== *)
theory WinLink
  imports WinClient Wire
begin

text \<open>
  The Windows client talking to the server, with the JSON library of the repository on both sides:
  after a login the file of the tunnel describes the session that the server keeps.
\<close>

section \<open>The network\<close>

text \<open>
  A request that reaches the server is one POST with its body, and the answer comes back in one
  piece. The address of the server and its cracking are those of \<open>crack\<close>; \<open>ci\<close> is the client's
  address, and the processes started on the client answer with \<open>p\<close>.\<close>

definition run_of :: "mhd_result \<Rightarrow> http_run" where
  "run_of a = (case a of
       Queued r \<Rightarrow> \<lparr>session_opened = True, connection_opened = True, request_opened = True, request_sent = True,
         response_received = True, status_header = int (status r), read_turns = [Available (length (body r)) (Some (body r))]\<rparr>
     | _ \<Rightarrow> \<lparr>session_opened = True, connection_opened = True, request_opened = True, request_sent = True,
         response_received = False, status_header = 0, read_turns = []\<rparr>)"

definition win_link ::
  "'k env \<Rightarrow> client_addr \<Rightarrow> (string \<Rightarrow> (string \<times> nat \<times> string) option) \<Rightarrow> process_result \<Rightarrow> 'k world win_env" where
  "win_link E ci crack p = \<lparr>crack_url = crack,
     winhttp = (\<lambda>q w. case serve E \<lparr>conn_addr = ci, conn_authorization = None\<rparr> (wr_path q) ''POST''
           (if wr_body q = [] then [] else [wr_body q]) w of
         None \<Rightarrow> (run_of MHD_NO, w) | Some (a, w') \<Rightarrow> (run_of a, w')),
     create_process = (\<lambda>a b w. (p, w)), sleep_second = id, module_path = ''C:/vpn/authwgui.exe'', conf_opens = True,
     win_parse = json_parse E, win_print = json_print E\<rparr>"

lemma win_post_answer:
  assumes "PostJson (win_link E ci crack p) url b ins w = ((True, resp, 200), w')" "crack url = Some (h, port, ep)" "b \<noteq> []"
    "CHR 0x00 \<notin> set b"
  shows "\<exists>r. route E \<lparr>conn_addr = ci, conn_authorization = None\<rparr> ep ''POST'' (Some b) w = Some (Queued r, w') \<and>
     accepted (Queued r) \<and> resp = body r"
proof -
  let ?conn = "\<lparr>conn_addr = ci, conn_authorization = None\<rparr>"
  have srv: "serve E ?conn ep ''POST'' [b] w = (if length b \<le> MAX_BODY_SIZE then route E ?conn ep ''POST'' (Some b) w
      else Some (send_error E 413 ''Request body too large'', w))"
    using serve_pieces [of "[b]" E ?conn ep "''POST''" w] assms(3) by (simp add: joined_def)
  obtain a where a: "serve E ?conn ep ''POST'' [b] w = Some (a, w')" "response_received (run_of a)"
      "status_header (run_of a) = 200" "read_body (read_turns (run_of a)) [] = (True, resp)"
    using assms(1-3)
    by (auto simp: PostJson_def win_link_def Let_def run_of_def split: option.splits prod.splits if_splits mhd_result.splits)
  then obtain r where r: "a = Queued r" "status r = 200" "resp = body r"
    by (auto simp: run_of_def Let_def split: mhd_result.splits if_splits)
  have acc: "accepted (Queued r)" using r(2) by (simp add: accepted_def)
  have "length b \<le> MAX_BODY_SIZE"
  proof (rule ccontr)
    assume "\<not> length b \<le> MAX_BODY_SIZE"
    then have "a = send_error E 413 ''Request body too large''" using a(1) srv by simp
    then show False using acc r(1) by simp
  qed
  then show ?thesis using a(1) srv r acc by auto
qed

section \<open>Login\<close>

definition login_request :: "string \<Rightarrow> string \<Rightarrow> json" where
  "login_request user pw = cJSON_AddStringToObject ''password'' (Some pw)
     (cJSON_AddStringToObject ''username'' (Some user) cJSON_CreateObject)"

lemma login_request_plain: "CHR 0x00 \<notin> set user \<Longrightarrow> CHR 0x00 \<notin> set pw \<Longrightarrow> plain_object (login_request user pw)"
  by (simp add: login_request_def cJSON_AddStringToObject_def cJSON_AddItem_def cJSON_CreateObject_def
      plain_object_def plain_item_def)

text \<open>A login that succeeds has got a complete reply with status 200.\<close>

lemma WgLogin_reply:
  assumes "WgLogin F (Some user) (Some pw) (Some url) s n = Some (0, s', n')" "\<not> w_is_running s"
  obtains b resp j c m where "win_print F (login_request user pw) = Some b"
    "PostJson F (strip_slash url @ ''/login'') b (w_insecure s) n = ((True, resp, 200), m)"
    "win_parse F (cstr resp) = Some j" "reply_config j = Some c" "w_session_token s' = wc_token c"
    "w_conf s' = Some (conf_text c)" "snd (InstallTunnel F (GetAbsoluteConfPath F) m) = n'"
proof -
  obtain b ok resp code m where b: "win_print F (login_request user pw) = Some b"
      "PostJson F (strip_slash url @ ''/login'') b (w_insecure s) n = ((ok, resp, code), m)" "ok"
      "read_login_reply F resp code ((SetStatus ''Connecting...'' s)\<lparr>w_server_url := strip_slash url\<rparr>) m = (0, s', n')"
    using assms
    by (auto simp: WgLogin_def login_request_def SetStatus_def Let_def split: if_splits option.splits prod.splits bind_splits)
  then obtain j c where j: "win_parse F (cstr resp) = Some j" "code = 200" "reply_config j = Some c"
      "apply_config F c ((SetStatus ''Connecting...'' s)\<lparr>w_server_url := strip_slash url\<rparr>) m = (0, s', n')"
    by (auto simp: read_login_reply_def split: option.splits if_splits)
  then have "w_session_token s' = wc_token c" "w_conf s' = Some (conf_text c)" "snd (InstallTunnel F (GetAbsoluteConfPath F) m) = n'"
    by (auto simp: apply_config_def SetStatus_def Let_def split: if_splits prod.splits)
  then show thesis using that b j by auto
qed

text \<open>The fields of an answer of the server, under names that differ even without regard to case.\<close>

lemma login_response_fields:
  "reply_config (login_response E w token priv psk ip expires) = Some
     \<lparr>wc_token = token, wc_priv = bin2base64 E priv, wc_addr = ip,
      wc_srv_pub = (if server_pubkey_loaded w then bin2base64 E (server_pubkey w) else ''<UNKNOWN>''),
      wc_psk = bin2base64 E psk, wc_endpoint = endpoint_public_addr (config w), wc_allowed_ips = ip_pool_cidr (config w),
      wc_dns = dns (config w)\<rparr>"
  by code_simp

lemma win_link_simps [simp]:
  "win_parse (win_link E ci crack p) = json_parse E" "win_print (win_link E ci crack p) = json_print E"
  "snd (InstallTunnel (win_link E ci crack p) path w) = w" "crack_url (win_link E ci crack p) = crack"
  by (simp_all add: win_link_def InstallTunnel_def split: process_result.splits)


text \<open>The login of the demonstration account from Windows.\<close>

definition win_wired :: "wg_device list world win_env" where
  "win_wired = win_link wired_env (Inet 1) (\<lambda>u. Some (''h'', 443, drop 9 u)) (ExitCode 0)"

lemma win_post_delivered:
  assumes "crack url = Some (h, port, ep)" "b \<noteq> []" "length b \<le> MAX_BODY_SIZE" "length (body r) \<le> MAX_RESPONSE_SIZE"
    "route E \<lparr>conn_addr = ci, conn_authorization = None\<rparr> ep ''POST'' (Some b) w = Some (Queued r, w')"
  shows "PostJson (win_link E ci crack p) url b ins w = ((True, body r, int (status r)), w')"
proof -
  have "serve E \<lparr>conn_addr = ci, conn_authorization = None\<rparr> ep ''POST'' [b] w = Some (Queued r, w')"
    using serve_pieces [of "[b]" E "\<lparr>conn_addr = ci, conn_authorization = None\<rparr>" ep "''POST''" w] assms by (simp add: joined_def)
  then show ?thesis using assms(1,2,4) by (simp add: PostJson_def win_link_def run_of_def Let_def)
qed

lemma wired_reply_size: "case cjson_print (\<lambda>n. True) wired_reply of Some s \<Rightarrow> length s \<le> 1048576 | None \<Rightarrow> False"
  by code_simp

lemma win_wired_login:
  "\<exists>s w. WgLogin win_wired (Some ''ann'') (Some ''secret'') (Some ''https://h'') win_start demo_world = Some (0, s, w)"
proof -
  obtain w' where w': "handle_login wired_env (Inet 1) wired_request demo_world = Some (send_json_response wired_env wired_reply 200, w')"
    using wired_login [OF wired_text_parses] by blast
  obtain out where out: "cjson_print (\<lambda>n. True) wired_reply = Some out" "length out \<le> MAX_RESPONSE_SIZE"
    using wired_reply_size by (auto simp: MAX_RESPONSE_SIZE_def split: option.splits)
  have wire: "out \<noteq> []" "CHR 0x00 \<notin> set out" "cjson_parse out = Some wired_reply"
    using json_wire_ok_cjson [OF wired_simps(1,2)] wired_plain_reply out by (simp_all add: json_wire_ok_def)
  obtain r where r: "send_json_response wired_env wired_reply 200 = Queued r" "body r = out" "status r = 200"
    by (simp add: send_json_response_def out)
  have "route wired_env \<lparr>conn_addr = Inet 1, conn_authorization = None\<rparr> ''/login'' ''POST'' (Some wired_request) demo_world =
      Some (Queued r, w')"
    using w' r(1) cstr_id [OF wired_texts(4)] by (simp add: route_def body_text_def)
  then have post: "PostJson win_wired ''https://h/login'' wired_request False demo_world = ((True, out, 200), w')"
    using win_post_delivered [of "\<lambda>u. Some (''h'', 443, drop 9 u)" "''https://h/login''" "''h''" 443 "''/login''" wired_request r]
      wired_texts(2,3) out(2) r(2,3) unfolding win_wired_def by simp
  have req: "json_print wired_env (cJSON_AddStringToObject ''password'' (Some ''secret'')
     (cJSON_AddStringToObject ''username'' (Some ''ann'') cJSON_CreateObject)) = Some wired_request"
    using wired_texts(1) by (simp add: cJSON_AddStringToObject_def string_request_def cJSON_CreateObject_def cJSON_AddItem_def)
  obtain c where c: "reply_config wired_reply = Some c"
    by (simp add: wired_reply_def login_response_fields)
  have inst: "InstallTunnel win_wired path n = (True, n)" for path n
    by (simp add: InstallTunnel_def win_wired_def win_link_def)
  have fields: "win_parse win_wired = cjson_parse" "win_print win_wired = cjson_print (\<lambda>n. True)" "conf_opens win_wired"
    by (simp_all add: win_wired_def win_link_def)
  show ?thesis
    using post
    by (simp add: WgLogin_def win_start_def starts_with_def strip_slash_def SetStatus_def fields req [unfolded wired_simps(2)]
      read_login_reply_def cstr_id wire c apply_config_def inst Let_def)
qed


end
