(* ===== verification/CJsonHeap.thy ===== *)
theory CJsonHeap
  imports CJson
begin

text \<open>
  The items of the JSON library in memory: \<open>cJSON\<close> structures linked by pointers, the strings they
  own, and the functions of \<open>cJSON.c\<close> that create, link, look up, detach, replace, copy and delete
  them. A function returns \<open>None\<close> where the code has undefined behaviour (NULL or a freed address is
  read or written, an address is freed twice) and where a loop over the links never ends.
\<close>

section \<open>Memory\<close>

text \<open>
  A pointer is an address or NULL (\<open>None\<close>). Items and strings live in two maps under addresses from
  one counter; a string is what it holds before its NUL. \<open>grants\<close> says for every address whether the
  allocation that would get it succeeds.\<close>

record cjson_node =
  nd_next :: "nat option"
  nd_prev :: "nat option"
  nd_child :: "nat option"
  nd_type :: u32
  nd_valuestring :: "nat option"
  nd_valueint :: int
  nd_valuedouble :: double
  nd_string :: "nat option"

record jheap =
  items :: "nat \<Rightarrow> cjson_node option"
  texts :: "nat \<Rightarrow> string option"
  next_free :: nat
  grants :: "nat \<Rightarrow> bool"

definition cJSON_False :: u32 where "cJSON_False = 1"
definition cJSON_True :: u32 where "cJSON_True = 2"
definition cJSON_NULL :: u32 where "cJSON_NULL = 4"
definition cJSON_Number :: u32 where "cJSON_Number = 8"
definition cJSON_String :: u32 where "cJSON_String = 16"
definition cJSON_Array :: u32 where "cJSON_Array = 32"
definition cJSON_Object :: u32 where "cJSON_Object = 64"
definition cJSON_Raw :: u32 where "cJSON_Raw = 128"
definition cJSON_IsReference :: u32 where "cJSON_IsReference = 256"
definition cJSON_StringIsConst :: u32 where "cJSON_StringIsConst = 512"

definition is_reference :: "cjson_node \<Rightarrow> bool" where
  "is_reference n \<longleftrightarrow> nd_type n AND cJSON_IsReference \<noteq> 0"

definition string_is_const :: "cjson_node \<Rightarrow> bool" where
  "string_is_const n \<longleftrightarrow> nd_type n AND cJSON_StringIsConst \<noteq> 0"

definition allocate :: "jheap \<Rightarrow> nat option \<times> jheap" where
  "allocate h = (if grants h (next_free h) then Some (next_free h) else None, h\<lparr>next_free := next_free h + 1\<rparr>)"

definition zero_node :: cjson_node where
  "zero_node = \<lparr>nd_next = None, nd_prev = None, nd_child = None, nd_type = 0, nd_valuestring = None,
     nd_valueint = 0, nd_valuedouble = Fin 0, nd_string = None\<rparr>"

definition cJSON_New_Item :: "jheap \<Rightarrow> nat option \<times> jheap" where
  "cJSON_New_Item h =
     (case allocate h of
        (None, h) \<Rightarrow> (None, h)
      | (Some p, h) \<Rightarrow> (Some p, h\<lparr>items := (items h)(p \<mapsto> zero_node)\<rparr>))"

definition cJSON_strdup :: "nat option \<Rightarrow> jheap \<Rightarrow> (nat option \<times> jheap) ub" where
  "cJSON_strdup s h =
     (case s of
        None \<Rightarrow> Some (None, h)
      | Some a \<Rightarrow> do {
          t \<leftarrow> texts h a;
          Some (case allocate h of
              (None, h) \<Rightarrow> (None, h)
            | (Some p, h) \<Rightarrow> (Some p, h\<lparr>texts := (texts h)(p \<mapsto> t)\<rparr>))
        })"

text \<open>Writing to an item, and the deallocation of a string and of an item.\<close>

definition upd :: "nat \<Rightarrow> (cjson_node \<Rightarrow> cjson_node) \<Rightarrow> jheap \<Rightarrow> jheap ub" where
  "upd p f h = (case items h p of None \<Rightarrow> None | Some n \<Rightarrow> Some (h\<lparr>items := (items h)(p \<mapsto> f n)\<rparr>))"

definition free_text :: "nat \<Rightarrow> jheap \<Rightarrow> jheap ub" where
  "free_text a h = (case texts h a of None \<Rightarrow> None | Some t \<Rightarrow> Some (h\<lparr>texts := (texts h)(a := None)\<rparr>))"

definition free_item :: "nat \<Rightarrow> jheap \<Rightarrow> jheap ub" where
  "free_item p h = (case items h p of None \<Rightarrow> None | Some n \<Rightarrow> Some (h\<lparr>items := (items h)(p := None)\<rparr>))"

section \<open>Deletion\<close>

definition release_valuestring :: "nat \<Rightarrow> jheap \<Rightarrow> jheap ub" where
  "release_valuestring p h =
     do {
       n \<leftarrow> items h p;
       case nd_valuestring n of
         None \<Rightarrow> Some h
       | Some a \<Rightarrow>
           if is_reference n then Some h
           else do { h \<leftarrow> free_text a h; upd p (\<lambda>n. n\<lparr>nd_valuestring := None\<rparr>) h }
     }"

definition release_string :: "nat \<Rightarrow> jheap \<Rightarrow> jheap ub" where
  "release_string p h =
     do {
       n \<leftarrow> items h p;
       case nd_string n of
         None \<Rightarrow> Some h
       | Some a \<Rightarrow>
           if string_is_const n then Some h
           else do { h \<leftarrow> free_text a h; upd p (\<lambda>n. n\<lparr>nd_string := None\<rparr>) h }
     }"

partial_function (option) cJSON_Delete :: "nat option \<Rightarrow> jheap \<Rightarrow> jheap option" where
  "cJSON_Delete item h =
     (case item of
        None \<Rightarrow> Some h
      | Some p \<Rightarrow> do {
          n \<leftarrow> items h p;
          h \<leftarrow> (if \<not> is_reference n \<and> nd_child n \<noteq> None then cJSON_Delete (nd_child n) h else Some h);
          h \<leftarrow> release_valuestring p h;
          h \<leftarrow> release_string p h;
          h \<leftarrow> free_item p h;
          cJSON_Delete (nd_next n) h
        })"

section \<open>Creation\<close>

definition create_with :: "(cjson_node \<Rightarrow> cjson_node) \<Rightarrow> jheap \<Rightarrow> (nat option \<times> jheap) ub" where
  "create_with f h =
     (case cJSON_New_Item h of
        (None, h) \<Rightarrow> Some (None, h)
      | (Some p, h) \<Rightarrow> do { h \<leftarrow> upd p f h; Some (Some p, h) })"

definition cJSON_CreateNull :: "jheap \<Rightarrow> (nat option \<times> jheap) ub" where
  "cJSON_CreateNull = create_with (\<lambda>n. n\<lparr>nd_type := cJSON_NULL\<rparr>)"

definition cJSON_CreateTrue :: "jheap \<Rightarrow> (nat option \<times> jheap) ub" where
  "cJSON_CreateTrue = create_with (\<lambda>n. n\<lparr>nd_type := cJSON_True\<rparr>)"

definition cJSON_CreateFalse :: "jheap \<Rightarrow> (nat option \<times> jheap) ub" where
  "cJSON_CreateFalse = create_with (\<lambda>n. n\<lparr>nd_type := cJSON_False\<rparr>)"

definition cJSON_CreateBool :: "bool \<Rightarrow> jheap \<Rightarrow> (nat option \<times> jheap) ub" where
  "cJSON_CreateBool boolean = create_with (\<lambda>n. n\<lparr>nd_type := (if boolean then cJSON_True else cJSON_False)\<rparr>)"

definition cJSON_CreateNumber_h :: "double \<Rightarrow> jheap \<Rightarrow> (nat option \<times> jheap) ub" where
  "cJSON_CreateNumber_h num =
     create_with (\<lambda>n. n\<lparr>nd_type := cJSON_Number, nd_valuedouble := num, nd_valueint := saturate num\<rparr>)"

text \<open>Strings and raw text: the item keeps a copy of the text.\<close>

definition create_copied :: "u32 \<Rightarrow> nat option \<Rightarrow> jheap \<Rightarrow> (nat option \<times> jheap) ub" where
  "create_copied ty s h =
     (case cJSON_New_Item h of
        (None, h) \<Rightarrow> Some (None, h)
      | (Some p, h) \<Rightarrow> do {
          h \<leftarrow> upd p (\<lambda>n. n\<lparr>nd_type := ty\<rparr>) h;
          (v, h) \<leftarrow> cJSON_strdup s h;
          h \<leftarrow> upd p (\<lambda>n. n\<lparr>nd_valuestring := v\<rparr>) h;
          if v = None then do { h \<leftarrow> cJSON_Delete (Some p) h; Some (None, h) } else Some (Some p, h)
        })"

definition cJSON_CreateString :: "nat option \<Rightarrow> jheap \<Rightarrow> (nat option \<times> jheap) ub" where
  "cJSON_CreateString = create_copied cJSON_String"

definition cJSON_CreateRaw :: "nat option \<Rightarrow> jheap \<Rightarrow> (nat option \<times> jheap) ub" where
  "cJSON_CreateRaw = create_copied cJSON_Raw"

definition cJSON_CreateStringReference :: "nat option \<Rightarrow> jheap \<Rightarrow> (nat option \<times> jheap) ub" where
  "cJSON_CreateStringReference s =
     create_with (\<lambda>n. n\<lparr>nd_type := cJSON_String OR cJSON_IsReference, nd_valuestring := s\<rparr>)"

definition cJSON_CreateObjectReference :: "nat option \<Rightarrow> jheap \<Rightarrow> (nat option \<times> jheap) ub" where
  "cJSON_CreateObjectReference c =
     create_with (\<lambda>n. n\<lparr>nd_type := cJSON_Object OR cJSON_IsReference, nd_child := c\<rparr>)"

definition cJSON_CreateArrayReference :: "nat option \<Rightarrow> jheap \<Rightarrow> (nat option \<times> jheap) ub" where
  "cJSON_CreateArrayReference c =
     create_with (\<lambda>n. n\<lparr>nd_type := cJSON_Array OR cJSON_IsReference, nd_child := c\<rparr>)"

definition cJSON_CreateArray :: "jheap \<Rightarrow> (nat option \<times> jheap) ub" where
  "cJSON_CreateArray = create_with (\<lambda>n. n\<lparr>nd_type := cJSON_Array\<rparr>)"

definition cJSON_CreateObject_h :: "jheap \<Rightarrow> (nat option \<times> jheap) ub" where
  "cJSON_CreateObject_h = create_with (\<lambda>n. n\<lparr>nd_type := cJSON_Object\<rparr>)"

section \<open>Reading\<close>

text \<open>The result is the \<open>size_t\<close> counter as an \<open>int\<close>.\<close>

partial_function (option) count_items :: "nat option \<Rightarrow> jheap \<Rightarrow> u64 \<Rightarrow> u64 option" where
  "count_items p h size_so_far =
     (case p of
        None \<Rightarrow> Some size_so_far
      | Some q \<Rightarrow> do { n \<leftarrow> items h q; count_items (nd_next n) h (size_so_far + 1) })"

definition cJSON_GetArraySize :: "nat option \<Rightarrow> jheap \<Rightarrow> int ub" where
  "cJSON_GetArraySize array h =
     (case array of
        None \<Rightarrow> Some 0
      | Some a \<Rightarrow> do { n \<leftarrow> items h a; c \<leftarrow> count_items (nd_child n) h 0; Some (c_int (uint c)) })"

fun walk :: "nat option \<Rightarrow> nat \<Rightarrow> jheap \<Rightarrow> nat option ub" where
  "walk p 0 h = Some p"
| "walk None (Suc k) h = Some None"
| "walk (Some p) (Suc k) h = do { n \<leftarrow> items h p; walk (nd_next n) k h }"

definition get_array_item :: "nat option \<Rightarrow> nat \<Rightarrow> jheap \<Rightarrow> nat option ub" where
  "get_array_item array index h =
     (case array of None \<Rightarrow> Some None | Some a \<Rightarrow> do { n \<leftarrow> items h a; walk (nd_child n) index h })"

definition cJSON_GetArrayItem :: "nat option \<Rightarrow> int \<Rightarrow> jheap \<Rightarrow> nat option ub" where
  "cJSON_GetArrayItem array index h = (if index < 0 then Some None else get_array_item array (nat index) h)"

text \<open>
  The comparison of the name looked for with the name of an item: \<open>case_insensitive_strcmp\<close> takes a
  NULL name for different and the same pointer for equal; the exact search stops at an item without a name.\<close>

definition case_insensitive_same :: "nat \<Rightarrow> nat option \<Rightarrow> jheap \<Rightarrow> bool ub" where
  "case_insensitive_same string1 string2 h =
     (case string2 of
        None \<Rightarrow> Some False
      | Some b \<Rightarrow>
          if string1 = b then Some True
          else do { s \<leftarrow> texts h string1; t \<leftarrow> texts h b; Some (strcasecmp_eq s t) })"

partial_function (option) find_exact :: "nat \<Rightarrow> nat option \<Rightarrow> jheap \<Rightarrow> nat option option" where
  "find_exact name current h =
     (case current of
        None \<Rightarrow> Some None
      | Some p \<Rightarrow> do {
          n \<leftarrow> items h p;
          case nd_string n of
            None \<Rightarrow> Some None
          | Some b \<Rightarrow> do {
              s \<leftarrow> texts h name;
              t \<leftarrow> texts h b;
              if s = t then Some (Some p) else find_exact name (nd_next n) h
            }
        })"

partial_function (option) find_nocase :: "nat \<Rightarrow> nat option \<Rightarrow> jheap \<Rightarrow> nat option option" where
  "find_nocase name current h =
     (case current of
        None \<Rightarrow> Some None
      | Some p \<Rightarrow> do {
          n \<leftarrow> items h p;
          same \<leftarrow> case_insensitive_same name (nd_string n) h;
          if same then Some (Some p) else find_nocase name (nd_next n) h
        })"

definition get_object_item :: "nat option \<Rightarrow> nat option \<Rightarrow> bool \<Rightarrow> jheap \<Rightarrow> nat option ub" where
  "get_object_item obj name case_sensitive h =
     (case (obj, name) of
        (Some a, Some s) \<Rightarrow> do {
          n \<leftarrow> items h a;
          if case_sensitive then find_exact s (nd_child n) h else find_nocase s (nd_child n) h
        }
      | _ \<Rightarrow> Some None)"

definition cJSON_GetObjectItem_h :: "nat option \<Rightarrow> nat option \<Rightarrow> jheap \<Rightarrow> nat option ub" where
  "cJSON_GetObjectItem_h obj name h = get_object_item obj name False h"

definition cJSON_GetObjectItemCaseSensitive_h :: "nat option \<Rightarrow> nat option \<Rightarrow> jheap \<Rightarrow> nat option ub" where
  "cJSON_GetObjectItemCaseSensitive_h obj name h = get_object_item obj name True h"

definition cJSON_HasObjectItem :: "nat option \<Rightarrow> nat option \<Rightarrow> jheap \<Rightarrow> bool ub" where
  "cJSON_HasObjectItem obj name h = map_option (\<lambda>p. p \<noteq> None) (cJSON_GetObjectItem_h obj name h)"

section \<open>Adding\<close>

definition suffix_object :: "nat \<Rightarrow> nat \<Rightarrow> jheap \<Rightarrow> jheap ub" where
  "suffix_object prev item h =
     do {
       h \<leftarrow> upd prev (\<lambda>n. n\<lparr>nd_next := Some item\<rparr>) h;
       upd item (\<lambda>n. n\<lparr>nd_prev := Some prev\<rparr>) h
     }"

definition create_reference :: "nat option \<Rightarrow> jheap \<Rightarrow> (nat option \<times> jheap) ub" where
  "create_reference item h =
     (case item of
        None \<Rightarrow> Some (None, h)
      | Some i \<Rightarrow>
          (case cJSON_New_Item h of
             (None, h) \<Rightarrow> Some (None, h)
           | (Some p, h) \<Rightarrow> do {
               n \<leftarrow> items h i;
               h \<leftarrow> upd p (\<lambda>_. n\<lparr>nd_string := None, nd_type := nd_type n OR cJSON_IsReference,
                                  nd_next := None, nd_prev := None\<rparr>) h;
               Some (Some p, h)
             }))"

definition add_item_to_array :: "nat option \<Rightarrow> nat option \<Rightarrow> jheap \<Rightarrow> (bool \<times> jheap) ub" where
  "add_item_to_array array item h =
     (case (array, item) of
        (Some a, Some i) \<Rightarrow>
          if a = i then Some (False, h)
          else do {
            na \<leftarrow> items h a;
            case nd_child na of
              None \<Rightarrow> do {
                h \<leftarrow> upd a (\<lambda>n. n\<lparr>nd_child := Some i\<rparr>) h;
                h \<leftarrow> upd i (\<lambda>n. n\<lparr>nd_prev := Some i, nd_next := None\<rparr>) h;
                Some (True, h)
              }
            | Some c \<Rightarrow> do {
                nc \<leftarrow> items h c;
                case nd_prev nc of
                  None \<Rightarrow> Some (True, h)
                | Some l \<Rightarrow> do {
                    h \<leftarrow> suffix_object l i h;
                    na \<leftarrow> items h a;
                    c \<leftarrow> nd_child na;
                    h \<leftarrow> upd c (\<lambda>n. n\<lparr>nd_prev := Some i\<rparr>) h;
                    Some (True, h)
                  }
              }
          }
      | _ \<Rightarrow> Some (False, h))"

definition cJSON_AddItemToArray :: "nat option \<Rightarrow> nat option \<Rightarrow> jheap \<Rightarrow> (bool \<times> jheap) ub" where
  "cJSON_AddItemToArray array item h = add_item_to_array array item h"

text \<open>The key of the item: the program's own text if it is constant, else a copy.\<close>

definition add_item_to_object :: "nat option \<Rightarrow> nat option \<Rightarrow> nat option \<Rightarrow> bool \<Rightarrow> jheap \<Rightarrow> (bool \<times> jheap) ub" where
  "add_item_to_object obj string item constant_key h =
     (case (obj, string, item) of
        (Some ob, Some s, Some i) \<Rightarrow>
          if ob = i then Some (False, h)
          else do {
            (new_key, h) \<leftarrow> (if constant_key then Some (Some s, h) else cJSON_strdup (Some s) h);
            if new_key = None then Some (False, h)
            else do {
              n \<leftarrow> items h i;
              let new_type = (if constant_key then nd_type n OR cJSON_StringIsConst else nd_type n AND NOT cJSON_StringIsConst);
              h \<leftarrow> (case nd_string n of
                  None \<Rightarrow> Some h
                | Some b \<Rightarrow> if string_is_const n then Some h else free_text b h);
              h \<leftarrow> upd i (\<lambda>n. n\<lparr>nd_string := new_key, nd_type := new_type\<rparr>) h;
              add_item_to_array obj item h
            }
          }
      | _ \<Rightarrow> Some (False, h))"

definition cJSON_AddItemToObject :: "nat option \<Rightarrow> nat option \<Rightarrow> nat option \<Rightarrow> jheap \<Rightarrow> (bool \<times> jheap) ub" where
  "cJSON_AddItemToObject obj string item h = add_item_to_object obj string item False h"

definition cJSON_AddItemToObjectCS :: "nat option \<Rightarrow> nat option \<Rightarrow> nat option \<Rightarrow> jheap \<Rightarrow> (bool \<times> jheap) ub" where
  "cJSON_AddItemToObjectCS obj string item h = add_item_to_object obj string item True h"

definition cJSON_AddItemReferenceToArray :: "nat option \<Rightarrow> nat option \<Rightarrow> jheap \<Rightarrow> (bool \<times> jheap) ub" where
  "cJSON_AddItemReferenceToArray array item h =
     (case array of
        None \<Rightarrow> Some (False, h)
      | Some a \<Rightarrow> do { (r, h) \<leftarrow> create_reference item h; add_item_to_array array r h })"

definition cJSON_AddItemReferenceToObject ::
  "nat option \<Rightarrow> nat option \<Rightarrow> nat option \<Rightarrow> jheap \<Rightarrow> (bool \<times> jheap) ub" where
  "cJSON_AddItemReferenceToObject obj string item h =
     (case (obj, string) of
        (Some ob, Some s) \<Rightarrow> do { (r, h) \<leftarrow> create_reference item h; add_item_to_object obj string r False h }
      | _ \<Rightarrow> Some (False, h))"

text \<open>The functions that create an item and add it: a refused item is deleted again.\<close>

definition add_created :: "nat option \<Rightarrow> nat option \<Rightarrow> nat option \<times> jheap \<Rightarrow> (nat option \<times> jheap) ub" where
  "add_created obj name = (\<lambda>(item, h). do {
       (ok, h) \<leftarrow> add_item_to_object obj name item False h;
       if ok then Some (item, h) else do { h \<leftarrow> cJSON_Delete item h; Some (None, h) }
     })"

definition cJSON_AddNullToObject :: "nat option \<Rightarrow> nat option \<Rightarrow> jheap \<Rightarrow> (nat option \<times> jheap) ub" where
  "cJSON_AddNullToObject obj name h = do { r \<leftarrow> cJSON_CreateNull h; add_created obj name r }"

definition cJSON_AddTrueToObject :: "nat option \<Rightarrow> nat option \<Rightarrow> jheap \<Rightarrow> (nat option \<times> jheap) ub" where
  "cJSON_AddTrueToObject obj name h = do { r \<leftarrow> cJSON_CreateTrue h; add_created obj name r }"

definition cJSON_AddFalseToObject :: "nat option \<Rightarrow> nat option \<Rightarrow> jheap \<Rightarrow> (nat option \<times> jheap) ub" where
  "cJSON_AddFalseToObject obj name h = do { r \<leftarrow> cJSON_CreateFalse h; add_created obj name r }"

definition cJSON_AddBoolToObject :: "nat option \<Rightarrow> nat option \<Rightarrow> bool \<Rightarrow> jheap \<Rightarrow> (nat option \<times> jheap) ub" where
  "cJSON_AddBoolToObject obj name boolean h = do { r \<leftarrow> cJSON_CreateBool boolean h; add_created obj name r }"

definition cJSON_AddNumberToObject :: "nat option \<Rightarrow> nat option \<Rightarrow> double \<Rightarrow> jheap \<Rightarrow> (nat option \<times> jheap) ub" where
  "cJSON_AddNumberToObject obj name number h = do { r \<leftarrow> cJSON_CreateNumber_h number h; add_created obj name r }"

definition cJSON_AddStringToObject_h ::
  "nat option \<Rightarrow> nat option \<Rightarrow> nat option \<Rightarrow> jheap \<Rightarrow> (nat option \<times> jheap) ub" where
  "cJSON_AddStringToObject_h obj name string h = do { r \<leftarrow> cJSON_CreateString string h; add_created obj name r }"

definition cJSON_AddRawToObject :: "nat option \<Rightarrow> nat option \<Rightarrow> nat option \<Rightarrow> jheap \<Rightarrow> (nat option \<times> jheap) ub" where
  "cJSON_AddRawToObject obj name raw h = do { r \<leftarrow> cJSON_CreateRaw raw h; add_created obj name r }"

definition cJSON_AddObjectToObject :: "nat option \<Rightarrow> nat option \<Rightarrow> jheap \<Rightarrow> (nat option \<times> jheap) ub" where
  "cJSON_AddObjectToObject obj name h = do { r \<leftarrow> cJSON_CreateObject_h h; add_created obj name r }"

definition cJSON_AddArrayToObject :: "nat option \<Rightarrow> nat option \<Rightarrow> jheap \<Rightarrow> (nat option \<times> jheap) ub" where
  "cJSON_AddArrayToObject obj name h = do { r \<leftarrow> cJSON_CreateArray h; add_created obj name r }"

section \<open>Detaching, inserting, replacing\<close>

definition cJSON_DetachItemViaPointer :: "nat option \<Rightarrow> nat option \<Rightarrow> jheap \<Rightarrow> (nat option \<times> jheap) ub" where
  "cJSON_DetachItemViaPointer parent item h =
     (case (parent, item) of
        (Some p, Some i) \<Rightarrow> do {
          np \<leftarrow> items h p;
          ni \<leftarrow> items h i;
          if Some i \<noteq> nd_child np \<and> nd_prev ni = None then Some (None, h)
          else do {
            h \<leftarrow> (if Some i \<noteq> nd_child np
                  then do { q \<leftarrow> nd_prev ni; upd q (\<lambda>n. n\<lparr>nd_next := nd_next ni\<rparr>) h } else Some h);
            ni \<leftarrow> items h i;
            h \<leftarrow> (case nd_next ni of None \<Rightarrow> Some h | Some q \<Rightarrow> upd q (\<lambda>n. n\<lparr>nd_prev := nd_prev ni\<rparr>) h);
            np \<leftarrow> items h p;
            ni \<leftarrow> items h i;
            h \<leftarrow> (if Some i = nd_child np then upd p (\<lambda>n. n\<lparr>nd_child := nd_next ni\<rparr>) h
                  else if nd_next ni = None
                  then do { c \<leftarrow> nd_child np; upd c (\<lambda>n. n\<lparr>nd_prev := nd_prev ni\<rparr>) h } else Some h);
            h \<leftarrow> upd i (\<lambda>n. n\<lparr>nd_prev := None, nd_next := None\<rparr>) h;
            Some (Some i, h)
          }
        }
      | _ \<Rightarrow> Some (None, h))"

definition cJSON_DetachItemFromArray :: "nat option \<Rightarrow> int \<Rightarrow> jheap \<Rightarrow> (nat option \<times> jheap) ub" where
  "cJSON_DetachItemFromArray array which h =
     (if which < 0 then Some (None, h)
      else do { i \<leftarrow> get_array_item array (nat which) h; cJSON_DetachItemViaPointer array i h })"

definition delete_result :: "nat option \<times> jheap \<Rightarrow> jheap ub" where
  "delete_result = (\<lambda>(item, h). cJSON_Delete item h)"

definition cJSON_DeleteItemFromArray :: "nat option \<Rightarrow> int \<Rightarrow> jheap \<Rightarrow> jheap ub" where
  "cJSON_DeleteItemFromArray array which h = do { r \<leftarrow> cJSON_DetachItemFromArray array which h; delete_result r }"

definition cJSON_DetachItemFromObject :: "nat option \<Rightarrow> nat option \<Rightarrow> jheap \<Rightarrow> (nat option \<times> jheap) ub" where
  "cJSON_DetachItemFromObject obj name h =
     do { to_detach \<leftarrow> cJSON_GetObjectItem_h obj name h; cJSON_DetachItemViaPointer obj to_detach h }"

definition cJSON_DetachItemFromObjectCaseSensitive :: "nat option \<Rightarrow> nat option \<Rightarrow> jheap \<Rightarrow> (nat option \<times> jheap) ub" where
  "cJSON_DetachItemFromObjectCaseSensitive obj name h =
     do { to_detach \<leftarrow> cJSON_GetObjectItemCaseSensitive_h obj name h; cJSON_DetachItemViaPointer obj to_detach h }"

definition cJSON_DeleteItemFromObject :: "nat option \<Rightarrow> nat option \<Rightarrow> jheap \<Rightarrow> jheap ub" where
  "cJSON_DeleteItemFromObject obj name h = do { r \<leftarrow> cJSON_DetachItemFromObject obj name h; delete_result r }"

definition cJSON_DeleteItemFromObjectCaseSensitive :: "nat option \<Rightarrow> nat option \<Rightarrow> jheap \<Rightarrow> jheap ub" where
  "cJSON_DeleteItemFromObjectCaseSensitive obj name h =
     do { r \<leftarrow> cJSON_DetachItemFromObjectCaseSensitive obj name h; delete_result r }"

definition cJSON_InsertItemInArray :: "nat option \<Rightarrow> int \<Rightarrow> nat option \<Rightarrow> jheap \<Rightarrow> (bool \<times> jheap) ub" where
  "cJSON_InsertItemInArray array which newitem h =
     (case newitem of
        None \<Rightarrow> Some (False, h)
      | Some i \<Rightarrow>
          if which < 0 then Some (False, h)
          else do {
            after_inserted \<leftarrow> get_array_item array (nat which) h;
            case after_inserted of
              None \<Rightarrow> add_item_to_array array newitem h
            | Some q \<Rightarrow> do {
                a \<leftarrow> array;
                na \<leftarrow> items h a;
                nq \<leftarrow> items h q;
                if Some q \<noteq> nd_child na \<and> nd_prev nq = None then Some (False, h)
                else do {
                  h \<leftarrow> upd i (\<lambda>n. n\<lparr>nd_next := Some q\<rparr>) h;
                  nq \<leftarrow> items h q;
                  h \<leftarrow> upd i (\<lambda>n. n\<lparr>nd_prev := nd_prev nq\<rparr>) h;
                  h \<leftarrow> upd q (\<lambda>n. n\<lparr>nd_prev := Some i\<rparr>) h;
                  na \<leftarrow> items h a;
                  h \<leftarrow> (if Some q = nd_child na then upd a (\<lambda>n. n\<lparr>nd_child := Some i\<rparr>) h
                        else do { ni \<leftarrow> items h i; p \<leftarrow> nd_prev ni; upd p (\<lambda>n. n\<lparr>nd_next := Some i\<rparr>) h });
                  Some (True, h)
                }
              }
          })"

definition cJSON_ReplaceItemViaPointer ::
  "nat option \<Rightarrow> nat option \<Rightarrow> nat option \<Rightarrow> jheap \<Rightarrow> (bool \<times> jheap) ub" where
  "cJSON_ReplaceItemViaPointer parent item replacement h =
     (case parent of
        None \<Rightarrow> Some (False, h)
      | Some p \<Rightarrow> do {
          np \<leftarrow> items h p;
          case (nd_child np, replacement, item) of
            (Some c, Some r, Some i) \<Rightarrow>
              if r = i then Some (True, h)
              else do {
                ni \<leftarrow> items h i;
                h \<leftarrow> upd r (\<lambda>n. n\<lparr>nd_next := nd_next ni\<rparr>) h;
                ni \<leftarrow> items h i;
                h \<leftarrow> upd r (\<lambda>n. n\<lparr>nd_prev := nd_prev ni\<rparr>) h;
                nr \<leftarrow> items h r;
                h \<leftarrow> (case nd_next nr of None \<Rightarrow> Some h | Some q \<Rightarrow> upd q (\<lambda>n. n\<lparr>nd_prev := Some r\<rparr>) h);
                np \<leftarrow> items h p;
                c \<leftarrow> nd_child np;
                h \<leftarrow> (if c = i then do {
                        nc \<leftarrow> items h c;
                        h \<leftarrow> (if nd_prev nc = Some c then upd r (\<lambda>n. n\<lparr>nd_prev := Some r\<rparr>) h else Some h);
                        upd p (\<lambda>n. n\<lparr>nd_child := Some r\<rparr>) h
                      }
                      else do {
                        nr \<leftarrow> items h r;
                        h \<leftarrow> (case nd_prev nr of None \<Rightarrow> Some h | Some q \<Rightarrow> upd q (\<lambda>n. n\<lparr>nd_next := Some r\<rparr>) h);
                        nr \<leftarrow> items h r;
                        if nd_next nr = None
                        then do { np \<leftarrow> items h p; c \<leftarrow> nd_child np; upd c (\<lambda>n. n\<lparr>nd_prev := Some r\<rparr>) h } else Some h
                      });
                h \<leftarrow> upd i (\<lambda>n. n\<lparr>nd_next := None, nd_prev := None\<rparr>) h;
                h \<leftarrow> cJSON_Delete item h;
                Some (True, h)
              }
          | _ \<Rightarrow> Some (False, h)
        })"

definition cJSON_ReplaceItemInArray :: "nat option \<Rightarrow> int \<Rightarrow> nat option \<Rightarrow> jheap \<Rightarrow> (bool \<times> jheap) ub" where
  "cJSON_ReplaceItemInArray array which newitem h =
     (if which < 0 then Some (False, h)
      else do { i \<leftarrow> get_array_item array (nat which) h; cJSON_ReplaceItemViaPointer array i newitem h })"

definition replace_item_in_object ::
  "nat option \<Rightarrow> nat option \<Rightarrow> nat option \<Rightarrow> bool \<Rightarrow> jheap \<Rightarrow> (bool \<times> jheap) ub" where
  "replace_item_in_object obj string replacement case_sensitive h =
     (case (replacement, string) of
        (Some r, Some s) \<Rightarrow> do {
          n \<leftarrow> items h r;
          h \<leftarrow> (case nd_string n of
              None \<Rightarrow> Some h
            | Some b \<Rightarrow> if string_is_const n then Some h else free_text b h);
          (copy, h) \<leftarrow> cJSON_strdup string h;
          h \<leftarrow> upd r (\<lambda>n. n\<lparr>nd_string := copy\<rparr>) h;
          if copy = None then Some (False, h)
          else do {
            h \<leftarrow> upd r (\<lambda>n. n\<lparr>nd_type := nd_type n AND NOT cJSON_StringIsConst\<rparr>) h;
            i \<leftarrow> get_object_item obj string case_sensitive h;
            cJSON_ReplaceItemViaPointer obj i replacement h
          }
        }
      | _ \<Rightarrow> Some (False, h))"

definition cJSON_ReplaceItemInObject ::
  "nat option \<Rightarrow> nat option \<Rightarrow> nat option \<Rightarrow> jheap \<Rightarrow> (bool \<times> jheap) ub" where
  "cJSON_ReplaceItemInObject obj string newitem h = replace_item_in_object obj string newitem False h"

definition cJSON_ReplaceItemInObjectCaseSensitive ::
  "nat option \<Rightarrow> nat option \<Rightarrow> nat option \<Rightarrow> jheap \<Rightarrow> (bool \<times> jheap) ub" where
  "cJSON_ReplaceItemInObjectCaseSensitive obj string newitem h = replace_item_in_object obj string newitem True h"

section \<open>Changing a value\<close>

definition cJSON_SetNumberHelper :: "nat option \<Rightarrow> double \<Rightarrow> jheap \<Rightarrow> (double \<times> jheap) ub" where
  "cJSON_SetNumberHelper obj number h =
     (case obj of
        None \<Rightarrow> Some (NaN, h)
      | Some p \<Rightarrow> do {
          h \<leftarrow> upd p (\<lambda>n. n\<lparr>nd_valueint := saturate number, nd_valuedouble := number\<rparr>) h;
          Some (number, h)
        })"

text \<open>
  The block of a \<open>valuestring\<close> holds at least its text, so a text that is not longer is copied over
  it; two different blocks never overlap.\<close>

definition cJSON_SetValuestring :: "nat option \<Rightarrow> nat option \<Rightarrow> jheap \<Rightarrow> (nat option \<times> jheap) ub" where
  "cJSON_SetValuestring obj string h =
     (case obj of
        None \<Rightarrow> Some (None, h)
      | Some p \<Rightarrow> do {
          n \<leftarrow> items h p;
          if nd_type n AND cJSON_String = 0 \<or> is_reference n then Some (None, h)
          else case (nd_valuestring n, string) of
            (Some b, Some s) \<Rightarrow> do {
              t \<leftarrow> texts h s;
              old \<leftarrow> texts h b;
              if length t \<le> length old then
                if s = b then Some (None, h)
                else Some (Some b, h\<lparr>texts := (texts h)(b \<mapsto> t)\<rparr>)
              else do {
                (copy, h) \<leftarrow> cJSON_strdup string h;
                if copy = None then Some (None, h)
                else do {
                  h \<leftarrow> free_text b h;
                  h \<leftarrow> upd p (\<lambda>n. n\<lparr>nd_valuestring := copy\<rparr>) h;
                  Some (copy, h)
                }
              }
            }
          | _ \<Rightarrow> Some (None, h)
        })"

section \<open>Arrays of values\<close>

text \<open>
  The loop that the four functions share: \<open>create\<close> makes one element, \<open>p\<close> is the last one. A false
  result is an element that could not be created; reading past the values is undefined.\<close>

fun create_elements ::
  "('a \<Rightarrow> jheap \<Rightarrow> (nat option \<times> jheap) ub) \<Rightarrow> nat \<Rightarrow> nat option \<Rightarrow> nat \<Rightarrow> 'a list \<Rightarrow> jheap \<Rightarrow> (bool \<times> nat option \<times> jheap) ub" where
  "create_elements create a p 0 xs h = Some (True, p, h)"
| "create_elements create a p (Suc k) [] h = None"
| "create_elements create a p (Suc k) (x # xs) h =
     do {
       (n, h) \<leftarrow> create x h;
       case n of
         None \<Rightarrow> Some (False, p, h)
       | Some i \<Rightarrow> do {
           h \<leftarrow> (case p of None \<Rightarrow> upd a (\<lambda>n. n\<lparr>nd_child := Some i\<rparr>) h | Some l \<Rightarrow> suffix_object l i h);
           create_elements create a (Some i) k xs h
         }
     }"

definition create_array_of ::
  "('a \<Rightarrow> jheap \<Rightarrow> (nat option \<times> jheap) ub) \<Rightarrow> 'a list option \<Rightarrow> int \<Rightarrow> jheap \<Rightarrow> (nat option \<times> jheap) ub" where
  "create_array_of create values count h =
     (case values of
        None \<Rightarrow> Some (None, h)
      | Some xs \<Rightarrow>
          if count < 0 then Some (None, h)
          else do {
            (a, h) \<leftarrow> cJSON_CreateArray h;
            case a of
              None \<Rightarrow> Some (None, h)
            | Some a \<Rightarrow> do {
                (ok, l, h) \<leftarrow> create_elements create a None (nat count) xs h;
                if \<not> ok then do { h \<leftarrow> cJSON_Delete (Some a) h; Some (None, h) }
                else do {
                  na \<leftarrow> items h a;
                  h \<leftarrow> (case nd_child na of None \<Rightarrow> Some h | Some c \<Rightarrow> upd c (\<lambda>n. n\<lparr>nd_prev := l\<rparr>) h);
                  Some (Some a, h)
                }
              }
          })"

definition cJSON_CreateIntArray :: "int list option \<Rightarrow> int \<Rightarrow> jheap \<Rightarrow> (nat option \<times> jheap) ub" where
  "cJSON_CreateIntArray numbers count h =
     create_array_of (\<lambda>i. cJSON_CreateNumber_h (Fin (of_int i))) numbers count h"

text \<open>A \<open>float\<close> is a \<open>double\<close> of the same value.\<close>

definition cJSON_CreateFloatArray :: "double list option \<Rightarrow> int \<Rightarrow> jheap \<Rightarrow> (nat option \<times> jheap) ub" where
  "cJSON_CreateFloatArray numbers count h = create_array_of cJSON_CreateNumber_h numbers count h"

definition cJSON_CreateDoubleArray :: "double list option \<Rightarrow> int \<Rightarrow> jheap \<Rightarrow> (nat option \<times> jheap) ub" where
  "cJSON_CreateDoubleArray numbers count h = create_array_of cJSON_CreateNumber_h numbers count h"

definition cJSON_CreateStringArray :: "nat option list option \<Rightarrow> int \<Rightarrow> jheap \<Rightarrow> (nat option \<times> jheap) ub" where
  "cJSON_CreateStringArray strings count h = create_array_of cJSON_CreateString strings count h"

section \<open>Copying\<close>

definition CJSON_CIRCULAR_LIMIT :: nat where "CJSON_CIRCULAR_LIMIT = 10000"

text \<open>
  The new item with the values of \<open>n\<close>; \<open>False\<close> when a string cannot be copied. A loop over a
  circular list does not end, so the copy has fuel, and \<open>None\<close> is also a copy that needs more.\<close>

definition copy_values :: "cjson_node \<Rightarrow> nat \<Rightarrow> jheap \<Rightarrow> (bool \<times> jheap) ub" where
  "copy_values n p h =
     do {
       h \<leftarrow> upd p (\<lambda>m. m\<lparr>nd_type := nd_type n AND NOT cJSON_IsReference, nd_valueint := nd_valueint n,
                          nd_valuedouble := nd_valuedouble n\<rparr>) h;
       (v, h) \<leftarrow> cJSON_strdup (nd_valuestring n) h;
       h \<leftarrow> upd p (\<lambda>m. m\<lparr>nd_valuestring := v\<rparr>) h;
       if nd_valuestring n \<noteq> None \<and> v = None then Some (False, h)
       else do {
         (s, h) \<leftarrow> (if string_is_const n then Some (nd_string n, h) else cJSON_strdup (nd_string n) h);
         h \<leftarrow> upd p (\<lambda>m. m\<lparr>nd_string := s\<rparr>) h;
         Some (nd_string n = None \<or> s \<noteq> None, h)
       }
     }"

definition copy_failed :: "nat \<Rightarrow> jheap \<Rightarrow> (nat option \<times> jheap) ub" where
  "copy_failed p h = do { h \<leftarrow> cJSON_Delete (Some p) h; Some (None, h) }"

text \<open>The loop over the children ends with the last copy, or fails.\<close>

fun cJSON_Duplicate_rec :: "nat \<Rightarrow> nat option \<Rightarrow> nat \<Rightarrow> bool \<Rightarrow> jheap \<Rightarrow> (nat option \<times> jheap) ub"
  and duplicate_children :: "nat \<Rightarrow> nat option \<Rightarrow> nat \<Rightarrow> nat \<Rightarrow> nat option \<Rightarrow> jheap \<Rightarrow> (bool \<times> nat option \<times> jheap) ub" where
  "cJSON_Duplicate_rec 0 item depth recurse h = None"
| "cJSON_Duplicate_rec (Suc k) item depth recurse h =
     (case item of
        None \<Rightarrow> Some (None, h)
      | Some i \<Rightarrow>
          (case cJSON_New_Item h of
             (None, h) \<Rightarrow> Some (None, h)
           | (Some p, h) \<Rightarrow> do {
               n \<leftarrow> items h i;
               (ok, h) \<leftarrow> copy_values n p h;
               if \<not> ok then copy_failed p h
               else if \<not> recurse then Some (Some p, h)
               else do {
                 n \<leftarrow> items h i;
                 (ok, l, h) \<leftarrow> duplicate_children k (nd_child n) depth p None h;
                 if \<not> ok then copy_failed p h
                 else do {
                   m \<leftarrow> items h p;
                   h \<leftarrow> (case nd_child m of None \<Rightarrow> Some h | Some c \<Rightarrow> upd c (\<lambda>m. m\<lparr>nd_prev := l\<rparr>) h);
                   Some (Some p, h)
                 }
               }
             }))"
| "duplicate_children 0 child depth newitem l h = None"
| "duplicate_children (Suc k) child depth newitem l h =
     (case child of
        None \<Rightarrow> Some (True, l, h)
      | Some c \<Rightarrow>
          if depth \<ge> CJSON_CIRCULAR_LIMIT then Some (False, l, h)
          else do {
            (newchild, h) \<leftarrow> cJSON_Duplicate_rec k child (depth + 1) True h;
            case newchild of
              None \<Rightarrow> Some (False, l, h)
            | Some q \<Rightarrow> do {
                h \<leftarrow> (case l of
                    None \<Rightarrow> upd newitem (\<lambda>m. m\<lparr>nd_child := Some q\<rparr>) h
                  | Some x \<Rightarrow> do {
                      h \<leftarrow> upd x (\<lambda>m. m\<lparr>nd_next := Some q\<rparr>) h;
                      upd q (\<lambda>m. m\<lparr>nd_prev := Some x\<rparr>) h
                    });
                nc \<leftarrow> items h c;
                duplicate_children k (nd_next nc) depth newitem (Some q) h
              }
          })"

definition cJSON_Duplicate :: "nat \<Rightarrow> nat option \<Rightarrow> bool \<Rightarrow> jheap \<Rightarrow> (nat option \<times> jheap) ub" where
  "cJSON_Duplicate fuel item recurse h = cJSON_Duplicate_rec fuel item 0 recurse h"

end
