(* ===== verification/CJsonLinks.thy ===== *)
theory CJsonLinks
  imports CJsonHeap
begin

text \<open>
  The children of an item as a doubly linked list: each points to the next and to the one before it,
  and the first points back to the last. The operations of \<open>cJSON.c\<close> on the links are those of lists,
  and they never touch an address that is not part of the list.
\<close>

section \<open>Lists in memory\<close>

text \<open>A stretch of the list: its first item has \<open>p\<close> before it, its last one has \<open>e\<close> behind it.\<close>

type_synonym imap = "nat \<Rightarrow> cjson_node option"

fun seg :: "imap \<Rightarrow> nat \<Rightarrow> nat list \<Rightarrow> nat option \<Rightarrow> bool" where
  "seg m p [] e \<longleftrightarrow> True"
| "seg m p (x # xs) e \<longleftrightarrow>
     (\<exists>n. m x = Some n \<and> nd_prev n = Some p \<and> nd_next n = (if xs = [] then e else Some (hd xs))) \<and> seg m x xs e"

definition linked :: "imap \<Rightarrow> nat option \<Rightarrow> nat list \<Rightarrow> bool" where
  "linked m q xs \<longleftrightarrow> distinct xs \<and> (if xs = [] then q = None else q = Some (hd xs) \<and> seg m (last xs) xs None)"

lemma seg_append [simp]:
  "seg m p (xs @ ys) e \<longleftrightarrow>
     seg m p xs (if ys = [] then e else Some (hd ys)) \<and> seg m (if xs = [] then p else last xs) ys e"
  by (induction xs arbitrary: p) auto

lemma seg_update [simp]: "y \<notin> set xs \<Longrightarrow> seg (m(y := v)) p xs e = seg m p xs e"
  by (induction xs arbitrary: p) auto

lemma seg_cong: "(\<And>x. x \<in> set xs \<Longrightarrow> m' x = m x) \<Longrightarrow> seg m' p xs e = seg m p xs e"
  by (induction xs arbitrary: p) auto

lemma seg_dom: "seg m p xs e \<Longrightarrow> x \<in> set xs \<Longrightarrow> \<exists>n. m x = Some n"
  by (induction xs arbitrary: p) auto

lemma linked_cong: "(\<And>x. x \<in> set xs \<Longrightarrow> m' x = m x) \<Longrightarrow> linked m' q xs = linked m q xs"
  using seg_cong [of xs m' m] by (simp add: linked_def)

lemma linked_Nil [simp]: "linked m q [] \<longleftrightarrow> q = None"
  by (simp add: linked_def)

lemma upd_Some: "items h p = Some n \<Longrightarrow> upd p f h = Some (h\<lparr>items := (items h)(p \<mapsto> f n)\<rparr>)"
  by (simp add: upd_def)

text \<open>The item \<open>a\<close> with the children \<open>ps\<close>.\<close>

definition children :: "imap \<Rightarrow> nat \<Rightarrow> nat list \<Rightarrow> bool" where
  "children m a ps \<longleftrightarrow> (\<exists>n. m a = Some n \<and> linked m (nd_child n) ps) \<and> a \<notin> set ps"

text \<open>What a change of links leaves alone: everything outside \<open>R\<close>, the values of the items in \<open>R\<close>,
  and all of \<open>a\<close> but its child.\<close>

definition value_of :: "cjson_node \<Rightarrow> cjson_node" where
  "value_of n = n\<lparr>nd_next := None, nd_prev := None\<rparr>"

definition relinked :: "jheap \<Rightarrow> jheap \<Rightarrow> nat \<Rightarrow> nat set \<Rightarrow> bool" where
  "relinked h h' a R \<longleftrightarrow> (\<forall>p. p \<notin> insert a R \<longrightarrow> items h' p = items h p) \<and>
     (\<forall>p \<in> R. map_option value_of (items h' p) = map_option value_of (items h p)) \<and>
     map_option (\<lambda>n. n\<lparr>nd_child := None\<rparr>) (items h' a) = map_option (\<lambda>n. n\<lparr>nd_child := None\<rparr>) (items h a) \<and>
     (\<exists>m. h' = h\<lparr>items := m\<rparr>)"

section \<open>Appending\<close>

lemma add_item_links:
  assumes "children (items h) a ps" "x \<notin> insert a (set ps)" "items h x = Some nx" "nd_next nx = None"
  shows "\<exists>h'. add_item_to_array (Some a) (Some x) h = Some (True, h') \<and> children (items h') a (ps @ [x]) \<and>
     relinked h h' a (insert x (set ps))"
proof -
  obtain na where na: "items h a = Some na" "linked (items h) (nd_child na) ps" "a \<notin> set ps"
    using assms(1) by (auto simp: children_def)
  consider "ps = []" | c where "ps = [c]" | c mid l where "ps = c # mid @ [l]"
    by (metis append_butlast_last_id neq_Nil_conv)
  then show ?thesis
  proof cases
    case 1
    then show ?thesis
      using na assms(2-4)
      by (auto simp: add_item_to_array_def upd_Some children_def linked_def relinked_def value_of_def)
  next
    case (2 c)
    then show ?thesis
      using na assms(2-4)
      by (auto simp: add_item_to_array_def suffix_object_def upd_Some children_def linked_def relinked_def value_of_def)
  next
    case (3 c mid l)
    then show ?thesis
      using na assms(2-4)
      by (auto simp: add_item_to_array_def suffix_object_def upd_Some children_def linked_def relinked_def value_of_def)
  qed
qed

section \<open>Detaching\<close>

lemmas link_defs = children_def linked_def relinked_def value_of_def

lemma detach_links:
  assumes "children (items h) a (xs @ x # ys)"
  shows "\<exists>h'. cJSON_DetachItemViaPointer (Some a) (Some x) h = Some (Some x, h') \<and> children (items h') a (xs @ ys) \<and>
     relinked h h' a (set (xs @ x # ys)) \<and> (\<exists>n. items h' x = Some n \<and> nd_next n = None \<and> nd_prev n = None)"
proof -
  obtain na where na: "items h a = Some na" "linked (items h) (nd_child na) (xs @ x # ys)" "a \<notin> set (xs @ x # ys)"
    using assms(1) by (auto simp: children_def)
  consider "xs = []" "ys = []" | y where "xs = []" "ys = [y]" | y mid l where "xs = []" "ys = y # mid @ [l]"
    | b where "xs = [b]" "ys = []" | b mid p where "xs = b # mid @ [p]" "ys = []"
    | p y ys' where "xs = [p]" "ys = y # ys'" | b mid p y ys' where "xs = b # mid @ [p]" "ys = y # ys'"
    by (metis append_butlast_last_id neq_Nil_conv)
  then show ?thesis
    by cases (use na in \<open>auto simp: cJSON_DetachItemViaPointer_def upd_Some link_defs\<close>)
qed

section \<open>Looking up by position\<close>

lemma walk_seg:
  "seg (items h) p xs None \<Longrightarrow> walk (if xs = [] then None else Some (hd xs)) k h = Some (if k < length xs then Some (xs ! k) else None)"
proof (induction k arbitrary: p xs)
  case 0
  then show ?case by (simp add: hd_conv_nth)
next
  case (Suc k)
  show ?case
  proof (cases xs)
    case (Cons x ys)
    then obtain n where n: "items h x = Some n" "nd_next n = (if ys = [] then None else Some (hd ys))" "seg (items h) x ys None"
      using Suc.prems by auto
    then show ?thesis using Suc.IH [OF n(3)] Cons by simp
  qed simp
qed

lemma get_array_item_links:
  assumes "children (items h) a ps"
  shows "get_array_item (Some a) k h = Some (if k < length ps then Some (ps ! k) else None)"
proof -
  obtain n where n: "items h a = Some n" "linked (items h) (nd_child n) ps" using assms by (auto simp: children_def)
  then show ?thesis
    using walk_seg [of h "last ps" ps k] by (auto simp: get_array_item_def linked_def split: if_splits)
qed

lemma count_seg: "seg (items h) p xs None \<Longrightarrow>
    count_items (if xs = [] then None else Some (hd xs)) h c = Some (c + of_nat (length xs))"
  by (induction xs arbitrary: p c) (auto simp: count_items.simps add.assoc)

lemma array_size_links:
  assumes "children (items h) a ps" "length ps < 2 ^ 31"
  shows "cJSON_GetArraySize (Some a) h = Some (int (length ps))"
proof -
  obtain n where n: "items h a = Some n" "linked (items h) (nd_child n) ps" using assms(1) by (auto simp: children_def)
  then have "count_items (nd_child n) h 0 = Some (of_nat (length ps))"
    using count_seg [of h "last ps" ps 0] by (cases "ps = []") (simp_all add: linked_def)
  moreover have "uint (of_nat (length ps) :: u64) = int (length ps)"
    using assms(2) by (simp add: uint_word_of_int take_bit_int_eq_self unsigned_of_nat take_bit_nat_eq_self)
  ultimately show ?thesis using n(1) assms(2) by (simp add: cJSON_GetArraySize_def c_int_id)
qed

section \<open>Inserting\<close>

lemma insert_links:
  assumes "children (items h) a ps" "x \<notin> insert a (set ps)" "items h x = Some nx" "nd_next nx = None"
  shows "\<exists>h'. cJSON_InsertItemInArray (Some a) (int k) (Some x) h = Some (True, h') \<and>
     children (items h') a (take k ps @ x # drop k ps) \<and> relinked h h' a (insert x (set ps))"
proof (cases "k < length ps")
  case False
  then show ?thesis
    using add_item_links [OF assms] get_array_item_links [OF assms(1), of k] by (simp add: cJSON_InsertItemInArray_def)
next
  case True
  then obtain xs y ys where ps: "ps = xs @ y # ys" "length xs = k"
    by (metis id_take_nth_drop length_take min.absorb4)
  have g: "get_array_item (Some a) k h = Some (Some y)"
    using get_array_item_links [OF assms(1), of k] ps by (simp add: nth_append)
  obtain na where na: "items h a = Some na" "linked (items h) (nd_child na) ps" "a \<notin> set ps"
    using assms(1) by (auto simp: children_def)
  have t: "take k ps = xs" "drop k ps = y # ys" using ps by auto
  consider "xs = []" | p where "xs = [p]" | b mid p where "xs = b # mid @ [p]"
    by (metis append_butlast_last_id neq_Nil_conv)
  then show ?thesis
  proof cases
    case 1
    then show ?thesis
      using na assms(2-4) g
      by (simp add: ps(1) t cJSON_InsertItemInArray_def upd_Some link_defs) (auto simp: upd_Some link_defs ps(2)[symmetric] split: if_splits)
  next
    case (2 p)
    then show ?thesis
      using na assms(2-4) g
      by (simp add: ps(1) t cJSON_InsertItemInArray_def upd_Some link_defs) (auto simp: upd_Some link_defs ps(2)[symmetric] split: if_splits)
  next
    case (3 b mid p)
    then show ?thesis
      using na assms(2-4) g
      by (simp add: ps(1) t cJSON_InsertItemInArray_def upd_Some link_defs) (auto simp: upd_Some link_defs ps(2)[symmetric] split: if_splits)
  qed
qed

section \<open>Replacing\<close>

lemma exists_before_delete:
  "P k \<Longrightarrow> \<exists>h. cJSON_Delete q k \<bind> f = cJSON_Delete q h \<bind> f \<and> P h"
  by blast

text \<open>The links after a replacement, before the old item is deleted.\<close>

lemma replace_links:
  assumes "children (items h) a (xs @ y # ys)" "x \<notin> insert a (set (xs @ y # ys))" "items h x = Some nx"
  shows "\<exists>h'. cJSON_ReplaceItemViaPointer (Some a) (Some y) (Some x) h =
        do { h2 \<leftarrow> cJSON_Delete (Some y) h'; Some (True, h2) } \<and>
     children (items h') a (xs @ x # ys) \<and> relinked h h' a (insert x (set (xs @ y # ys))) \<and>
     (\<exists>n. items h' y = Some n \<and> nd_next n = None \<and> nd_prev n = None)"
proof -
  obtain na where na: "items h a = Some na" "linked (items h) (nd_child na) (xs @ y # ys)" "a \<notin> set (xs @ y # ys)"
    using assms(1) by (auto simp: children_def)
  consider "xs = []" "ys = []" | z zs where "xs = []" "ys = z # zs" | p where "xs = [p]" "ys = []"
    | p z zs where "xs = [p]" "ys = z # zs" | b mid p where "xs = b # mid @ [p]" "ys = []"
    | b mid p z zs where "xs = b # mid @ [p]" "ys = z # zs"
    by (metis append_butlast_last_id neq_Nil_conv)
  then show ?thesis
  proof cases
    case 1
    then show ?thesis using na assms(2,3)
      by (simp add: cJSON_ReplaceItemViaPointer_def upd_Some link_defs) (auto simp: upd_Some link_defs split: if_splits intro!: exists_before_delete)
  next
    case (2 z zs)
    then show ?thesis using na assms(2,3)
      by (simp add: cJSON_ReplaceItemViaPointer_def upd_Some link_defs) (auto simp: upd_Some link_defs split: if_splits intro!: exists_before_delete)
  next
    case (3 p)
    then show ?thesis using na assms(2,3)
      by (simp add: cJSON_ReplaceItemViaPointer_def upd_Some link_defs) (auto simp: upd_Some link_defs split: if_splits intro!: exists_before_delete)
  next
    case (4 p z zs)
    then show ?thesis using na assms(2,3)
      by (simp add: cJSON_ReplaceItemViaPointer_def upd_Some link_defs) (auto simp: upd_Some link_defs split: if_splits intro!: exists_before_delete)
  next
    case (5 b mid p)
    then show ?thesis using na assms(2,3)
      by (simp add: cJSON_ReplaceItemViaPointer_def upd_Some link_defs) (auto simp: upd_Some link_defs split: if_splits intro!: exists_before_delete)
  next
    case (6 b mid p z zs)
    then show ?thesis using na assms(2,3)
      by (simp add: cJSON_ReplaceItemViaPointer_def upd_Some link_defs) (auto simp: upd_Some link_defs split: if_splits intro!: exists_before_delete)
  qed
qed

end
