(* ===== verification/CJsonTrees.thy ===== *)
theory CJsonTrees
  imports CJsonLinks "HOL-Library.Multiset"
begin

text \<open>
  Items with everything below them: a tree of addresses. Deleting an item frees the items and the
  strings of its tree, each once, and nothing else, and any sequence of edits of an array is the same
  sequence of edits of a list of trees.
\<close>

section \<open>Trees\<close>

datatype ctree = Tree (root: nat) (subs: "ctree list")

text \<open>The addresses of the items of a list of trees, and of the strings they own.\<close>

fun faddrs :: "ctree list \<Rightarrow> nat list" where
  "faddrs [] = []"
| "faddrs (Tree p us # ts) = p # faddrs us @ faddrs ts"

definition own_texts :: "cjson_node \<Rightarrow> nat list" where
  "own_texts n =
     (case nd_valuestring n of None \<Rightarrow> [] | Some a \<Rightarrow> if is_reference n then [] else [a]) @
     (case nd_string n of None \<Rightarrow> [] | Some a \<Rightarrow> if string_is_const n then [] else [a])"

fun ftexts :: "imap \<Rightarrow> ctree list \<Rightarrow> nat list" where
  "ftexts m [] = []"
| "ftexts m (Tree p us # ts) = (case m p of None \<Rightarrow> [] | Some n \<Rightarrow> own_texts n) @ ftexts m us @ ftexts m ts"

text \<open>The trees are chained by \<open>nd_next\<close> from \<open>q\<close> on; a reference owns no children.\<close>

fun forest :: "imap \<Rightarrow> nat option \<Rightarrow> ctree list \<Rightarrow> bool" where
  "forest m q [] \<longleftrightarrow> q = None"
| "forest m q (Tree p us # ts) \<longleftrightarrow> q = Some p \<and>
     (\<exists>n. m p = Some n \<and> (if is_reference n then us = [] else forest m (nd_child n) us) \<and> forest m (nd_next n) ts)"

definition owned :: "jheap \<Rightarrow> ctree list \<Rightarrow> bool" where
  "owned h ts \<longleftrightarrow> distinct (faddrs ts) \<and> distinct (ftexts (items h) ts) \<and>
     set (faddrs ts) \<subseteq> dom (items h) \<and> set (ftexts (items h) ts) \<subseteq> dom (texts h)"

lemma faddrs_append [simp]: "faddrs (ts @ us) = faddrs ts @ faddrs us"
  by (induction ts rule: faddrs.induct) auto

lemma ftexts_append [simp]: "ftexts m (ts @ us) = ftexts m ts @ ftexts m us"
  by (induction m ts rule: ftexts.induct) auto

lemma forest_cong: "(\<And>p. p \<in> set (faddrs ts) \<Longrightarrow> m' p = m p) \<Longrightarrow> forest m' q ts = forest m q ts"
  by (induction m q ts rule: forest.induct) auto

lemma ftexts_cong: "(\<And>p. p \<in> set (faddrs ts) \<Longrightarrow> m' p = m p) \<Longrightarrow> ftexts m' ts = ftexts m ts"
  by (induction m ts rule: ftexts.induct) auto

section \<open>Deletion\<close>

definition without :: "jheap \<Rightarrow> nat set \<Rightarrow> nat set \<Rightarrow> jheap" where
  "without h A B = h\<lparr>items := items h |` (- A), texts := texts h |` (- B)\<rparr>"

lemma without_simps [simp]:
  "items (without h A B) = items h |` (- A)" "texts (without h A B) = texts h |` (- B)"
  "next_free (without h A B) = next_free h" "grants (without h A B) = grants h"
  "without (without h A B) C D = without h (A \<union> C) (B \<union> D)"
  by (simp_all add: without_def Int_commute)

lemma restrict_UNIV: "f |` UNIV = f"
  by (simp add: restrict_map_def)

lemma without_empty [simp]: "without h {} {} = h"
  by (simp add: without_def restrict_UNIV)

text \<open>Freeing one item with its strings.\<close>

lemma release_item:
  assumes "items h p = Some n" "distinct (own_texts n)" "set (own_texts n) \<subseteq> dom (texts h)"
  shows "do { h \<leftarrow> release_valuestring p h; h \<leftarrow> release_string p h; free_item p h } =
     Some (without h {p} (set (own_texts n)))"
proof -
  have r: "(f :: nat \<Rightarrow> 'b option)(a := None) = f |` (- {a})" for f a by (auto simp: restrict_map_def)
  show ?thesis
    using assms
    by (auto simp: release_valuestring_def release_string_def free_item_def free_text_def upd_def own_texts_def
        without_def r restrict_map_def string_is_const_def is_reference_def fun_eq_iff split: option.splits if_splits)
qed

lemma delete_forest:
  assumes "forest (items h) q ts" "owned h ts"
  shows "cJSON_Delete q h = Some (without h (set (faddrs ts)) (set (ftexts (items h) ts)))"
  using assms
proof (induction ts arbitrary: q h rule: faddrs.induct)
  case 1
  then show ?case by (simp add: cJSON_Delete.simps)
next
  case (2 p us ts)
  obtain n where n: "q = Some p" "items h p = Some n" "if is_reference n then us = [] else forest (items h) (nd_child n) us"
      "forest (items h) (nd_next n) ts" using "2.prems"(1) by auto
  let ?h1 = "without h (set (faddrs us)) (set (ftexts (items h) us))"
  have o: "owned h us" using "2.prems"(2) n(2) by (auto simp: owned_def)
  have d1: "(if \<not> is_reference n \<and> nd_child n \<noteq> None then cJSON_Delete (nd_child n) h else Some h) = Some ?h1"
  proof (cases "is_reference n \<or> nd_child n = None")
    case True
    then have "us = []" using n(3) by (cases us; cases "hd us") (auto split: if_splits)
    then show ?thesis using True by auto
  qed (use "2.IH"(1) [OF _ o] n(3) in auto)
  let ?h2 = "without ?h1 {p} (set (own_texts n))"
  have d2: "do { h \<leftarrow> release_valuestring p ?h1; h \<leftarrow> release_string p h; free_item p h } = Some ?h2"
    using "2.prems"(2) n(2) by (intro release_item) (auto simp: owned_def restrict_map_def)
  have s: "forest (items ?h2) (nd_next n) ts = forest (items h) (nd_next n) ts" "ftexts (items ?h2) ts = ftexts (items h) ts"
    using "2.prems"(2) by (auto intro!: forest_cong ftexts_cong simp: owned_def restrict_map_def)
  have "owned ?h2 ts" unfolding owned_def s
    using "2.prems"(2) n(2) by (auto simp: owned_def restrict_map_def)
  then have d3: "cJSON_Delete (nd_next n) ?h2 = Some (without ?h2 (set (faddrs ts)) (set (ftexts (items h) ts)))"
    using "2.IH"(2) n(4) s by simp
  have "cJSON_Delete q h = do { h1 \<leftarrow> (if \<not> is_reference n \<and> nd_child n \<noteq> None then cJSON_Delete (nd_child n) h else Some h);
     h2 \<leftarrow> do { h \<leftarrow> release_valuestring p h1; h \<leftarrow> release_string p h; free_item p h }; cJSON_Delete (nd_next n) h2 }"
    unfolding n(1) by (subst cJSON_Delete.simps) (simp add: n(2) cong: if_cong)
  then show ?case
    unfolding d1 using n(2) by (simp only: bind.bind_lunit d2 d3) (simp add: Un_ac)
qed

section \<open>Well-formed trees and their values\<close>

text \<open>The children of every item are a doubly linked list.\<close>

fun bodies :: "imap \<Rightarrow> ctree list \<Rightarrow> bool" where
  "bodies m [] \<longleftrightarrow> True"
| "bodies m (Tree p us # ts) \<longleftrightarrow>
     (\<exists>n. m p = Some n \<and> (if is_reference n then us = [] else linked m (nd_child n) (map root us))) \<and> bodies m us \<and> bodies m ts"

text \<open>The texts that an item uses without owning them.\<close>

definition shared_texts :: "cjson_node \<Rightarrow> nat list" where
  "shared_texts n =
     (case nd_valuestring n of None \<Rightarrow> [] | Some a \<Rightarrow> if is_reference n then [a] else []) @
     (case nd_string n of None \<Rightarrow> [] | Some a \<Rightarrow> if string_is_const n then [a] else [])"

fun fshared :: "imap \<Rightarrow> ctree list \<Rightarrow> nat list" where
  "fshared m [] = []"
| "fshared m (Tree p us # ts) = (case m p of None \<Rightarrow> [] | Some n \<Rightarrow> shared_texts n) @ fshared m us @ fshared m ts"

datatype jval = JVal (jv_type: u32) (jv_int: int) (jv_double: double) (jv_text: "string option")
  (jv_name: "string option") (jv_children: "jval list")

definition text_at :: "jheap \<Rightarrow> nat option \<Rightarrow> string option" where
  "text_at h s = (case s of None \<Rightarrow> None | Some a \<Rightarrow> texts h a)"

fun vals :: "jheap \<Rightarrow> ctree list \<Rightarrow> jval list" where
  "vals h [] = []"
| "vals h (Tree p us # ts) =
     (let n = the (items h p) in
      JVal (nd_type n) (nd_valueint n) (nd_valuedouble n) (text_at h (nd_valuestring n)) (text_at h (nd_string n)) (vals h us)) #
     vals h ts"

definition tidy :: "jheap \<Rightarrow> nat \<Rightarrow> ctree list \<Rightarrow> bool" where
  "tidy h a ts \<longleftrightarrow> bodies (items h) ts \<and> owned h ts \<and> a \<notin> set (faddrs ts) \<and>
     set (ftexts (items h) ts) \<inter> set (fshared (items h) ts) = {} \<and> set (fshared (items h) ts) \<subseteq> dom (texts h)"

lemma bodies_append [simp]: "bodies m (ts @ us) \<longleftrightarrow> bodies m ts \<and> bodies m us"
  by (induction m ts rule: bodies.induct) auto

lemma fshared_append [simp]: "fshared m (ts @ us) = fshared m ts @ fshared m us"
  by (induction m ts rule: fshared.induct) auto

lemma vals_append [simp]: "vals h (ts @ us) = vals h ts @ vals h us"
  by (induction h ts rule: vals.induct) (auto simp: Let_def)

lemma bodies_all: "bodies m ts \<longleftrightarrow> (\<forall>t \<in> set ts. bodies m [t])"
  by (induction m ts rule: bodies.induct) auto

lemma faddrs_mset: "mset (faddrs ts) = (\<Sum>t \<in># mset ts. mset (faddrs [t]))"
  by (induction ts rule: faddrs.induct) auto

lemma ftexts_mset: "mset (ftexts m ts) = (\<Sum>t \<in># mset ts. mset (ftexts m [t]))"
  by (induction m ts rule: ftexts.induct) auto

lemma fshared_mset: "mset (fshared m ts) = (\<Sum>t \<in># mset ts. mset (fshared m [t]))"
  by (induction m ts rule: fshared.induct) auto

lemma tidy_perm:
  assumes "mset ts' = mset ts"
  shows "tidy h a ts' = tidy h a ts"
proof -
  have "mset (faddrs ts') = mset (faddrs ts)" "mset (ftexts m ts') = mset (ftexts m ts)"
      "mset (fshared m ts') = mset (fshared m ts)" "set ts' = set ts" for m
    using assms faddrs_mset ftexts_mset fshared_mset mset_eq_setD by metis+
  then show ?thesis
    using bodies_all [of _ ts'] bodies_all [of _ ts] mset_eq_setD mset_eq_imp_distinct_iff
    unfolding tidy_def owned_def by metis
qed

lemma root_faddrs: "root t \<in> set (faddrs [t])"
  by (cases t) simp

lemma roots_faddrs: "root ` set ts \<subseteq> set (faddrs ts)"
  by (induction ts rule: faddrs.induct) auto

lemma bodies_cong: "(\<And>p. p \<in> set (faddrs ts) \<Longrightarrow> m' p = m p) \<Longrightarrow> bodies m' ts = bodies m ts"
proof (induction ts rule: faddrs.induct)
  case (2 p us ts)
  have "linked m' q (map root us) = linked m q (map root us)" for q
    using roots_faddrs [of us] "2.prems" by (intro linked_cong) auto
  then show ?case using "2.IH" "2.prems" by simp
qed simp

lemma fshared_cong: "(\<And>p. p \<in> set (faddrs ts) \<Longrightarrow> m' p = m p) \<Longrightarrow> fshared m' ts = fshared m ts"
  by (induction m ts rule: fshared.induct) auto

text \<open>A chain of well-formed trees is a forest.\<close>

lemma seg_forest:
  "bodies m ts \<Longrightarrow> seg m p (map root ts) None \<Longrightarrow> q = (if ts = [] then None else Some (root (hd ts))) \<Longrightarrow> forest m q ts"
proof (induction ts arbitrary: q p rule: faddrs.induct)
  case (2 r us ts)
  obtain n where n: "m r = Some n" "if is_reference n then us = [] else linked m (nd_child n) (map root us)"
      "nd_next n = (if ts = [] then None else Some (root (hd ts)))" "seg m r (map root ts) None"
    using "2.prems"(1,2) by (auto simp: hd_map)
  have "if is_reference n then us = [] else forest m (nd_child n) us"
    using "2.IH"(1) [of "last (map root us)" "nd_child n"] "2.prems"(1) n(2) by (auto simp: linked_def hd_map split: if_splits)
  then show ?case using "2.IH"(2) [OF _ n(4) n(3)] "2.prems"(1,3) n(1) by auto
qed simp

lemma child_forest: "linked m q (map root us) \<Longrightarrow> bodies m us \<Longrightarrow> forest m q us"
  using seg_forest [of m us "last (map root us)" q] by (auto simp: linked_def hd_map split: if_splits)

section \<open>Changes of links keep the trees\<close>

lemma value_of_eqD:
  assumes "value_of n' = value_of n"
  shows "nd_child n' = nd_child n" "nd_type n' = nd_type n" "nd_valuestring n' = nd_valuestring n" "nd_valueint n' = nd_valueint n"
    "nd_valuedouble n' = nd_valuedouble n" "nd_string n' = nd_string n"
  using assms by (auto simp: value_of_def dest: cjson_node.ext_inject [THEN iffD1] arg_cong [of _ _ nd_child]
      arg_cong [of _ _ nd_type] arg_cong [of _ _ nd_valuestring] arg_cong [of _ _ nd_valueint] arg_cong [of _ _ nd_valuedouble]
      arg_cong [of _ _ nd_string])

lemma value_of_texts: "value_of n' = value_of n \<Longrightarrow> own_texts n' = own_texts n \<and> shared_texts n' = shared_texts n"
proof -
  assume "value_of n' = value_of n"
  note e = value_of_eqD [OF this]
  show ?thesis unfolding own_texts_def shared_texts_def is_reference_def string_is_const_def e by simp
qed

lemma ftexts_own: "p \<in> set (faddrs ts) \<Longrightarrow> m p = Some n \<Longrightarrow> set (own_texts n) \<subseteq> set (ftexts m ts)"
  by (induction m ts rule: ftexts.induct) auto

text \<open>Values stay when the roots keep theirs and the items below the roots and all texts are the same.\<close>

lemma bodies_dom: "bodies m ts \<Longrightarrow> set (faddrs ts) \<subseteq> dom m"
  by (induction m ts rule: bodies.induct) auto

lemma vals_cong:
  assumes "set (faddrs ts) \<subseteq> dom (items h)" "\<And>p. p \<in> set (faddrs ts) \<Longrightarrow> map_option value_of (items h' p) = map_option value_of (items h p)"
    "\<And>a. a \<in> set (ftexts (items h) ts) \<union> set (fshared (items h) ts) \<Longrightarrow> texts h' a = texts h a"
  shows "vals h' ts = vals h ts \<and> ftexts (items h') ts = ftexts (items h) ts \<and> fshared (items h') ts = fshared (items h) ts"
  using assms
proof (induction ts rule: faddrs.induct)
  case (2 p us ts)
  obtain n where n: "items h p = Some n" using "2.prems"(1) by auto
  then obtain n' where n': "items h' p = Some n'" "value_of n' = value_of n" using "2.prems"(2) [of p] by auto
  have s: "own_texts n' = own_texts n" "shared_texts n' = shared_texts n"
    using value_of_texts [OF n'(2)] by auto
  have "text_at h' (nd_valuestring n) = text_at h (nd_valuestring n)" "text_at h' (nd_string n) = text_at h (nd_string n)"
    using "2.prems"(3) n by (auto simp: text_at_def own_texts_def shared_texts_def split: option.splits if_splits)
  moreover have "vals h' us = vals h us \<and> ftexts (items h') us = ftexts (items h) us \<and> fshared (items h') us = fshared (items h) us"
    by (rule "2.IH"(1)) (use "2.prems" in auto)
  moreover have "vals h' ts = vals h ts \<and> ftexts (items h') ts = ftexts (items h) ts \<and> fshared (items h') ts = fshared (items h) ts"
    by (rule "2.IH"(2)) (use "2.prems" in auto)
  ultimately show ?case
    using n n'(1) s value_of_eqD [OF n'(2)] by (simp add: Let_def)
qed simp

text \<open>The items below the roots.\<close>

fun inner :: "ctree list \<Rightarrow> nat list" where
  "inner [] = []"
| "inner (Tree p us # ts) = faddrs us @ inner ts"

lemma faddrs_inner: "set (faddrs ts) = root ` set ts \<union> set (inner ts)"
  by (induction ts rule: inner.induct) auto

lemma distinct_inner: "distinct (faddrs ts) \<Longrightarrow> root ` set ts \<inter> set (inner ts) = {} \<and> distinct (map root ts)"
proof (induction ts rule: inner.induct)
  case (2 p us ts)
  then show ?case using faddrs_inner [of ts] by auto
qed simp

lemma bodies_relinked:
  assumes "bodies m ts" "\<And>p. p \<in> set (inner ts) \<Longrightarrow> m' p = m p"
    "\<And>p. p \<in> root ` set ts \<Longrightarrow> map_option value_of (m' p) = map_option value_of (m p)"
  shows "bodies m' ts"
  using assms
proof (induction ts rule: inner.induct)
  case (2 p us ts)
  have b: "bodies m' us = bodies m us" using "2.prems"(2) by (intro bodies_cong) simp
  have l: "linked m' q (map root us) = linked m q (map root us)" for q
    using roots_faddrs [of us] "2.prems"(2) by (intro linked_cong) auto
  obtain n where n: "m p = Some n" "if is_reference n then us = [] else linked m (nd_child n) (map root us)"
    using "2.prems"(1) by auto
  then obtain n' where n': "m' p = Some n'" "value_of n' = value_of n" using "2.prems"(3) [of p] by auto
  then show ?case
    using "2.IH" "2.prems" b l n value_of_eqD [OF n'(2)] by (simp add: is_reference_def)
qed simp

lemma tidy_relinked:
  assumes "tidy h a ts" "relinked h h' a R" "R \<subseteq> root ` set ts"
  shows "tidy h' a ts \<and> (\<forall>t \<in> set ts. vals h' [t] = vals h [t])"
proof -
  have b: "bodies (items h) ts" "owned h ts" "a \<notin> set (faddrs ts)" "set (ftexts (items h) ts) \<inter> set (fshared (items h) ts) = {}"
      "set (fshared (items h) ts) \<subseteq> dom (texts h)"
    using assms(1) by (auto simp: tidy_def)
  have t: "texts h' = texts h" using assms(2) by (auto simp: relinked_def)
  have v: "map_option value_of (items h' p) = map_option value_of (items h p)" if "p \<in> set (faddrs ts)" for p
    using that assms(2) b(3) by (cases "p \<in> R") (auto simp: relinked_def)
  have i: "items h' p = items h p" if "p \<in> set (inner ts)" for p
  proof -
    have "p \<notin> insert a R" using that b(2,3) assms(3) distinct_inner [of ts] faddrs_inner [of ts] by (auto simp: owned_def)
    then show ?thesis using assms(2) by (auto simp: relinked_def)
  qed
  have "bodies (items h') ts"
    using b(1) i v roots_faddrs [of ts] by (intro bodies_relinked [OF b(1)]) auto
  moreover have c: "ftexts (items h') ts = ftexts (items h) ts" "fshared (items h') ts = fshared (items h) ts"
    using vals_cong [OF bodies_dom [OF b(1)] v] t by auto
  moreover have "set (faddrs ts) \<subseteq> dom (items h')"
  proof
    fix p assume "p \<in> set (faddrs ts)"
    moreover from this obtain n where "items h p = Some n" using b(2) by (auto simp: owned_def)
    ultimately show "p \<in> dom (items h')" using v [of p] by auto
  qed
  ultimately have "tidy h' a ts" using b t by (simp add: tidy_def owned_def)
  moreover have "vals h' [t] = vals h [t]" if "t \<in> set ts" for t
  proof -
    have "bodies (items h) [t]" using b(1) that bodies_all by blast
    moreover have "set (faddrs [t]) \<subseteq> set (faddrs ts)"
      using that by (induction ts rule: faddrs.induct) auto
    ultimately show ?thesis using vals_cong [of "[t]" h h'] bodies_dom [of "items h" "[t]"] v t by auto
  qed
  ultimately show ?thesis by blast
qed

end
