(* ===== verification/CJsonEdits.thy ===== *)
theory CJsonEdits
  imports CJsonTrees
begin

text \<open>
  Editing an array: any sequence of appends, insertions, replacements, detachments and deletions on
  the linked items does what the same sequence does on a list of trees, without undefined behaviour.
\<close>

section \<open>What a program holds\<close>

text \<open>
  The program holds the array or object \<open>a\<close> with the children \<open>ts\<close>, and the items \<open>fs\<close> that are in
  no array.\<close>

definition loose :: "imap \<Rightarrow> nat \<Rightarrow> bool" where
  "loose m p \<longleftrightarrow> (\<exists>n. m p = Some n \<and> nd_next n = None \<and> nd_prev n = None)"

definition holding :: "jheap \<Rightarrow> nat \<Rightarrow> ctree list \<Rightarrow> ctree list \<Rightarrow> bool" where
  "holding h a ts fs \<longleftrightarrow> children (items h) a (map root ts) \<and> (\<forall>f \<in> set fs. loose (items h) (root f)) \<and> tidy h a (ts @ fs)"

definition same_values :: "jheap \<Rightarrow> jheap \<Rightarrow> ctree list \<Rightarrow> bool" where
  "same_values h h' ts \<longleftrightarrow> (\<forall>t \<in> set ts. vals h' [t] = vals h [t])"

lemma holding_roots:
  assumes "holding h a ts fs"
  shows "distinct (map root (ts @ fs))" "a \<notin> root ` set (ts @ fs)"
  using assms distinct_inner [of "ts @ fs"] roots_faddrs [of "ts @ fs"] by (auto simp: holding_def tidy_def owned_def)

text \<open>A change of links that leaves the loose items alone.\<close>

lemma holding_relinked:
  assumes "holding h a ts fs" "relinked h h' a R" "R \<subseteq> root ` set (ts @ fs)" "children (items h') a (map root ts')"
    "mset (ts' @ fs') = mset (ts @ fs)" "\<And>f. f \<in> set fs' \<Longrightarrow> loose (items h') (root f) \<or> f \<in> set fs \<and> root f \<notin> R"
  shows "holding h' a ts' fs' \<and> same_values h h' (ts' @ fs')"
proof -
  have t: "tidy h' a (ts @ fs)" "\<forall>t \<in> set (ts @ fs). vals h' [t] = vals h [t]"
    using tidy_relinked [OF _ assms(2,3)] assms(1) by (auto simp: holding_def)
  have "loose (items h') (root f)" if "f \<in> set fs'" for f
  proof (cases "f \<in> set fs \<and> root f \<notin> R")
    case True
    then have "items h' (root f) = items h (root f)"
      using assms(2) holding_roots(2) [OF assms(1)] by (auto simp: relinked_def)
    then show ?thesis using assms(1) True by (auto simp: holding_def loose_def)
  qed (use assms(6) [OF that] in auto)
  moreover have "tidy h' a (ts' @ fs')" using t(1) tidy_perm [OF assms(5)] by blast
  moreover have "set (ts' @ fs') = set (ts @ fs)" using mset_eq_setD [OF assms(5)] .
  ultimately show ?thesis using t(2) assms(4) by (simp add: holding_def same_values_def)
qed

text \<open>A change outside of what the program holds.\<close>

lemma holding_cong:
  assumes "holding h a ts fs" "\<And>p. p \<in> insert a (set (faddrs (ts @ fs))) \<Longrightarrow> items h' p = items h p"
    "\<And>b. b \<in> set (ftexts (items h) (ts @ fs)) \<union> set (fshared (items h) (ts @ fs)) \<Longrightarrow> texts h' b = texts h b"
  shows "holding h' a ts fs \<and> same_values h h' (ts @ fs)"
proof -
  have b: "bodies (items h) (ts @ fs)" "owned h (ts @ fs)" "a \<notin> set (faddrs (ts @ fs))"
      "set (ftexts (items h) (ts @ fs)) \<inter> set (fshared (items h) (ts @ fs)) = {}"
      "set (fshared (items h) (ts @ fs)) \<subseteq> dom (texts h)"
    using assms(1) by (auto simp: holding_def tidy_def)
  have c: "ftexts (items h') (ts @ fs) = ftexts (items h) (ts @ fs)" "fshared (items h') (ts @ fs) = fshared (items h) (ts @ fs)"
      "bodies (items h') (ts @ fs) = bodies (items h) (ts @ fs)"
    using assms(2) by (intro ftexts_cong fshared_cong bodies_cong; blast)+
  have "set (faddrs (ts @ fs)) \<subseteq> dom (items h')"
  proof
    fix p assume "p \<in> set (faddrs (ts @ fs))"
    then show "p \<in> dom (items h')" using assms(2) [of p] b(2) unfolding owned_def by (metis domIff insertI2 subsetD)
  qed
  moreover have "set (ftexts (items h) (ts @ fs)) \<subseteq> dom (texts h')"
  proof
    fix p assume "p \<in> set (ftexts (items h) (ts @ fs))"
    then show "p \<in> dom (texts h')" using assms(3) [of p] b(2) unfolding owned_def by (metis UnI1 domIff subsetD)
  qed
  ultimately have "owned h' (ts @ fs)" using b(2) unfolding owned_def c by blast
  moreover have "set (fshared (items h) (ts @ fs)) \<subseteq> dom (texts h')"
  proof
    fix p assume "p \<in> set (fshared (items h) (ts @ fs))"
    then show "p \<in> dom (texts h')" using assms(3) [of p] b(5) by (metis UnI2 domIff subsetD)
  qed
  ultimately have t: "tidy h' a (ts @ fs)" using b c by (simp add: tidy_def)
  have r: "root ` set (ts @ fs) \<subseteq> set (faddrs (ts @ fs))" by (rule roots_faddrs)
  have "linked (items h') q (map root ts) = linked (items h) q (map root ts)" for q
    using assms(2) r by (intro linked_cong) auto
  then have "children (items h') a (map root ts)" using assms(1,2) by (simp add: holding_def children_def)
  moreover have "\<forall>f \<in> set fs. loose (items h') (root f)"
    using assms(1,2) r by (auto simp: holding_def loose_def)
  moreover have "vals h' [t] = vals h [t]" if tin: "t \<in> set (ts @ fs)" for t
  proof -
    obtain us vs where "ts @ fs = us @ t # vs" using split_list [OF tin] by blast
    then have "ts @ fs = us @ [t] @ vs" by simp
    then have sub: "set (faddrs [t]) \<subseteq> set (faddrs (ts @ fs))" "set (ftexts (items h) [t]) \<subseteq> set (ftexts (items h) (ts @ fs))"
        "set (fshared (items h) [t]) \<subseteq> set (fshared (items h) (ts @ fs))"
      by (simp_all only: faddrs_append ftexts_append fshared_append set_append) blast+
    have "bodies (items h) [t]" using b(1) tin bodies_all by blast
    moreover have "map_option value_of (items h' p) = map_option value_of (items h p)" if "p \<in> set (faddrs [t])" for p
      using assms(2) [of p] that sub(1) by auto
    moreover have "texts h' b = texts h b" if "b \<in> set (ftexts (items h) [t]) \<union> set (fshared (items h) [t])" for b
      using assms(3) [of b] that sub(2,3) by blast
    ultimately show ?thesis by (rule vals_cong [THEN conjunct1, OF bodies_dom])
  qed
  ultimately show ?thesis using t by (simp add: holding_def same_values_def)
qed

lemma single_forest:
  assumes "bodies m [t]" "loose m (root t)"
  shows "forest m (Some (root t)) [t]"
proof (cases t)
  case (Tree p us)
  obtain n where n: "m p = Some n" "if is_reference n then us = [] else linked m (nd_child n) (map root us)" "nd_next n = None"
    using assms Tree by (auto simp: loose_def)
  have "if is_reference n then us = [] else forest m (nd_child n) us"
    using child_forest [of m "nd_child n" us] assms(1) n(2) Tree by auto
  then show ?thesis using n Tree by auto
qed

lemma tidy_appendD:
  assumes "tidy h a (us @ vs)"
  shows "owned h us" "tidy h a vs" "set (faddrs us) \<inter> insert a (set (faddrs vs)) = {}"
    "set (ftexts (items h) us) \<inter> (set (ftexts (items h) vs) \<union> set (fshared (items h) vs)) = {}"
  using assms by (auto simp: tidy_def owned_def)

lemma holding_delete:
  assumes "holding h a ts (xs @ t # ys)"
  shows "\<exists>h'. cJSON_Delete (Some (root t)) h = Some h' \<and> holding h' a ts (xs @ ys) \<and> same_values h h' (ts @ xs @ ys)"
proof -
  have "mset ([t] @ ts @ xs @ ys) = mset (ts @ xs @ t # ys)" by simp
  then have "tidy h a ([t] @ ts @ xs @ ys)" using assms tidy_perm unfolding holding_def by blast
  note t = tidy_appendD [OF this]
  have f: "forest (items h) (Some (root t)) [t]"
    using assms bodies_all [of "items h" "ts @ xs @ t # ys"] by (intro single_forest) (auto simp: holding_def tidy_def)
  let ?h' = "without h (set (faddrs [t])) (set (ftexts (items h) [t]))"
  have d: "cJSON_Delete (Some (root t)) h = Some ?h'" using delete_forest [OF f t(1)] .
  have hold: "holding h a ts (xs @ ys)" using assms t(2) by (auto simp: holding_def)
  have i: "items ?h' p = items h p" if "p \<in> insert a (set (faddrs (ts @ xs @ ys)))" for p
    using that t(3) by (auto simp: restrict_map_def disjoint_iff)
  have x: "texts ?h' b = texts h b" if "b \<in> set (ftexts (items h) (ts @ xs @ ys)) \<union> set (fshared (items h) (ts @ xs @ ys))" for b
    using that t(4) unfolding without_simps restrict_map_def by (simp only: disjoint_iff) auto
  show ?thesis using d holding_cong [OF hold i x] by auto
qed

section \<open>Single edits\<close>

text \<open>The positions of the code are integers; the root of a loose tree is the pointer to it.\<close>

lemma holding_child:
  assumes "holding h a ts fs" "t \<in> set fs"
  obtains n where "root t \<notin> insert a (set (map root ts))" "items h (root t) = Some n" "nd_next n = None"
proof -
  have "root t \<notin> insert a (set (map root ts))" using assms(2) holding_roots [OF assms(1)] by auto
  moreover obtain n where "items h (root t) = Some n" "nd_next n = None" using assms by (auto simp: holding_def loose_def)
  ultimately show thesis using that by blast
qed

lemma mset_move: "mset ((xs @ [t]) @ ys @ zs) = mset (xs @ ys @ t # zs)" "mset ((xs @ t # ws) @ ys @ zs) = mset ((xs @ ws) @ ys @ t # zs)"
  by simp_all

lemma edit_add:
  assumes "holding h a ts (xs @ t # ys)"
  shows "\<exists>h'. add_item_to_array (Some a) (Some (root t)) h = Some (True, h') \<and>
     holding h' a (ts @ [t]) (xs @ ys) \<and> same_values h h' (ts @ xs @ t # ys)"
proof -
  obtain n where n: "root t \<notin> insert a (set (map root ts))" "items h (root t) = Some n" "nd_next n = None"
    by (rule holding_child [OF assms, of t]) auto
  obtain h' where h': "add_item_to_array (Some a) (Some (root t)) h = Some (True, h')"
      "children (items h') a (map root ts @ [root t])" "relinked h h' a (insert (root t) (set (map root ts)))"
    using add_item_links [OF _ n] assms by (auto simp: holding_def)
  have "holding h' a (ts @ [t]) (xs @ ys) \<and> same_values h h' ((ts @ [t]) @ xs @ ys)"
    using h'(2) holding_roots(1) [OF assms] by (intro holding_relinked [OF assms h'(3)]) (auto simp: image_iff)
  then show ?thesis using h'(1) by (auto simp: same_values_def)
qed

lemma edit_insert:
  assumes "holding h a ts (xs @ t # ys)"
  shows "\<exists>h'. cJSON_InsertItemInArray (Some a) (int k) (Some (root t)) h = Some (True, h') \<and>
     holding h' a (take k ts @ t # drop k ts) (xs @ ys) \<and> same_values h h' (ts @ xs @ t # ys)"
proof -
  obtain n where n: "root t \<notin> insert a (set (map root ts))" "items h (root t) = Some n" "nd_next n = None"
    by (rule holding_child [OF assms, of t]) auto
  obtain h' where h': "cJSON_InsertItemInArray (Some a) (int k) (Some (root t)) h = Some (True, h')"
      "children (items h') a (take k (map root ts) @ root t # drop k (map root ts))"
      "relinked h h' a (insert (root t) (set (map root ts)))"
    using insert_links [OF _ n] assms by (auto simp: holding_def)
  have m: "mset ((take k ts @ t # drop k ts) @ xs @ ys) = mset (ts @ xs @ t # ys)"
    unfolding mset_move(2) by (simp only: append_take_drop_id)
  have "holding h' a (take k ts @ t # drop k ts) (xs @ ys) \<and> same_values h h' ((take k ts @ t # drop k ts) @ xs @ ys)"
    using h'(2) holding_roots(1) [OF assms]
    by (intro holding_relinked [OF assms h'(3) _ _ m]) (auto simp: image_iff take_map drop_map)
  then show ?thesis using h'(1) mset_eq_setD [OF m] by (simp only: same_values_def) auto
qed

lemma edit_detach:
  assumes "holding h a (us @ t # vs) fs"
  shows "\<exists>h'. cJSON_DetachItemViaPointer (Some a) (Some (root t)) h = Some (Some (root t), h') \<and>
     holding h' a (us @ vs) (fs @ [t]) \<and> same_values h h' ((us @ t # vs) @ fs)"
proof -
  obtain h' where h': "cJSON_DetachItemViaPointer (Some a) (Some (root t)) h = Some (Some (root t), h')"
      "children (items h') a (map root us @ map root vs)" "relinked h h' a (set (map root us @ root t # map root vs))"
      "\<exists>n. items h' (root t) = Some n \<and> nd_next n = None \<and> nd_prev n = None"
    using detach_links [of h a "map root us" "root t" "map root vs"] assms by (auto simp: holding_def)
  have "holding h' a (us @ vs) (fs @ [t]) \<and> same_values h h' ((us @ vs) @ fs @ [t])"
    using h'(2,4) holding_roots(1) [OF assms]
    by (intro holding_relinked [OF assms h'(3)]) (auto simp: image_iff loose_def)
  then show ?thesis using h'(1) by (auto simp: same_values_def)
qed

lemma edit_replace:
  assumes "holding h a (us @ o' # vs) (xs @ t # ys)"
  shows "\<exists>h'. cJSON_ReplaceItemViaPointer (Some a) (Some (root o')) (Some (root t)) h = Some (True, h') \<and>
     holding h' a (us @ t # vs) (xs @ ys) \<and> same_values h h' ((us @ t # vs) @ xs @ ys)"
proof -
  obtain n where n: "root t \<notin> insert a (set (map root (us @ o' # vs)))" "items h (root t) = Some n"
    by (rule holding_child [OF assms, of t]) auto
  obtain h1 where h1: "cJSON_ReplaceItemViaPointer (Some a) (Some (root o')) (Some (root t)) h =
        do { h2 \<leftarrow> cJSON_Delete (Some (root o')) h1; Some (True, h2) }"
      "children (items h1) a (map root us @ root t # map root vs)"
      "relinked h h1 a (insert (root t) (set (map root us @ root o' # map root vs)))"
      "\<exists>n. items h1 (root o') = Some n \<and> nd_next n = None \<and> nd_prev n = None"
    using replace_links [of h a "map root us" "root o'" "map root vs" "root t" n] assms n by (auto simp: holding_def)
  have "holding h1 a (us @ t # vs) ((xs @ ys) @ [o']) \<and> same_values h h1 ((us @ t # vs) @ (xs @ ys) @ [o'])"
    using h1(2,4) holding_roots(1) [OF assms]
    by (intro holding_relinked [OF assms h1(3)]) (auto simp: image_iff loose_def)
  moreover from this obtain h2 where "cJSON_Delete (Some (root o')) h1 = Some h2" "holding h2 a (us @ t # vs) (xs @ ys)"
      "same_values h1 h2 ((us @ t # vs) @ xs @ ys)"
    using holding_delete [of h1 a "us @ t # vs" "xs @ ys" o' "[]"] by auto
  ultimately show ?thesis using h1(1) by (auto simp: same_values_def)
qed

section \<open>Sequences of edits\<close>

fun steps :: "('e \<Rightarrow> 's \<Rightarrow> 's option) \<Rightarrow> 'e list \<Rightarrow> 's \<Rightarrow> 's option" where
  "steps step [] s = Some s"
| "steps step (e # es) s = do { s' \<leftarrow> step e s; steps step es s' }"

text \<open>
  An abstract step that succeeds is matched by the concrete step from every related state. \<open>keeps\<close>
  relates the concrete state at the start with the one now, as far as the abstract state now goes.\<close>

locale simulation =
  fixes astep :: "'e \<Rightarrow> 'a \<Rightarrow> 'a option" and cstep :: "'e \<Rightarrow> 'c \<Rightarrow> 'c option"
    and rel :: "'a \<Rightarrow> 'c \<Rightarrow> bool" and keeps :: "'a \<Rightarrow> 'c \<Rightarrow> 'c \<Rightarrow> bool"
  assumes step: "rel x h \<Longrightarrow> astep e x = Some y \<Longrightarrow> \<exists>h'. cstep e h = Some h' \<and> rel y h' \<and> keeps y h h'"
    and keeps_refl: "keeps x h h"
    and keeps_trans: "keeps y h h' \<Longrightarrow> astep e y = Some z \<Longrightarrow> keeps z h' h'' \<Longrightarrow> keeps z h h''"
begin

lemma steps_from:
  "rel y h' \<Longrightarrow> keeps y h h' \<Longrightarrow> steps astep es y = Some z \<Longrightarrow>
   \<exists>k. steps cstep es h' = Some k \<and> rel z k \<and> keeps z h k"
proof (induction es arbitrary: y h')
  case (Cons e es)
  then obtain x where x: "astep e y = Some x" "steps astep es x = Some z" by (auto split: bind_splits)
  then obtain k where "cstep e h' = Some k" "rel x k" "keeps x h' k" using step Cons.prems(1) by blast
  then show ?case using Cons.IH [OF _ _ x(2)] keeps_trans [OF Cons.prems(2) x(1)] by auto
qed auto

lemma steps_simulated:
  "rel x h \<Longrightarrow> steps astep es x = Some z \<Longrightarrow> \<exists>k. steps cstep es h = Some k \<and> rel z k \<and> keeps z h k"
  using steps_from [OF _ keeps_refl] by blast

end

datatype edit = Append nat | Insert int nat | Replace int nat | Detach int | Delete int

definition free_tree :: "nat \<Rightarrow> ctree list \<Rightarrow> ctree option" where
  "free_tree p fs = List.find (\<lambda>f. root f = p) fs"

definition others :: "nat \<Rightarrow> ctree list \<Rightarrow> ctree list" where
  "others p fs = filter (\<lambda>f. root f \<noteq> p) fs"

text \<open>The edits on the lists of trees: \<open>None\<close> is an item that the program does not hold loose.\<close>

fun edit_trees :: "edit \<Rightarrow> ctree list \<times> ctree list \<Rightarrow> (ctree list \<times> ctree list) option" where
  "edit_trees (Append p) (ts, fs) = map_option (\<lambda>t. (ts @ [t], others p fs)) (free_tree p fs)"
| "edit_trees (Insert i p) (ts, fs) = map_option (\<lambda>t. if i < 0 then (ts, fs)
     else (take (nat i) ts @ t # drop (nat i) ts, others p fs)) (free_tree p fs)"
| "edit_trees (Replace i p) (ts, fs) = map_option (\<lambda>t. if i < 0 \<or> int (length ts) \<le> i then (ts, fs)
     else (ts[nat i := t], others p fs)) (free_tree p fs)"
| "edit_trees (Detach i) (ts, fs) = Some (if i < 0 \<or> int (length ts) \<le> i then (ts, fs)
     else (take (nat i) ts @ drop (Suc (nat i)) ts, fs @ [ts ! nat i]))"
| "edit_trees (Delete i) (ts, fs) = Some (if i < 0 \<or> int (length ts) \<le> i then (ts, fs)
     else (take (nat i) ts @ drop (Suc (nat i)) ts, fs))"

fun edit_heap :: "nat \<Rightarrow> edit \<Rightarrow> jheap \<Rightarrow> jheap option" where
  "edit_heap a (Append p) h = map_option snd (cJSON_AddItemToArray (Some a) (Some p) h)"
| "edit_heap a (Insert i p) h = map_option snd (cJSON_InsertItemInArray (Some a) i (Some p) h)"
| "edit_heap a (Replace i p) h = map_option snd (cJSON_ReplaceItemInArray (Some a) i (Some p) h)"
| "edit_heap a (Detach i) h = map_option snd (cJSON_DetachItemFromArray (Some a) i h)"
| "edit_heap a (Delete i) h = cJSON_DeleteItemFromArray (Some a) i h"

definition held :: "nat \<Rightarrow> ctree list \<times> ctree list \<Rightarrow> jheap \<Rightarrow> bool" where
  "held a x h \<longleftrightarrow> holding h a (fst x) (snd x)"

definition keeps_values :: "ctree list \<times> ctree list \<Rightarrow> jheap \<Rightarrow> jheap \<Rightarrow> bool" where
  "keeps_values x h h' \<longleftrightarrow> same_values h h' (fst x @ snd x)"

lemma free_tree_split:
  assumes "free_tree p fs = Some t" "distinct (map root fs)"
  obtains xs ys where "fs = xs @ t # ys" "root t = p" "others p fs = xs @ ys"
proof -
  have t: "t \<in> set fs" "root t = p" using find_Some_set [of _ fs t] assms(1) by (auto simp: free_tree_def)
  then obtain xs ys where x: "fs = xs @ t # ys" by (meson split_list)
  have "filter (\<lambda>f. root f \<noteq> p) xs = xs" "filter (\<lambda>f. root f \<noteq> p) ys = ys"
    using assms(2) x t(2) by (auto simp: filter_id_conv image_iff)
  then have "others p fs = xs @ ys" using x t(2) by (simp add: others_def)
  then show thesis using that x t(2) by blast
qed

lemma free_tree_in: "free_tree p fs = Some t \<Longrightarrow> t \<in> set fs"
  using find_Some_set by (force simp: free_tree_def)

lemma others_subset: "set (others p fs) \<subseteq> set fs"
  by (auto simp: others_def)

lemma remove_subset: "set (take i ts @ drop j ts) \<subseteq> set ts" "set (take i ts @ t # drop i ts) \<subseteq> insert t (set ts)"
  by (auto dest: in_set_takeD in_set_dropD)

lemma edit_subset: "edit_trees e (ts, fs) = Some (ts', fs') \<Longrightarrow> set (ts' @ fs') \<subseteq> set (ts @ fs)"
proof (cases e)
  case (Append p)
  assume "edit_trees e (ts, fs) = Some (ts', fs')"
  then show ?thesis using Append free_tree_in [of p fs] others_subset [of p fs] by auto
next
  case (Insert i p)
  assume a: "edit_trees e (ts, fs) = Some (ts', fs')"
  then obtain t where "free_tree p fs = Some t" using Insert by auto
  then show ?thesis
    using a Insert free_tree_in [of p fs t] others_subset [of p fs] remove_subset(2) [of "nat i" ts t] by (auto split: if_splits)
next
  case (Replace i p)
  assume a: "edit_trees e (ts, fs) = Some (ts', fs')"
  then obtain t where "free_tree p fs = Some t" using Replace by auto
  then show ?thesis
    using a Replace free_tree_in [of p fs t] others_subset [of p fs] set_update_subset_insert [of ts "nat i" t] by (auto split: if_splits)
next
  case (Detach i)
  assume "edit_trees e (ts, fs) = Some (ts', fs')"
  then show ?thesis
    using Detach remove_subset(1) [of "nat i" ts "Suc (nat i)"] by (auto split: if_splits)
next
  case (Delete i)
  assume "edit_trees e (ts, fs) = Some (ts', fs')"
  then show ?thesis
    using Delete remove_subset(1) [of "nat i" ts "Suc (nat i)"] by (auto split: if_splits)
qed

lemma no_item [simp]: "add_item_to_array a None h = Some (False, h)" "cJSON_DetachItemViaPointer a None h = Some (None, h)"
  by (auto simp: add_item_to_array_def cJSON_DetachItemViaPointer_def split: option.splits)

lemma same_values_subset: "same_values h h' ts \<Longrightarrow> set us \<subseteq> set ts \<Longrightarrow> same_values h h' us"
  by (auto simp: same_values_def)

lemma same_values_refl [simp]: "same_values h h ts"
  by (simp add: same_values_def)

lemma edit_step:
  assumes "holding h a ts fs" "edit_trees e (ts, fs) = Some (ts', fs')"
  shows "\<exists>h'. edit_heap a e h = Some h' \<and> holding h' a ts' fs' \<and> same_values h h' (ts' @ fs')"
proof -
  have d: "distinct (map root fs)" using holding_roots(1) [OF assms(1)] by simp
  have g: "get_array_item (Some a) k h = Some (if k < length ts then Some (root (ts ! k)) else None)" for k
    using get_array_item_links [of h a "map root ts" k] assms(1) by (simp add: holding_def)
  obtain na where na: "items h a = Some na" using assms(1) by (auto simp: holding_def children_def)
  have sub: "set (ts' @ fs') \<subseteq> set (ts @ fs)" using edit_subset [OF assms(2)] .
  show ?thesis
  proof (cases e)
    case (Append p)
    then obtain t where "free_tree p fs = Some t" "ts' = ts @ [t]" "fs' = others p fs" using assms(2) by auto
    moreover from this(1) d obtain xs ys where "fs = xs @ t # ys" "root t = p" "others p fs = xs @ ys" by (rule free_tree_split)
    ultimately show ?thesis
      using edit_add [of h a ts xs t ys] assms(1) Append sub
      by (auto simp: cJSON_AddItemToArray_def same_values_def)
  next
    case (Insert i p)
    then obtain t where t: "free_tree p fs = Some t" using assms(2) by auto
    from this d obtain xs ys where "fs = xs @ t # ys" "root t = p" "others p fs = xs @ ys" by (rule free_tree_split)
    note f = this
    show ?thesis
    proof (cases "i < 0")
      case True
      then show ?thesis using assms Insert t by (auto simp: cJSON_InsertItemInArray_def)
    next
      case False
      then show ?thesis
        using edit_insert [of h a ts xs t ys "nat i"] assms Insert t f same_values_subset [OF _ sub, of h] by auto
    qed
  next
    case (Replace i p)
    then obtain t where t: "free_tree p fs = Some t" using assms(2) by auto
    from this d obtain xs ys where f: "fs = xs @ t # ys" "root t = p" "others p fs = xs @ ys" by (rule free_tree_split)
    show ?thesis
    proof (cases "i < 0 \<or> int (length ts) \<le> i")
      case True
      then show ?thesis
        using assms Replace t g [of "nat i"] na
        by (auto simp: cJSON_ReplaceItemInArray_def cJSON_ReplaceItemViaPointer_def split: option.splits)
    next
      case False
      then obtain us o' vs where s: "ts = us @ o' # vs" "length us = nat i"
        by (metis id_take_nth_drop length_take min.absorb4 nat_less_iff not_le)
      then show ?thesis
        using edit_replace [of h a us o' vs xs t ys] assms f Replace t False g [of "nat i"]
        by (auto simp: cJSON_ReplaceItemInArray_def nth_append list_update_append)
    qed
  next
    case (Detach i)
    show ?thesis
    proof (cases "i < 0 \<or> int (length ts) \<le> i")
      case True
      then show ?thesis using assms Detach g [of "nat i"] by (auto simp: cJSON_DetachItemFromArray_def)
    next
      case False
      then obtain us t vs where s: "ts = us @ t # vs" "length us = nat i"
        by (metis id_take_nth_drop length_take min.absorb4 nat_less_iff not_le)
      then show ?thesis
        using edit_detach [of h a us t vs fs] assms Detach False g [of "nat i"] sub
        by (auto simp: cJSON_DetachItemFromArray_def nth_append same_values_def)
    qed
  next
    case (Delete i)
    show ?thesis
    proof (cases "i < 0 \<or> int (length ts) \<le> i")
      case True
      then show ?thesis using assms Delete g [of "nat i"]
        by (auto simp: cJSON_DeleteItemFromArray_def cJSON_DetachItemFromArray_def delete_result_def cJSON_Delete.simps)
    next
      case False
      then obtain us t vs where s: "ts = us @ t # vs" "length us = nat i"
        by (metis id_take_nth_drop length_take min.absorb4 nat_less_iff not_le)
      obtain h1 where h1: "cJSON_DetachItemViaPointer (Some a) (Some (root t)) h = Some (Some (root t), h1)"
          "holding h1 a (us @ vs) (fs @ [t])" "same_values h h1 ((us @ t # vs) @ fs)"
        using edit_detach [of h a us t vs fs] assms(1) s(1) by auto
      obtain h2 where "cJSON_Delete (Some (root t)) h1 = Some h2" "holding h2 a (us @ vs) fs" "same_values h1 h2 ((us @ vs) @ fs)"
        using holding_delete [of h1 a "us @ vs" fs t "[]"] h1(2) by auto
      then show ?thesis
        using h1 assms s Delete False g [of "nat i"]
        by (auto simp: cJSON_DeleteItemFromArray_def cJSON_DetachItemFromArray_def delete_result_def nth_append same_values_def)
    qed
  qed
qed

interpretation edits: simulation edit_trees "edit_heap a" "held a" keeps_values for a
proof
  fix x h e y
  assume "held a x h" "edit_trees e x = Some y"
  then show "\<exists>h'. edit_heap a e h = Some h' \<and> held a y h' \<and> keeps_values y h h'"
    using edit_step [of h a "fst x" "snd x" e "fst y" "snd y"] by (auto simp: held_def keeps_values_def)
next
  fix y h h' h'' e z
  assume "keeps_values y h h'" "edit_trees e y = Some z" "keeps_values z h' h''"
  then show "keeps_values z h h''"
    using edit_subset [of e "fst y" "snd y" "fst z" "snd z"] by (auto simp: keeps_values_def same_values_def)
qed (simp add: keeps_values_def)

text \<open>
  C9: Editing an array or object in memory is editing a list. The program holds an array with well
  formed children and some loose items, no two of them sharing memory. Any sequence of appends,
  insertions, replacements, detachments and deletions at any positions that only adds items it holds
  loose then runs without undefined behaviour. It ends with the array whose children, found by
  position, are those of the list edited in the same way. What was replaced or deleted is freed, and
  every other item keeps its value with everything below it.\<close>

theorem edits_refine:
  assumes "holding h a ts fs" "steps edit_trees es (ts, fs) = Some (ts', fs')"
  shows "\<exists>h'. steps (edit_heap a) es h = Some h' \<and> holding h' a ts' fs' \<and> same_values h h' (ts' @ fs') \<and>
     (\<forall>k. get_array_item (Some a) k h' = Some (if k < length ts' then Some (root (ts' ! k)) else None))"
proof -
  obtain h' where h': "steps (edit_heap a) es h = Some h'" "holding h' a ts' fs'" "same_values h h' (ts' @ fs')"
    using edits.steps_simulated [of a "(ts, fs)" h es "(ts', fs')"] assms by (auto simp: held_def keeps_values_def)
  then show ?thesis
    using get_array_item_links [of h' a "map root ts'"] by (auto simp: holding_def)
qed

text \<open>An empty array at 0 and three numbers at 1, 2 and 3.\<close>

definition number_node :: "int \<Rightarrow> cjson_node" where
  "number_node k = zero_node\<lparr>nd_type := cJSON_Number, nd_valueint := k, nd_valuedouble := Fin (of_int k)\<rparr>"

definition edit_demo :: jheap where
  "edit_demo = \<lparr>items = [0 \<mapsto> zero_node\<lparr>nd_type := cJSON_Array\<rparr>, 1 \<mapsto> number_node 10, 2 \<mapsto> number_node 20, 3 \<mapsto> number_node 30],
     texts = Map.empty, next_free = 4, grants = (\<lambda>n. True)\<rparr>"

theorem edits_refine_witness:
  "\<exists>h. steps (edit_heap 0) [Append 1, Insert 0 2, Replace 1 3, Detach 0] edit_demo = Some h \<and>
     get_array_item (Some 0) 0 h = Some (Some 3) \<and> get_array_item (Some 0) 1 h = Some None"
proof -
  have hold: "holding edit_demo 0 [] [Tree 1 [], Tree 2 [], Tree 3 []]"
    by (simp add: holding_def children_def loose_def tidy_def owned_def edit_demo_def number_node_def zero_node_def
        own_texts_def shared_texts_def is_reference_def cJSON_Number_def cJSON_IsReference_def)
  have "steps edit_trees [Append 1, Insert 0 2, Replace 1 3, Detach 0] ([], [Tree 1 [], Tree 2 [], Tree 3 []]) =
      Some ([Tree 3 []], [Tree 2 []])"
    by (simp add: free_tree_def others_def)
  from edits_refine [OF hold this] show ?thesis by force
qed

end
