(* ===== verification/CJsonCopy.thy ===== *)
theory CJsonCopy
  imports CJsonEdits
begin

text \<open>
  Building items in fresh memory: the loops of \<open>cJSON_Duplicate\<close> and of the functions that create
  arrays. Either the whole item is built, in memory of its own, or an allocation failed and everything
  built so far is freed again.
\<close>

section \<open>Fresh memory\<close>

definition heap_ok :: "jheap \<Rightarrow> bool" where
  "heap_ok h \<longleftrightarrow> (\<forall>p. next_free h \<le> p \<longrightarrow> items h p = None \<and> texts h p = None)"

definition grows :: "jheap \<Rightarrow> jheap \<Rightarrow> bool" where
  "grows h h' \<longleftrightarrow> heap_ok h \<and> heap_ok h' \<and> next_free h \<le> next_free h' \<and> grants h' = grants h"

text \<open>
  From \<open>h\<close> to \<open>h'\<close> exactly the items and the owned strings of \<open>ts\<close> were added; the texts of the
  program that they use without owning them are in \<open>K\<close>.\<close>

definition added :: "nat set \<Rightarrow> jheap \<Rightarrow> jheap \<Rightarrow> ctree list \<Rightarrow> bool" where
  "added K h h' ts \<longleftrightarrow> grows h h' \<and> owned h' ts \<and>
     set (faddrs ts) \<union> set (ftexts (items h') ts) \<subseteq> {next_free h ..< next_free h'} \<and>
     set (fshared (items h') ts) \<subseteq> K \<and> K \<subseteq> dom (texts h) \<and>
     (\<forall>p. p \<notin> set (faddrs ts) \<longrightarrow> items h' p = items h p) \<and>
     (\<forall>b. b \<notin> set (ftexts (items h') ts) \<longrightarrow> texts h' b = texts h b)"

text \<open>A finished item with the value \<open>v\<close>, and one whose children are still being linked: the first
  child does not point back yet.\<close>

definition built :: "nat set \<Rightarrow> jheap \<Rightarrow> jheap \<Rightarrow> ctree \<Rightarrow> jval \<Rightarrow> bool" where
  "built K h h' t v \<longleftrightarrow> added K h h' [t] \<and> bodies (items h') [t] \<and> loose (items h') (root t) \<and> vals h' [t] = [v]"

fun half_linked :: "imap \<Rightarrow> nat option \<Rightarrow> nat list \<Rightarrow> bool" where
  "half_linked m q [] \<longleftrightarrow> q = None"
| "half_linked m q (x # xs) \<longleftrightarrow> q = Some x \<and> distinct (x # xs) \<and>
     (\<exists>n. m x = Some n \<and> nd_prev n = None \<and> nd_next n = (if xs = [] then None else Some (hd xs))) \<and> seg m x xs None"

definition part :: "nat set \<Rightarrow> jheap \<Rightarrow> jheap \<Rightarrow> nat \<Rightarrow> ctree list \<Rightarrow> jval \<Rightarrow> bool" where
  "part K h h' p us v \<longleftrightarrow> added K h h' [Tree p us] \<and> bodies (items h') us \<and> vals h' [Tree p us] = [v] \<and>
     (\<exists>n. items h' p = Some n \<and> \<not> is_reference n \<and> nd_next n = None \<and> nd_prev n = None \<and>
        half_linked (items h') (nd_child n) (map root us))"

definition add_child :: "jval \<Rightarrow> jval \<Rightarrow> jval" where
  "add_child v w = JVal (jv_type v) (jv_int v) (jv_double v) (jv_text v) (jv_name v) (jv_children v @ [w])"

lemma heap_ok_dom: "heap_ok h \<Longrightarrow> p \<in> dom (items h) \<Longrightarrow> p < next_free h" "heap_ok h \<Longrightarrow> p \<in> dom (texts h) \<Longrightarrow> p < next_free h"
  by (force simp: heap_ok_def not_le [symmetric])+

lemma grows_trans: "grows h h1 \<Longrightarrow> grows h1 h2 \<Longrightarrow> grows h h2"
  by (auto simp: grows_def)

text \<open>What was there stays.\<close>

lemma added_keeps:
  assumes "added K h h' ts"
  shows "p \<in> dom (items h) \<Longrightarrow> items h' p = items h p" "b \<in> dom (texts h) \<Longrightarrow> texts h' b = texts h b"
proof -
  have h: "heap_ok h" using assms by (auto simp: added_def grows_def)
  show "p \<in> dom (items h) \<Longrightarrow> items h' p = items h p"
    using heap_ok_dom(1) [OF h] assms unfolding added_def by (metis (full_types) UnI1 atLeastLessThan_iff not_le subsetD)
  show "b \<in> dom (texts h) \<Longrightarrow> texts h' b = texts h b"
    using heap_ok_dom(2) [OF h] assms unfolding added_def by (metis (full_types) UnI2 atLeastLessThan_iff not_le subsetD)
qed

lemma added_doms: "added K h h' ts \<Longrightarrow> dom (items h) \<subseteq> dom (items h') \<and> dom (texts h) \<subseteq> dom (texts h')"
  using added_keeps by (metis domIff subsetI)

lemma added_keeps_trees:
  assumes "added K h h' ts" "set (faddrs us) \<subseteq> dom (items h)" "set (ftexts (items h) us) \<subseteq> dom (texts h)"
    "set (fshared (items h) us) \<subseteq> dom (texts h)"
  shows "ftexts (items h') us = ftexts (items h) us" "fshared (items h') us = fshared (items h) us" "vals h' us = vals h us"
    "bodies (items h') us = bodies (items h) us"
proof -
  have i: "items h' p = items h p" if "p \<in> set (faddrs us)" for p
    using added_keeps(1) [OF assms(1)] assms(2) that by blast
  show "bodies (items h') us = bodies (items h) us" using i by (rule bodies_cong)
  have t: "texts h' b = texts h b" if "b \<in> set (ftexts (items h) us) \<union> set (fshared (items h) us)" for b
    using added_keeps(2) [OF assms(1)] assms(3,4) that by blast
  have "vals h' us = vals h us \<and> ftexts (items h') us = ftexts (items h) us \<and> fshared (items h') us = fshared (items h) us"
    by (rule vals_cong [OF assms(2)]) (use i t in auto)
  then show "ftexts (items h') us = ftexts (items h) us" "fshared (items h') us = fshared (items h) us" "vals h' us = vals h us" by auto
qed

lemma added_own:
  assumes "added K h h' ts"
  shows "set (faddrs ts) \<subseteq> dom (items h')" "set (ftexts (items h') ts) \<subseteq> dom (texts h')" "set (fshared (items h') ts) \<subseteq> dom (texts h')"
proof -
  show "set (faddrs ts) \<subseteq> dom (items h')" "set (ftexts (items h') ts) \<subseteq> dom (texts h')"
    using assms by (simp_all add: added_def owned_def)
  have "set (fshared (items h') ts) \<subseteq> dom (texts h)" using assms by (auto simp: added_def)
  then show "set (fshared (items h') ts) \<subseteq> dom (texts h')" using added_doms [OF assms] by blast
qed

lemma added_join:
  assumes "added K h h1 ts" "added K h1 h2 us"
  shows "added K h h2 (ts @ us)"
proof -
  note d = added_own [OF assms(1)]
  note k = added_keeps_trees [OF assms(2) d]
  have r: "set (faddrs ts) \<union> set (ftexts (items h1) ts) \<subseteq> {next_free h ..< next_free h1}"
      "set (faddrs us) \<union> set (ftexts (items h2) us) \<subseteq> {next_free h1 ..< next_free h2}" "next_free h \<le> next_free h1" "next_free h1 \<le> next_free h2"
    using assms by (simp_all add: added_def grows_def)
  have o: "owned h1 ts" "owned h2 us" using assms by (simp_all add: added_def)
  have "set (faddrs ts) \<inter> set (faddrs us) = {}" "set (ftexts (items h1) ts) \<inter> set (ftexts (items h2) us) = {}"
    using r(1,2) by fastforce+
  moreover have "set (faddrs ts) \<subseteq> dom (items h2)" "set (ftexts (items h1) ts) \<subseteq> dom (texts h2)"
    using d(1,2) added_doms [OF assms(2)] by blast+
  ultimately have "owned h2 (ts @ us)" using o k(1) by (simp add: owned_def)
  moreover have "set (faddrs (ts @ us)) \<union> set (ftexts (items h2) (ts @ us)) \<subseteq> {next_free h ..< next_free h2}"
    using r k(1) by fastforce
  moreover have "grows h h2" using assms grows_trans by (auto simp: added_def)
  ultimately show ?thesis using assms k(1,2) by (simp add: added_def)
qed

text \<open>Changes of links and of the child of an item.\<close>

lemma texts_of_cong:
  assumes "\<And>p. p \<in> set (faddrs ts) \<Longrightarrow> map_option own_texts (m' p) = map_option own_texts (m p)"
    "\<And>p. p \<in> set (faddrs ts) \<Longrightarrow> map_option shared_texts (m' p) = map_option shared_texts (m p)"
  shows "ftexts m' ts = ftexts m ts" "fshared m' ts = fshared m ts"
proof -
  have c: "(case x of None \<Rightarrow> [] | Some n \<Rightarrow> f n) = (case map_option f x of None \<Rightarrow> [] | Some l \<Rightarrow> l)" for x and f :: "cjson_node \<Rightarrow> nat list"
    by (cases x) auto
  show "ftexts m' ts = ftexts m ts" using assms(1) by (induction ts rule: faddrs.induct) (simp_all only: ftexts.simps c, auto)
  show "fshared m' ts = fshared m ts" using assms(2) by (induction ts rule: faddrs.induct) (simp_all only: fshared.simps c, auto)
qed

lemma added_update:
  assumes "added K h h1 ts" "\<And>p. p \<notin> set (faddrs ts) \<Longrightarrow> m p = items h1 p"
    "\<And>p. p \<in> set (faddrs ts) \<Longrightarrow> map_option own_texts (m p) = map_option own_texts (items h1 p)"
    "\<And>p. p \<in> set (faddrs ts) \<Longrightarrow> map_option shared_texts (m p) = map_option shared_texts (items h1 p)"
  shows "added K h (h1\<lparr>items := m\<rparr>) ts"
proof -
  note c = texts_of_cong [of ts m "items h1", OF assms(3,4)]
  have d: "m p = None \<longleftrightarrow> items h1 p = None" for p
    using assms(2,3) [of p] by (metis option.map_disc_iff)
  have "set (faddrs ts) \<subseteq> dom m"
  proof
    fix p assume "p \<in> set (faddrs ts)"
    then show "p \<in> dom m" using assms(1) d [of p] by (auto simp: added_def owned_def)
  qed
  moreover have "heap_ok (h1\<lparr>items := m\<rparr>)" using assms(1) d by (auto simp: added_def grows_def heap_ok_def)
  ultimately show ?thesis using assms(1,2) c by (simp add: added_def grows_def owned_def)
qed

definition link_new :: "nat \<Rightarrow> nat option \<Rightarrow> nat \<Rightarrow> jheap \<Rightarrow> jheap ub" where
  "link_new a l q h = (case l of None \<Rightarrow> upd a (\<lambda>n. n\<lparr>nd_child := Some q\<rparr>) h | Some x \<Rightarrow> suffix_object x q h)"

definition last_root :: "ctree list \<Rightarrow> nat option" where
  "last_root us = (if us = [] then None else Some (root (last us)))"

lemma child_texts [simp]: "own_texts (n\<lparr>nd_child := c\<rparr>) = own_texts n" "shared_texts (n\<lparr>nd_child := c\<rparr>) = shared_texts n"
  by (simp_all add: own_texts_def shared_texts_def is_reference_def string_is_const_def split: option.split)

lemma text_at_cong: "texts h' = texts h \<Longrightarrow> text_at h' a = text_at h a"
  by (simp add: text_at_def split: option.split)

lemma half_linked_extend:
  assumes "half_linked (items h) (nd_child n) xs" "items h p = Some n" "p \<notin> insert q (set xs)" "q \<notin> set xs"
    "items h q = Some nq" "nd_next nq = None" "nd_prev nq = None"
  shows "\<exists>h' c. link_new p (if xs = [] then None else Some (last xs)) q h = Some h' \<and> relinked h h' p (insert q (set xs)) \<and>
     items h' p = Some (n\<lparr>nd_child := c\<rparr>) \<and> half_linked (items h') c (xs @ [q])"
proof -
  consider "xs = []" | x where "xs = [x]" | x mid l where "xs = x # mid @ [l]"
    by (metis append_butlast_last_id neq_Nil_conv)
  then show ?thesis
  proof cases
    case 1
    then show ?thesis using assms by (auto simp: link_new_def upd_Some relinked_def value_of_def)
  next
    case (2 x)
    then show ?thesis using assms
      by (auto simp: link_new_def suffix_object_def upd_Some relinked_def value_of_def intro!: exI [of _ "nd_child n"])
  next
    case (3 x mid l)
    then show ?thesis using assms
      by (auto simp: link_new_def suffix_object_def upd_Some relinked_def value_of_def intro!: exI [of _ "nd_child n"])
  qed
qed

lemma half_linked_cong: "(\<And>x. x \<in> set xs \<Longrightarrow> m' x = m x) \<Longrightarrow> half_linked m' q xs = half_linked m q xs"
  by (cases xs) (auto simp: seg_cong [of _ m' m])

lemma last_root: "last_root us = (if map root us = [] then None else Some (last (map root us)))"
  by (simp add: last_root_def last_map)

lemma part_extend:
  assumes "part K h h1 p us v" "built K h1 h2 u w"
  shows "\<exists>h3. link_new p (last_root us) (root u) h2 = Some h3 \<and> part K h h3 p (us @ [u]) (add_child v w)"
proof -
  have p: "added K h h1 [Tree p us]" "bodies (items h1) us" "vals h1 [Tree p us] = [v]"
    using assms(1) by (auto simp: part_def)
  have u: "added K h1 h2 [u]" "bodies (items h2) [u]" "vals h2 [u] = [w]" "loose (items h2) (root u)"
    using assms(2) by (auto simp: built_def)
  note own = added_own [OF p(1)]
  have k: "items h2 x = items h1 x" if "x \<in> set (faddrs [Tree p us])" for x
    using added_keeps(1) [OF u(1)] own(1) that by blast
  note kt = added_keeps_trees [OF u(1) own]
  have f: "faddrs [Tree p (us @ [u])] = p # faddrs us @ faddrs [u]" by simp
  have "added K h h2 ([Tree p us] @ [u])" using added_join [OF p(1) u(1)] .
  then have j: "added K h h2 [Tree p (us @ [u])]" by (simp add: added_def owned_def)
  have dist: "distinct (p # faddrs us @ faddrs [u])" using j f by (simp add: added_def owned_def)
  have b2: "bodies (items h2) (us @ [u])" using p(2) u(2) k bodies_cong [of us "items h2" "items h1"] by simp
  obtain n where n: "items h2 p = Some n" "\<not> is_reference n" "nd_next n = None" "nd_prev n = None"
      "half_linked (items h1) (nd_child n) (map root us)"
    using assms(1) k [of p] by (auto simp: part_def)
  have "items h2 x = items h1 x" if "x \<in> set (map root us)" for x
    using k [of x] that roots_faddrs [of us] by auto
  then have hl: "half_linked (items h2) (nd_child n) (map root us)"
    using n(5) half_linked_cong [of "map root us" "items h2" "items h1"] by blast
  have r: "p \<notin> insert (root u) (set (map root us))" "root u \<notin> set (map root us)"
    using dist roots_faddrs [of us] root_faddrs [of u] by auto
  obtain nu where nu: "items h2 (root u) = Some nu" "nd_next nu = None" "nd_prev nu = None" using u(4) by (auto simp: loose_def)
  obtain h3 c where h3: "link_new p (last_root us) (root u) h2 = Some h3" "relinked h2 h3 p (insert (root u) (set (map root us)))"
      "items h3 p = Some (n\<lparr>nd_child := c\<rparr>)" "half_linked (items h3) c (map root us @ [root u])"
    using half_linked_extend [OF hl n(1) r nu] unfolding last_root by blast
  let ?ts = "us @ [u]"
  have dts: "distinct (faddrs ?ts)" "p \<notin> set (faddrs ?ts)" using dist by auto
  have rl: "h3 = h2\<lparr>items := items h3\<rparr>" "texts h3 = texts h2" using h3(2) by (auto simp: relinked_def)
  have v3: "map_option value_of (items h3 x) = map_option value_of (items h2 x)" if "x \<in> set (faddrs ?ts)" for x
    using h3(2) that dts(2) by (cases "x \<in> insert (root u) (set (map root us))") (auto simp: relinked_def)
  have i3: "items h3 x = items h2 x" if "x \<in> set (inner ?ts)" for x
  proof -
    have "x \<notin> insert p (insert (root u) (set (map root us)))"
      using that distinct_inner [OF dts(1)] faddrs_inner [of ?ts] dts(2) by auto
    then show ?thesis using h3(2) by (auto simp: relinked_def)
  qed
  have b3: "bodies (items h3) ?ts"
    using v3 roots_faddrs [of ?ts] by (intro bodies_relinked [OF b2 i3]) auto
  have vs: "vals h3 ?ts = vals h2 ?ts"
    using vals_cong [OF bodies_dom [OF b2] v3] rl(2) by auto
  have tx: "map_option own_texts (items h3 x) = map_option own_texts (items h2 x) \<and>
      map_option shared_texts (items h3 x) = map_option shared_texts (items h2 x)" if "x \<in> set (faddrs [Tree p ?ts])" for x
  proof (cases "x = p")
    case False
    then have e: "map_option value_of (items h3 x) = map_option value_of (items h2 x)" using that v3 by simp
    show ?thesis
    proof (cases "items h2 x")
      case (Some m)
      then obtain m' where m': "items h3 x = Some m'" "value_of m' = value_of m" using e by auto
      show ?thesis unfolding m'(1) Some using value_of_texts [OF m'(2)] by simp
    qed (use e in auto)
  qed (use n(1) h3(3) in simp)
  have "added K h (h2\<lparr>items := items h3\<rparr>) [Tree p ?ts]"
  proof (rule added_update [OF j])
    fix x assume "x \<notin> set (faddrs [Tree p ?ts])"
    then have "x \<notin> insert p (insert (root u) (set (map root us)))" using roots_faddrs [of us] root_faddrs [of u] by auto
    then show "items h3 x = items h2 x" using h3(2) by (auto simp: relinked_def)
  qed (use tx in auto)
  then have a3: "added K h h3 [Tree p ?ts]" using rl(1) by simp
  have "vals h2 [Tree p us] = [v]" using kt(3) p(3) by simp
  then have v: "v = JVal (nd_type n) (nd_valueint n) (nd_valuedouble n) (text_at h2 (nd_valuestring n)) (text_at h2 (nd_string n)) (vals h2 us)"
    using n(1) by (simp add: Let_def)
  have "vals h3 [Tree p ?ts] = [add_child v w]"
    using h3(3) vs u(3) text_at_cong [OF rl(2)] by (simp add: Let_def v add_child_def)
  then show ?thesis
    using h3(1,3,4) a3 b3 n(2-4) by (auto simp: part_def is_reference_def)
qed

text \<open>The last step: the first child gets to point back to the last one.\<close>

lemma finish_links:
  "half_linked m q (x # xs) \<Longrightarrow> m x = Some n \<Longrightarrow> linked (m(x \<mapsto> n\<lparr>nd_prev := Some (last (x # xs))\<rparr>)) q (x # xs)"
  by (auto simp: linked_def)

definition point_back :: "nat \<Rightarrow> nat option \<Rightarrow> jheap \<Rightarrow> jheap ub" where
  "point_back a l h =
     do {
       n \<leftarrow> items h a;
       case nd_child n of None \<Rightarrow> Some h | Some c \<Rightarrow> upd c (\<lambda>n. n\<lparr>nd_prev := l\<rparr>) h
     }"

lemma part_finish:
  assumes "part K h h1 p us v"
  shows "\<exists>h2. point_back p (last_root us) h1 = Some h2 \<and> built K h h2 (Tree p us) v"
proof -
  have p: "added K h h1 [Tree p us]" "bodies (items h1) us" "vals h1 [Tree p us] = [v]"
    using assms(1) by (auto simp: part_def)
  obtain n where n: "items h1 p = Some n" "\<not> is_reference n" "nd_next n = None" "nd_prev n = None"
      "half_linked (items h1) (nd_child n) (map root us)"
    using assms(1) by (auto simp: part_def)
  show ?thesis
  proof (cases us)
    case Nil
    then show ?thesis using p n by (auto simp: point_back_def built_def loose_def)
  next
    case (Cons u ws)
    let ?r = "root u"
    obtain m where m: "items h1 ?r = Some m" "nd_child n = Some ?r" using n(5) Cons by auto
    let ?i = "(items h1)(?r \<mapsto> m\<lparr>nd_prev := last_root us\<rparr>)"
    let ?h2 = "h1\<lparr>items := ?i\<rparr>"
    have dist: "p \<notin> set (faddrs us)" "distinct (faddrs us)" using p(1) by (auto simp: added_def owned_def)
    have r: "?r \<noteq> p" "?r \<in> set (faddrs us)" using dist(1) roots_faddrs [of us] Cons by auto
    have l: "linked ?i (nd_child n) (map root us)"
      using finish_links [of "items h1" "nd_child n" ?r "map root ws" m] n(5) m Cons by (simp add: last_root last_map)
    have x: "own_texts (m\<lparr>nd_prev := a\<rparr>) = own_texts m" "shared_texts (m\<lparr>nd_prev := a\<rparr>) = shared_texts m" for a
      by (simp_all add: own_texts_def shared_texts_def is_reference_def string_is_const_def split: option.split)
    have a: "added K h ?h2 [Tree p us]"
      by (rule added_update [OF p(1)]) (use m(1) r x in auto)
    have v: "map_option value_of (?i x) = map_option value_of (items h1 x)" for x
      using m(1) by (simp add: value_of_def)
    have i: "?i x = items h1 x" if "x \<in> set (inner us)" for x
      using that distinct_inner [OF dist(2)] Cons by auto
    have b: "bodies ?i us" by (rule bodies_relinked [OF p(2) i v])
    have "vals ?h2 us = vals h1 us"
      by (rule vals_cong [OF bodies_dom [OF p(2)], THEN conjunct1]) (use v in auto)
    then have "vals ?h2 [Tree p us] = [v]"
      using p(3) n(1) r(1) text_at_cong [of ?h2 h1] by (simp add: Let_def)
    then have "built K h ?h2 (Tree p us) v"
      using a b l n(1-4) r(1) by (simp add: built_def loose_def)
    moreover have "point_back p (last_root us) h1 = Some ?h2" using n(1) m by (simp add: point_back_def upd_Some)
    ultimately show ?thesis by blast
  qed
qed

text \<open>A failure: what was built is freed.\<close>

definition same_store :: "jheap \<Rightarrow> jheap \<Rightarrow> bool" where
  "same_store h h' \<longleftrightarrow> items h' = items h \<and> texts h' = texts h \<and> grows h h'"

lemma half_forest:
  assumes "half_linked m q (map root us)" "bodies m us"
  shows "forest m q us"
proof (cases us)
  case (Cons u ws)
  then obtain r vs where u: "u = Tree r vs" by (cases u)
  obtain n where n: "m r = Some n" "if is_reference n then vs = [] else linked m (nd_child n) (map root vs)" "bodies m vs" "bodies m ws"
    using assms(2) Cons u by auto
  have l: "nd_next n = (if ws = [] then None else Some (root (hd ws)))" "seg m r (map root ws) None" "q = Some r"
    using assms(1) n(1) Cons u by (auto simp: hd_map)
  have "forest m (nd_next n) ws" by (rule seg_forest [OF n(4) l(2,1)])
  then show ?thesis using n(1,2) child_forest [of m "nd_child n" vs] n(3) l(3) Cons u by auto
qed (use assms in auto)

lemma part_fail:
  assumes "part K h h1 p us v"
  shows "\<exists>h2. cJSON_Delete (Some p) h1 = Some h2 \<and> same_store h h2"
proof -
  have p: "added K h h1 [Tree p us]" "bodies (items h1) us" using assms by (auto simp: part_def)
  obtain n where n: "items h1 p = Some n" "\<not> is_reference n" "nd_next n = None" "half_linked (items h1) (nd_child n) (map root us)"
    using assms by (auto simp: part_def)
  have "forest (items h1) (Some p) [Tree p us]" using n half_forest [OF n(4) p(2)] by simp
  moreover have "owned h1 [Tree p us]" using p(1) by (simp add: added_def)
  ultimately have d: "cJSON_Delete (Some p) h1 =
      Some (without h1 (set (faddrs [Tree p us])) (set (ftexts (items h1) [Tree p us])))" by (rule delete_forest)
  have old: "items h x = None" if "x \<in> set (faddrs [Tree p us])" for x
    using p(1) that by (auto simp: added_def grows_def heap_ok_def)
  have old': "texts h x = None" if "x \<in> set (ftexts (items h1) [Tree p us])" for x
  proof -
    have "next_free h \<le> x" using p(1) that unfolding added_def by (meson UnI2 atLeastLessThan_iff subsetD)
    then show ?thesis using p(1) by (simp add: added_def grows_def heap_ok_def)
  qed
  let ?h2 = "without h1 (set (faddrs [Tree p us])) (set (ftexts (items h1) [Tree p us]))"
  have "items ?h2 = items h"
    using p(1) old by (auto simp: fun_eq_iff restrict_map_def added_def)
  moreover have "texts ?h2 = texts h"
    using p(1) old' unfolding without_simps added_def restrict_map_def fun_eq_iff by auto
  moreover have "grows h h1" using p(1) by (simp add: added_def)
  ultimately have "same_store h ?h2" unfolding same_store_def grows_def heap_ok_def by simp
  then show ?thesis using d by blast
qed

section \<open>New items\<close>

lemma part_start:
  assumes "heap_ok h" "K \<subseteq> dom (texts h)" "items h' = (items h)(p \<mapsto> n)" "p = next_free h" "p < next_free h'" "heap_ok h'" "grants h' = grants h"
    "\<not> is_reference n" "nd_next n = None" "nd_prev n = None" "nd_child n = None"
    "distinct (own_texts n)" "set (own_texts n) \<subseteq> {next_free h ..< next_free h'}" "set (own_texts n) \<subseteq> dom (texts h')"
    "set (shared_texts n) \<subseteq> K" "\<And>b. b \<notin> set (own_texts n) \<Longrightarrow> texts h' b = texts h b"
  shows "part K h h' p [] (JVal (nd_type n) (nd_valueint n) (nd_valuedouble n) (text_at h' (nd_valuestring n)) (text_at h' (nd_string n)) [])"
  using assms by (simp add: part_def added_def grows_def owned_def Let_def)

lemma New_Item_cases:
  "cJSON_New_Item h = (if grants h (next_free h)
     then (Some (next_free h), h\<lparr>next_free := next_free h + 1, items := (items h)(next_free h \<mapsto> zero_node)\<rparr>)
     else (None, h\<lparr>next_free := next_free h + 1\<rparr>))"
  by (simp add: cJSON_New_Item_def allocate_def)

lemma strdup_cases:
  "texts h a = Some t \<Longrightarrow> cJSON_strdup (Some a) h = Some (if grants h (next_free h)
     then (Some (next_free h), h\<lparr>next_free := next_free h + 1, texts := (texts h)(next_free h \<mapsto> t)\<rparr>)
     else (None, h\<lparr>next_free := next_free h + 1\<rparr>))"
  by (simp add: cJSON_strdup_def allocate_def)

lemma strdup_NULL [simp]: "cJSON_strdup None h = Some (None, h)"
  by (simp add: cJSON_strdup_def)

lemma no_flag: "x AND y = 0 \<Longrightarrow> x AND NOT y = (x :: u32)"
proof (rule bit_word_eqI)
  fix k :: nat
  assume "x AND y = 0"
  then have "\<not> bit (x AND y) k" by simp
  then show "bit (x AND NOT y) k = bit x k" if "k < LENGTH(32)" using that by (auto simp: bit_simps)
qed

lemma copy_values_part:
  assumes "heap_ok h" "p = next_free h" "\<not> is_reference n" "set (own_texts n) \<subseteq> dom (texts h)"
    "set (shared_texts n) \<subseteq> K" "K \<subseteq> dom (texts h)"
  shows "\<exists>ok h2 v. copy_values n p (h\<lparr>next_free := p + 1, items := (items h)(p \<mapsto> zero_node)\<rparr>) = Some (ok, h2) \<and>
     part K h h2 p [] v \<and> (ok \<longrightarrow> v = JVal (nd_type n) (nd_valueint n) (nd_valuedouble n) (text_at h (nd_valuestring n)) (text_at h (nd_string n)) []) \<and>
     ((\<forall>k. grants h k) \<longrightarrow> ok)"
proof -
  have ty: "nd_type n AND NOT cJSON_IsReference = nd_type n" using assms(3) no_flag by (simp add: is_reference_def)
  have old: "items h q = None" "texts h q = None" if "p \<le> q" for q
    using assms(1,2) that by (simp_all add: heap_ok_def)
  have K: "b < p" if "b \<in> K" for b
    using assms(6) old(2) [of b] that by (metis domIff not_le subsetD)
  let ?n = "\<lambda>v s. zero_node\<lparr>nd_type := nd_type n, nd_valueint := nd_valueint n, nd_valuedouble := nd_valuedouble n,
      nd_valuestring := v, nd_string := s\<rparr>"
  have r: "\<not> is_reference (?n v s)" "string_is_const (?n v s) = string_is_const n" for v s
    using assms(3) by (simp_all add: is_reference_def string_is_const_def)
  have start: "part K h h' p [] (JVal (nd_type n) (nd_valueint n) (nd_valuedouble n) (text_at h' v) (text_at h' s) [])"
    if "items h' = (items h)(p \<mapsto> ?n v s)" "grants h' = grants h" "distinct (own_texts (?n v s))" "p < next_free h'"
      "set (own_texts (?n v s)) \<subseteq> {p ..< next_free h'}" "set (shared_texts (?n v s)) \<subseteq> K"
      "\<And>b. texts h' b = (if b \<in> set (own_texts (?n v s)) then Some (f b) else texts h b)" for h' v s f
  proof -
    let ?m = "?n v s"
    have "part K h h' p [] (JVal (nd_type ?m) (nd_valueint ?m) (nd_valuedouble ?m) (text_at h' (nd_valuestring ?m)) (text_at h' (nd_string ?m)) [])"
    proof (rule part_start [OF assms(1,6) that(1) assms(2) that(4) _ that(2) r(1) _ _ _ that(3)])
      show "heap_ok h'" using that(1,4,5,7) old by (fastforce simp: heap_ok_def)
      show "set (own_texts ?m) \<subseteq> dom (texts h')" using that(7) by auto
    qed (use that(5-7) assms(2) in \<open>simp_all add: zero_node_def\<close>)
    then show ?thesis by simp
  qed
  have own: "own_texts (?n v s) = (case v of None \<Rightarrow> [] | Some a \<Rightarrow> [a]) @ (case s of None \<Rightarrow> [] | Some b \<Rightarrow> if string_is_const n then [] else [b])"
      "shared_texts (?n v s) = (case s of None \<Rightarrow> [] | Some b \<Rightarrow> if string_is_const n then [b] else [])" for v s
    unfolding own_texts_def shared_texts_def r(2) by (simp_all add: r(1) split: option.split)
  let ?h = "\<lambda>N v s T. h\<lparr>items := (items h)(p \<mapsto> ?n v s), texts := T, next_free := N\<rparr>"
  have old': "b < p" if "texts h b = Some t" for b t
    using old(2) [of b] that by (cases "p \<le> b") auto
  have val: "nd_valuestring n = None \<or> (\<exists>a t. nd_valuestring n = Some a \<and> texts h a = Some t)"
    using assms(3,4) by (cases "nd_valuestring n") (auto simp: own_texts_def)
  have str: "nd_string n = None \<or> (\<exists>b. nd_string n = Some b \<and> string_is_const n \<and> b \<in> K) \<or>
      (\<exists>b t. nd_string n = Some b \<and> \<not> string_is_const n \<and> texts h b = Some t)"
    using assms(4,5) by (cases "nd_string n"; cases "string_is_const n") (auto simp: own_texts_def shared_texts_def)
  let ?o = "\<lambda>v s. (case v of None \<Rightarrow> [] | Some a \<Rightarrow> [a]) @ (case s of None \<Rightarrow> [] | Some b \<Rightarrow> if string_is_const n then [] else [b])"
  have res: ?thesis if "copy_values n p (h\<lparr>next_free := p + 1, items := (items h)(p \<mapsto> zero_node)\<rparr>) = Some (r', ?h N v s T)"
      "p < N" "distinct (?o v s)" "set (?o v s) \<subseteq> {p ..< N}" "\<And>b. s = Some b \<Longrightarrow> string_is_const n \<Longrightarrow> b \<in> K"
      "\<And>b. T b = (if b \<in> set (?o v s) then Some (f b) else texts h b)"
      "r' \<Longrightarrow> text_at (?h N v s T) v = text_at h (nd_valuestring n) \<and> text_at (?h N v s T) s = text_at h (nd_string n)"
      "(\<forall>k. grants h k) \<longrightarrow> r'" for r' N v s T f
  proof -
    have "part K h (?h N v s T) p [] (JVal (nd_type n) (nd_valueint n) (nd_valuedouble n) (text_at (?h N v s T) v) (text_at (?h N v s T) s) [])"
      by (rule start [where f = f], unfold own) (use that(2-6) in \<open>auto split: option.split\<close>)
    then show ?thesis using that(1,7,8) by auto
  qed
  note eval = copy_values_def upd_Some strdup_cases ty zero_node_def text_at_def
  show ?thesis
  proof (cases "nd_valuestring n")
    case None
    note val = None
    show ?thesis
    proof (cases "nd_string n")
      case None
      show ?thesis
        by (rule res [where ?r'1 = True and ?N1 = "p + 1" and ?v1 = None and ?s1 = None and ?T1 = "texts h"]) (use None val in \<open>simp_all add: eval\<close>)
    next
      case (Some b)
      show ?thesis
      proof (cases "string_is_const n")
        case True
        then show ?thesis
          using Some val str by (intro res [where ?r'1 = True and ?N1 = "p + 1" and ?v1 = None and ?s1 = "Some b" and ?T1 = "texts h"]) (auto simp: eval)
      next
        case False
        then obtain t where t: "texts h b = Some t" using Some str by auto
        show ?thesis
        proof (cases "grants h (p + 1)")
          case True
          then show ?thesis
            using Some val False t
            by (intro res [where ?r'1 = True and ?N1 = "p + 2" and ?v1 = None and ?s1 = "Some (p + 1)" and ?T1 = "(texts h)(p + 1 \<mapsto> t)" and ?f1 = "\<lambda>_. t"]) (auto simp: eval)
        next
          case nogrant: False
          then show ?thesis
            using Some val False t
            by (intro res [where ?r'1 = False and ?N1 = "p + 2" and ?v1 = None and ?s1 = None and ?T1 = "texts h"]) (auto simp: eval)
        qed
      qed
    qed
  next
    case (Some a)
    then obtain t where a: "nd_valuestring n = Some a" "texts h a = Some t" using val by auto
    show ?thesis
    proof (cases "grants h (p + 1)")
      case False
      then show ?thesis
        using a by (intro res [where ?r'1 = False and ?N1 = "p + 2" and ?v1 = None and ?s1 = None and ?T1 = "texts h"]) (auto simp: eval)
    next
      case g: True
      show ?thesis
      proof (cases "nd_string n")
        case None
        then show ?thesis
          using a g by (intro res [where ?r'1 = True and ?N1 = "p + 2" and ?v1 = "Some (p + 1)" and ?s1 = None and ?T1 = "(texts h)(p + 1 \<mapsto> t)" and ?f1 = "\<lambda>_. t"]) (auto simp: eval)
      next
        case (Some b)
        show ?thesis
        proof (cases "string_is_const n")
          case True
          then have "b \<in> K" using Some str by auto
          then have "b < p" using assms(6) old' by blast
          then show ?thesis
            using a g Some True \<open>b \<in> K\<close>
            by (intro res [where ?r'1 = True and ?N1 = "p + 2" and ?v1 = "Some (p + 1)" and ?s1 = "Some b" and ?T1 = "(texts h)(p + 1 \<mapsto> t)" and ?f1 = "\<lambda>_. t"]) (auto simp: eval)
        next
          case False
          then obtain t' where t': "texts h b = Some t'" using Some str by auto
          note b = old' [OF t']
          show ?thesis
          proof (cases "grants h (p + 2)")
            case True
            then show ?thesis
              using a g Some False t' b
              by (intro res [where ?r'1 = True and ?N1 = "p + 3" and ?v1 = "Some (p + 1)" and ?s1 = "Some (p + 2)" and ?T1 = "(texts h)(p + 1 \<mapsto> t, p + 2 \<mapsto> t')" and ?f1 = "\<lambda>x. if x = p + 1 then t else t'"]) (auto simp: eval)
          next
            case nogrant: False
            then show ?thesis
              using a g Some False t' b
              by (intro res [where ?r'1 = False and ?N1 = "p + 3" and ?v1 = "Some (p + 1)" and ?s1 = None and ?T1 = "(texts h)(p + 1 \<mapsto> t)" and ?f1 = "\<lambda>_. t"]) (auto simp: eval)
          qed
        qed
      qed
    qed
  qed
qed

section \<open>Copying\<close>

text \<open>A tree to copy: no references in it, and its strings can be read.\<close>

fun no_references :: "imap \<Rightarrow> ctree list \<Rightarrow> bool" where
  "no_references m [] \<longleftrightarrow> True"
| "no_references m (Tree p us # ts) \<longleftrightarrow> (\<exists>n. m p = Some n \<and> \<not> is_reference n) \<and> no_references m us \<and> no_references m ts"

definition source :: "nat set \<Rightarrow> jheap \<Rightarrow> nat option \<Rightarrow> ctree list \<Rightarrow> bool" where
  "source K h q ts \<longleftrightarrow> forest (items h) q ts \<and> no_references (items h) ts \<and>
     set (ftexts (items h) ts) \<subseteq> dom (texts h) \<and> set (fshared (items h) ts) \<subseteq> K \<and> K \<subseteq> dom (texts h)"

fun levels :: "ctree list \<Rightarrow> nat" where
  "levels [] = 0"
| "levels (Tree p us # ts) = max (Suc (levels us)) (levels ts)"

definition add_children :: "jval \<Rightarrow> jval list \<Rightarrow> jval" where
  "add_children v ws = JVal (jv_type v) (jv_int v) (jv_double v) (jv_text v) (jv_name v) (jv_children v @ ws)"

definition always :: "jheap \<Rightarrow> bool" where
  "always h \<longleftrightarrow> (\<forall>k. grants h k)"

lemma forest_dom: "forest m q ts \<Longrightarrow> set (faddrs ts) \<subseteq> dom m"
proof (induction m q ts rule: forest.induct)
  case (2 m q p us ts)
  then obtain n where "m p = Some n" "if is_reference n then us = [] else forest m (nd_child n) us" "forest m (nd_next n) ts" by auto
  then show ?case using "2.IH" by (auto split: if_splits)
qed simp

lemma no_references_cong: "(\<And>p. p \<in> set (faddrs ts) \<Longrightarrow> m' p = m p) \<Longrightarrow> no_references m' ts = no_references m ts"
  by (induction m ts rule: no_references.induct) auto

lemma source_keeps:
  assumes "source K h q ts" "added K h h' us"
  shows "source K h' q ts" "vals h' ts = vals h ts"
proof -
  have d: "set (faddrs ts) \<subseteq> dom (items h)" "set (ftexts (items h) ts) \<subseteq> dom (texts h)" "set (fshared (items h) ts) \<subseteq> dom (texts h)"
    using assms(1) forest_dom [of "items h" q ts] by (auto simp: source_def)
  note k = added_keeps_trees [OF assms(2) d]
  have i: "items h' p = items h p" if "p \<in> set (faddrs ts)" for p
    using added_keeps(1) [OF assms(2)] d(1) that by blast
  show "vals h' ts = vals h ts" by (rule k(3))
  show "source K h' q ts"
    using assms(1) k(1,2) added_doms [OF assms(2)] forest_cong [of ts "items h'" "items h" q] no_references_cong [of ts "items h'" "items h"] i
    unfolding source_def by (metis subset_trans)
qed

lemma part_same_store:
  assumes "part K h0 h p us v" "same_store h h1"
  shows "part K h0 h1 p us v"
proof -
  have "items h1 = items h" "texts h1 = texts h" "grows h h1" using assms(2) by (auto simp: same_store_def)
  moreover from this have "text_at h1 = text_at h" by (simp add: fun_eq_iff text_at_cong)
  moreover have "vals h1 ts = vals h ts" for ts
    using calculation by (induction ts rule: faddrs.induct) (simp_all add: Let_def)
  ultimately show ?thesis
    using assms(1) grows_trans [of h0 h h1] by (fastforce simp: part_def added_def owned_def grows_def)
qed

definition loop_ok :: "ctree list \<Rightarrow> bool" where
  "loop_ok ts \<longleftrightarrow> (\<forall>K h0 h p us v depth k q. part K h0 h p us v \<longrightarrow> source K h0 q ts \<longrightarrow> 2 * length (faddrs ts) + 1 \<le> k \<longrightarrow>
     (\<exists>ok us' v' h'. duplicate_children k q depth p (last_root us) h = Some (ok, last_root us', h') \<and> part K h0 h' p us' v' \<and>
       (ok \<longrightarrow> v' = add_children v (vals h0 ts)) \<and> (always h0 \<and> depth + levels ts \<le> CJSON_CIRCULAR_LIMIT \<longrightarrow> ok)))"

definition copied :: "nat set \<Rightarrow> jheap \<Rightarrow> jheap \<Rightarrow> nat option \<Rightarrow> jval \<Rightarrow> bool" where
  "copied K h h' r v \<longleftrightarrow> (case r of None \<Rightarrow> same_store h h' | Some p \<Rightarrow> \<exists>t. root t = p \<and> built K h h' t v)"

lemma point_back_eq: "point_back p l h = do { m \<leftarrow> items h p; case nd_child m of None \<Rightarrow> Some h | Some c \<Rightarrow> upd c (\<lambda>m. m\<lparr>nd_prev := l\<rparr>) h }"
  by (simp add: point_back_def)

lemma duplicate_single:
  assumes "loop_ok ts" "heap_ok h" "items h r = Some n" "source K h (nd_child n) ts" "\<not> is_reference n"
    "set (own_texts n) \<subseteq> dom (texts h)" "set (shared_texts n) \<subseteq> K" "2 * length (faddrs [Tree r ts]) \<le> k"
  shows "\<exists>res h'. cJSON_Duplicate_rec k (Some r) depth True h = Some (res, h') \<and>
     copied K h h' res (hd (vals h [Tree r ts])) \<and> (always h \<and> depth + levels ts \<le> CJSON_CIRCULAR_LIMIT \<longrightarrow> res \<noteq> None)"
proof -
  obtain j where j: "k = Suc j" "2 * length (faddrs ts) + 1 \<le> j" using assms(8) by (cases k) auto
  let ?p = "next_free h"
  show ?thesis
  proof (cases "grants h ?p")
    case False
    have "same_store h (h\<lparr>next_free := ?p + 1\<rparr>)"
      using assms(2) by (auto simp: same_store_def grows_def heap_ok_def)
    then show ?thesis using False j(1) by (auto simp: New_Item_cases copied_def always_def)
  next
    case True
    let ?h1 = "h\<lparr>next_free := ?p + 1, items := (items h)(?p \<mapsto> zero_node)\<rparr>"
    have K: "K \<subseteq> dom (texts h)" using assms(4) by (simp add: source_def)
    have rp: "items ?h1 r = Some n" using heap_ok_dom(1) [OF assms(2), of r] assms(3) by auto
    obtain ok h2 v where c: "copy_values n ?p ?h1 = Some (ok, h2)" "part K h h2 ?p [] v"
        "ok \<Longrightarrow> v = JVal (nd_type n) (nd_valueint n) (nd_valuedouble n) (text_at h (nd_valuestring n)) (text_at h (nd_string n)) []"
        "always h \<Longrightarrow> ok"
      using copy_values_part [OF assms(2) refl assms(5-7) K] by (auto simp: always_def)
    have N: "cJSON_New_Item h = (Some ?p, ?h1)" using True by (simp add: New_Item_cases)
    show ?thesis
    proof (cases ok)
      case False
      obtain h3 where "cJSON_Delete (Some ?p) h2 = Some h3" "same_store h h3" using part_fail [OF c(2)] by auto
      then show ?thesis using N rp c(1,4) False j(1) by (auto simp: copy_failed_def copied_def)
    next
      case True
      have r2: "items h2 r = Some n" using c(2) added_keeps(1) [of K h h2 _ r] assms(3) by (auto simp: part_def)
      obtain ok' us' v' h3 where l: "duplicate_children j (nd_child n) depth ?p None h2 = Some (ok', last_root us', h3)"
          "part K h h3 ?p us' v'" "ok' \<Longrightarrow> v' = add_children v (vals h ts)"
          "always h \<Longrightarrow> depth + levels ts \<le> CJSON_CIRCULAR_LIMIT \<Longrightarrow> ok'"
        using assms(1) c(2) assms(4) j(2) unfolding loop_ok_def
        by (metis last_root_def)
      have d: "cJSON_Duplicate_rec k (Some r) depth True h =
          (if \<not> ok' then copy_failed ?p h3 else do { h4 \<leftarrow> point_back ?p (last_root us') h3; Some (Some ?p, h4) })"
        using N rp c(1) True r2 l(1) j(1) by (simp add: point_back_eq)
      show ?thesis
      proof (cases ok')
        case False
        obtain h4 where "cJSON_Delete (Some ?p) h3 = Some h4" "same_store h h4" using part_fail [OF l(2)] by auto
        then show ?thesis using d False l(4) by (auto simp: copy_failed_def copied_def)
      next
        case ok': True
        obtain h4 where h4: "point_back ?p (last_root us') h3 = Some h4" "built K h h4 (Tree ?p us') v'" using part_finish [OF l(2)] by auto
        have "v' = hd (vals h [Tree r ts])" using l(3) ok' c(3) True assms(3) by (simp add: add_children_def Let_def)
        then have "copied K h h4 (Some ?p) (hd (vals h [Tree r ts]))"
          using h4(2) by (auto simp: copied_def intro!: exI [of _ "Tree ?p us'"])
        then show ?thesis using d ok' h4(1) by auto
      qed
    qed
  qed
qed

lemma vals_Cons: "vals h (t # ts) = hd (vals h [t]) # vals h ts"
  by (cases t) (simp add: Let_def)

lemma loop_ok_all: "loop_ok ts"
proof (induction ts rule: faddrs.induct)
  case 1
  show ?case unfolding loop_ok_def
  proof (intro allI impI, goal_cases)
    case (1 K h0 h p us v depth k q)
    then obtain j where j: "k = Suc j" by (cases k) auto
    have "q = None" using 1(2) by (simp add: source_def)
    moreover have "v = add_children v (vals h0 [])" by (simp add: add_children_def)
    ultimately show ?case using 1(1) j by (auto intro: exI [of _ us])
  qed
next
  case (2 r us ts)
  show ?case unfolding loop_ok_def
  proof (intro allI impI, goal_cases)
    case (1 K h0 h p bs v depth k q)
    then obtain j where j: "k = Suc j" "2 * length (faddrs [Tree r us]) \<le> j" "2 * length (faddrs ts) + 1 \<le> j" by (cases k) auto
    obtain n where n: "q = Some r" "items h0 r = Some n" "\<not> is_reference n" "forest (items h0) (nd_child n) us" "forest (items h0) (nd_next n) ts"
      using 1(2) by (auto simp: source_def)
    have src: "source K h0 (nd_child n) us" "source K h0 (nd_next n) ts" using 1(2) n by (auto simp: source_def)
    have own: "set (own_texts n) \<subseteq> dom (texts h0)" "set (shared_texts n) \<subseteq> K" using 1(2) n(2) by (auto simp: source_def)
    have a: "added K h0 h [Tree p bs]" using 1(1) by (simp add: part_def)
    then have ok: "heap_ok h" "always h = always h0" by (simp_all add: added_def grows_def always_def)
    have nh: "items h r = Some n" using added_keeps(1) [OF a, of r] n(2) by auto
    show ?case
    proof (cases "CJSON_CIRCULAR_LIMIT \<le> depth")
      case True
      then have "duplicate_children k q depth p (last_root bs) h = Some (False, last_root bs, h)" using n(1) j(1) by simp
      moreover have "\<not> depth + levels (Tree r us # ts) \<le> CJSON_CIRCULAR_LIMIT" using True by simp
      ultimately show ?thesis using 1(1) by blast
    next
      case False
      have "set (own_texts n) \<subseteq> dom (texts h)" using own(1) added_doms [OF a] by blast
      then obtain res h1 where s: "cJSON_Duplicate_rec j (Some r) (depth + 1) True h = Some (res, h1)"
          "copied K h h1 res (hd (vals h [Tree r us]))" "always h \<Longrightarrow> depth + 1 + levels us \<le> CJSON_CIRCULAR_LIMIT \<Longrightarrow> res \<noteq> None"
        using duplicate_single [OF "2.IH"(1) ok(1) nh source_keeps(1) [OF src(1) a] n(3) _ own(2) j(2), of "depth + 1"] by auto
      show ?thesis
      proof (cases res)
        case None
        have "part K h0 h1 p bs v" using part_same_store [OF 1(1)] s(2) None by (simp add: copied_def)
        moreover have "duplicate_children k q depth p (last_root bs) h = Some (False, last_root bs, h1)"
          using n(1) j(1) False s(1) None by simp
        moreover have "depth + levels (Tree r us # ts) \<le> CJSON_CIRCULAR_LIMIT \<Longrightarrow> depth + 1 + levels us \<le> CJSON_CIRCULAR_LIMIT"
          by (simp add: max_def split: if_splits)
        then have "\<not> (always h0 \<and> depth + levels (Tree r us # ts) \<le> CJSON_CIRCULAR_LIMIT)" using s(3) None ok(2) by blast
        ultimately show ?thesis by blast
      next
        case (Some p')
        then obtain u where u: "root u = p'" "built K h h1 u (hd (vals h [Tree r us]))" using s(2) by (auto simp: copied_def)
        obtain h2 where h2: "link_new p (last_root bs) p' h1 = Some h2" "part K h0 h2 p (bs @ [u]) (add_child v (hd (vals h [Tree r us])))"
          using part_extend [OF 1(1) u(2)] u(1) by auto
        have n2: "items h2 r = Some n" using added_keeps(1) [of K h0 h2 _ r] h2(2) n(2) by (auto simp: part_def)
        obtain ok' us' v' h3 where l: "duplicate_children j (nd_next n) depth p (last_root (bs @ [u])) h2 = Some (ok', last_root us', h3)"
            "part K h0 h3 p us' v'" "ok' \<Longrightarrow> v' = add_children (add_child v (hd (vals h [Tree r us]))) (vals h0 ts)"
            "always h0 \<Longrightarrow> depth + levels ts \<le> CJSON_CIRCULAR_LIMIT \<Longrightarrow> ok'"
          using "2.IH"(2) h2(2) src(2) j(3) unfolding loop_ok_def by metis
        have lr: "last_root (bs @ [u]) = Some p'" using u(1) by (simp add: last_root_def)
        have "duplicate_children k q depth p (last_root bs) h = Some (ok', last_root us', h3)"
          using n(1) j(1) False s(1) Some h2(1) n2 l(1) lr
          by (cases "last_root bs") (auto simp: link_new_def suffix_object_def split: bind_splits)
        moreover have "vals h0 (Tree r us # ts) = hd (vals h [Tree r us]) # vals h0 ts"
          using vals_Cons [of h "Tree r us" ts] source_keeps(2) [OF 1(2) a] source_keeps(2) [OF src(2) a] by simp
        then have "ok' \<Longrightarrow> v' = add_children v (vals h0 (Tree r us # ts))"
          using l(3) by (simp add: add_children_def add_child_def)
        moreover have "always h0 \<and> depth + levels (Tree r us # ts) \<le> CJSON_CIRCULAR_LIMIT \<Longrightarrow> ok'"
          using l(4) by (simp add: max_def split: if_splits)
        ultimately show ?thesis using l(2) by blast
      qed
    qed
  qed
qed

lemma duplicate_copied:
  assumes "heap_ok h" "bodies (items h) [s]" "no_references (items h) [s]"
    "set (ftexts (items h) [s]) \<union> set (fshared (items h) [s]) \<subseteq> dom (texts h)" "2 * length (faddrs [s]) \<le> fuel"
  shows "\<exists>res h'. cJSON_Duplicate fuel (Some (root s)) True h = Some (res, h') \<and>
     copied (set (fshared (items h) [s])) h h' res (hd (vals h [s])) \<and>
     (always h \<and> levels (subs s) \<le> CJSON_CIRCULAR_LIMIT \<longrightarrow> res \<noteq> None)"
proof -
  obtain r ts where s: "s = Tree r ts" by (cases s)
  obtain n where n: "items h r = Some n" "\<not> is_reference n" "linked (items h) (nd_child n) (map root ts)"
    using assms(2,3) s by auto
  have src: "source (set (fshared (items h) [s])) h (nd_child n) ts"
    using assms(2-4) n s child_forest [OF n(3)] by (auto simp: source_def)
  show ?thesis
    using duplicate_single [OF loop_ok_all assms(1) n(1) src n(2), of fuel 0] assms(4,5) n(1) s
    by (auto simp: cJSON_Duplicate_def)
qed

text \<open>
  C10: Copying an item is all or nothing. The item is well formed and has no references in it, and its
  strings can be read. Then the recursive copy ends without undefined behaviour, with fuel for two
  steps per item. Either it returns NULL and memory holds exactly what it held before, or it returns a
  well formed item of its own that is in no array, has the same value with everything below it, and
  shares no item and no owned string with anything there before, all of which is unchanged. It does
  not return NULL when no allocation fails and the nesting is within the limit.\<close>

theorem duplicate_copies:
  assumes "heap_ok h" "bodies (items h) [s]" "no_references (items h) [s]"
    "set (ftexts (items h) [s]) \<union> set (fshared (items h) [s]) \<subseteq> dom (texts h)" "2 * length (faddrs [s]) \<le> fuel"
  shows "\<exists>res h'. cJSON_Duplicate fuel (Some (root s)) True h = Some (res, h') \<and>
     (case res of
        None \<Rightarrow> items h' = items h \<and> texts h' = texts h
      | Some p \<Rightarrow> \<exists>t. root t = p \<and> bodies (items h') [t] \<and> loose (items h') p \<and> owned h' [t] \<and> vals h' [t] = vals h [s] \<and>
          set (faddrs [t]) \<inter> dom (items h) = {} \<and> set (ftexts (items h') [t]) \<inter> dom (texts h) = {} \<and>
          items h' |` dom (items h) = items h \<and> texts h' |` dom (texts h) = texts h) \<and>
     (always h \<and> levels (subs s) \<le> CJSON_CIRCULAR_LIMIT \<longrightarrow> res \<noteq> None)"
proof -
  let ?K = "set (fshared (items h) [s])"
  obtain res h' where d: "cJSON_Duplicate fuel (Some (root s)) True h = Some (res, h')" "copied ?K h h' res (hd (vals h [s]))"
      "always h \<and> levels (subs s) \<le> CJSON_CIRCULAR_LIMIT \<longrightarrow> res \<noteq> None"
    using duplicate_copied [OF assms] by blast
  have hd: "[hd (vals h [s])] = vals h [s]" by (cases s) (simp add: Let_def)
  have "case res of None \<Rightarrow> items h' = items h \<and> texts h' = texts h
      | Some p \<Rightarrow> \<exists>t. root t = p \<and> bodies (items h') [t] \<and> loose (items h') p \<and> owned h' [t] \<and> vals h' [t] = vals h [s] \<and>
          set (faddrs [t]) \<inter> dom (items h) = {} \<and> set (ftexts (items h') [t]) \<inter> dom (texts h) = {} \<and>
          items h' |` dom (items h) = items h \<and> texts h' |` dom (texts h) = texts h"
  proof (cases res)
    case None
    then show ?thesis using d(2) by (simp add: copied_def same_store_def)
  next
    case (Some p)
    then obtain t where t: "root t = p" "built ?K h h' t (hd (vals h [s]))" using d(2) by (auto simp: copied_def)
    have a: "added ?K h h' [t]" using t(2) by (simp add: built_def)
    have "next_free h \<le> q" if "q \<in> set (faddrs [t]) \<union> set (ftexts (items h') [t])" for q
      using a that unfolding added_def by (meson atLeastLessThan_iff subsetD)
    then have "set (faddrs [t]) \<inter> dom (items h) = {}" "set (ftexts (items h') [t]) \<inter> dom (texts h) = {}"
      using assms(1) by (auto simp: heap_ok_def)
    moreover have "items h' |` dom (items h) = items h" "texts h' |` dom (texts h) = texts h"
    proof (rule_tac [!] ext)
      show "(items h' |` dom (items h)) q = items h q" for q
        using added_keeps(1) [OF a, of q] by (cases "q \<in> dom (items h)") (simp_all add: domIff)
      show "(texts h' |` dom (texts h)) q = texts h q" for q
        using added_keeps(2) [OF a, of q] by (cases "q \<in> dom (texts h)") (simp_all add: domIff)
    qed
    ultimately show ?thesis using t hd a Some by (auto simp: built_def added_def)
  qed
  then show ?thesis using d(1,3) by blast
qed

text \<open>An object with a number under a name, with room for more.\<close>

definition copy_demo :: jheap where
  "copy_demo = \<lparr>items = [0 \<mapsto> zero_node\<lparr>nd_type := cJSON_Object, nd_child := Some 1\<rparr>,
       1 \<mapsto> (number_node 7)\<lparr>nd_prev := Some 1, nd_string := Some 2\<rparr>],
     texts = [2 \<mapsto> ''k''], next_free = 3, grants = (\<lambda>n. True)\<rparr>"

theorem duplicate_copies_witness:
  "\<exists>p h' t. cJSON_Duplicate 4 (Some 0) True copy_demo = Some (Some p, h') \<and> root t = p \<and> vals h' [t] = vals copy_demo [Tree 0 [Tree 1 []]]"
proof -
  let ?s = "Tree 0 [Tree 1 []]"
  have b: "heap_ok copy_demo" "bodies (items copy_demo) [?s]" "no_references (items copy_demo) [?s]" "2 * length (faddrs [?s]) \<le> 4"
      "set (ftexts (items copy_demo) [?s]) \<union> set (fshared (items copy_demo) [?s]) \<subseteq> dom (texts copy_demo)"
    by (auto simp: copy_demo_def heap_ok_def linked_def number_node_def zero_node_def is_reference_def string_is_const_def
        own_texts_def shared_texts_def cJSON_Number_def cJSON_Object_def cJSON_IsReference_def cJSON_StringIsConst_def)
  have "always copy_demo \<and> levels (subs ?s) \<le> CJSON_CIRCULAR_LIMIT"
    by (simp add: copy_demo_def always_def CJSON_CIRCULAR_LIMIT_def)
  then show ?thesis using duplicate_copies [OF b(1-3) b(5,4)] by (auto split: option.splits)
qed

end
