(* ===== verification/CJsonObjects.thy ===== *)
theory CJsonObjects
  imports CJsonCopy
begin

text \<open>
  Creating items and putting them into arrays and objects, by position and by name, and looking them
  up by name: what the programs do with the library when they build a request or an answer.
\<close>

section \<open>New items\<close>

text \<open>A function that creates an item returns NULL and keeps nothing, or a loose item with the value \<open>v\<close>.\<close>

definition created :: "jheap \<Rightarrow> (nat option \<times> jheap) ub \<Rightarrow> jval \<Rightarrow> bool" where
  "created h x v \<longleftrightarrow> (\<exists>r h'. x = Some (r, h') \<and> (always h \<longrightarrow> r \<noteq> None) \<and>
     (case r of None \<Rightarrow> same_store h h' | Some p \<Rightarrow> built {} h h' (Tree p []) v))"

lemma createdE:
  assumes "created h x v"
  obtains r h' where "x = Some (r, h')" "always h \<Longrightarrow> r \<noteq> None"
    "case r of None \<Rightarrow> same_store h h' | Some p \<Rightarrow> built {} h h' (Tree p []) v"
  using assms unfolding created_def by blast

lemma last_root_Nil [simp]: "last_root [] = None"
  by (simp add: last_root_def)

lemma tick_same_store: "heap_ok h \<Longrightarrow> same_store h (h\<lparr>next_free := next_free h + 1\<rparr>)"
  by (simp add: same_store_def grows_def heap_ok_def)

lemma part_built: "part K h h' p [] v \<Longrightarrow> built K h h' (Tree p []) v"
  by (auto simp: part_def built_def loose_def)

definition plain_value :: "u32 \<Rightarrow> int \<Rightarrow> double \<Rightarrow> jval" where
  "plain_value ty i d = JVal ty i d None None []"

lemma create_with_created:
  assumes "heap_ok h" "f zero_node = zero_node\<lparr>nd_type := ty, nd_valueint := i, nd_valuedouble := d\<rparr>" "ty AND cJSON_IsReference = 0"
  shows "created h (create_with f h) (plain_value ty i d)"
proof (cases "grants h (next_free h)")
  case False
  then show ?thesis
    using tick_same_store [OF assms(1)] by (auto simp: created_def create_with_def New_Item_cases always_def)
next
  case True
  let ?h = "h\<lparr>next_free := next_free h + 1, items := (items h)(next_free h \<mapsto> f zero_node)\<rparr>"
  have "part {} h ?h (next_free h) [] (JVal (nd_type (f zero_node)) (nd_valueint (f zero_node)) (nd_valuedouble (f zero_node))
      (text_at ?h (nd_valuestring (f zero_node))) (text_at ?h (nd_string (f zero_node))) [])"
    using assms
    by (intro part_start) (auto simp: heap_ok_def zero_node_def is_reference_def own_texts_def shared_texts_def)
  then have "part {} h ?h (next_free h) [] (plain_value ty i d)"
    using assms(2) by (simp add: plain_value_def zero_node_def text_at_def)
  then show ?thesis
    using True part_built by (auto simp: created_def create_with_def New_Item_cases upd_Some)
qed

lemma create_copied_created:
  assumes "heap_ok h" "texts h a = Some t" "ty AND cJSON_IsReference = 0" "ty AND cJSON_StringIsConst = 0"
  shows "created h (create_copied ty (Some a) h) (JVal ty 0 (Fin 0) (Some t) None [])"
proof (cases "grants h (next_free h)")
  case False
  then show ?thesis
    using tick_same_store [OF assms(1)] by (auto simp: created_def create_copied_def New_Item_cases always_def)
next
  case g: True
  let ?p = "next_free h"
  let ?n = "\<lambda>v. zero_node\<lparr>nd_type := ty, nd_valuestring := v\<rparr>"
  have old: "items h q = None" "texts h q = None" if "?p \<le> q" for q using assms(1) that by (simp_all add: heap_ok_def)
  have own: "own_texts (?n v) = (case v of None \<Rightarrow> [] | Some a \<Rightarrow> [a])" "shared_texts (?n v) = []" for v
    using assms(3,4) by (simp_all add: own_texts_def shared_texts_def is_reference_def zero_node_def split: option.split)
  show ?thesis
  proof (cases "grants h (?p + 1)")
    case True
    let ?h = "h\<lparr>next_free := ?p + 2, items := (items h)(?p \<mapsto> ?n (Some (?p + 1))), texts := (texts h)(?p + 1 \<mapsto> t)\<rparr>"
    let ?m = "?n (Some (?p + 1))"
    have "part {} h ?h ?p [] (JVal (nd_type ?m) (nd_valueint ?m) (nd_valuedouble ?m)
        (text_at ?h (nd_valuestring ?m)) (text_at ?h (nd_string ?m)) [])"
    proof (rule part_start)
      show "heap_ok ?h" using old by (auto simp: heap_ok_def)
    qed (use assms(1,3) own in \<open>simp_all add: is_reference_def, simp_all add: zero_node_def\<close>)
    then have "part {} h ?h ?p [] (JVal ty 0 (Fin 0) (Some t) None [])"
      by (simp add: zero_node_def text_at_def)
    moreover have "create_copied ty (Some a) h = Some (Some ?p, ?h)"
      using g True assms(2) by (simp add: create_copied_def New_Item_cases upd_Some strdup_cases)
    ultimately show ?thesis using part_built by (auto simp: created_def)
  next
    case False
    let ?h = "h\<lparr>next_free := ?p + 2, items := (items h)(?p \<mapsto> ?n None)\<rparr>"
    let ?m = "?n None"
    have "part {} h ?h ?p [] (JVal (nd_type ?m) (nd_valueint ?m) (nd_valuedouble ?m)
        (text_at ?h (nd_valuestring ?m)) (text_at ?h (nd_string ?m)) [])"
    proof (rule part_start)
      show "heap_ok ?h" using old by (auto simp: heap_ok_def)
    qed (use assms(1,3) own in \<open>simp_all add: is_reference_def, simp_all add: zero_node_def\<close>)
    then obtain h2 where "cJSON_Delete (Some ?p) ?h = Some h2" "same_store h h2" using part_fail by blast
    then have "create_copied ty (Some a) h = Some (None, h2)"
      using g False assms(2) by (simp add: create_copied_def New_Item_cases upd_Some strdup_cases)
    then show ?thesis using \<open>same_store h h2\<close> False by (auto simp: created_def always_def)
  qed
qed

lemma created_items:
  assumes "heap_ok h"
  shows "created h (cJSON_CreateNull h) (plain_value cJSON_NULL 0 (Fin 0))"
    "created h (cJSON_CreateTrue h) (plain_value cJSON_True 0 (Fin 0))"
    "created h (cJSON_CreateFalse h) (plain_value cJSON_False 0 (Fin 0))"
    "created h (cJSON_CreateBool b h) (plain_value (if b then cJSON_True else cJSON_False) 0 (Fin 0))"
    "created h (cJSON_CreateNumber_h d h) (plain_value cJSON_Number (saturate d) d)"
    "created h (cJSON_CreateArray h) (plain_value cJSON_Array 0 (Fin 0))"
    "created h (cJSON_CreateObject_h h) (plain_value cJSON_Object 0 (Fin 0))"
    "texts h a = Some t \<Longrightarrow> created h (cJSON_CreateString (Some a) h) (JVal cJSON_String 0 (Fin 0) (Some t) None [])"
    "texts h a = Some t \<Longrightarrow> created h (cJSON_CreateRaw (Some a) h) (JVal cJSON_Raw 0 (Fin 0) (Some t) None [])"
  unfolding cJSON_CreateNull_def cJSON_CreateTrue_def cJSON_CreateFalse_def cJSON_CreateBool_def cJSON_CreateNumber_h_def
    cJSON_CreateArray_def cJSON_CreateObject_h_def cJSON_CreateString_def cJSON_CreateRaw_def
  by ((rule create_with_created [OF assms] create_copied_created [OF assms], assumption?);
      auto simp: zero_node_def cJSON_NULL_def cJSON_True_def cJSON_False_def cJSON_Number_def cJSON_Array_def cJSON_Object_def
        cJSON_String_def cJSON_Raw_def cJSON_IsReference_def cJSON_StringIsConst_def)+

section \<open>Arrays of values\<close>

lemma built_part:
  assumes "built K h h' (Tree p []) v" "jv_type v AND cJSON_IsReference = 0"
  shows "part K h h' p [] v"
proof -
  obtain n where n: "items h' p = Some n" "nd_next n = None" "nd_prev n = None" using assms(1) by (auto simp: built_def loose_def)
  have "nd_type n = jv_type v" using assms(1) n(1) by (auto simp: built_def Let_def)
  then have "\<not> is_reference n" using assms(2) by (simp add: is_reference_def)
  then show ?thesis using assms(1) n by (auto simp: built_def part_def)
qed

text \<open>
  A function that creates an item from \<open>x\<close>: what it needs to read is there, and stays there when
  items are added.\<close>

locale item_creator =
  fixes create :: "'a \<Rightarrow> jheap \<Rightarrow> (nat option \<times> jheap) ub" and val_of :: "'a \<Rightarrow> jval" and ready :: "'a \<Rightarrow> jheap \<Rightarrow> bool"
  assumes creates: "heap_ok h \<Longrightarrow> ready x h \<Longrightarrow> created h (create x h) (val_of x)"
    and stays: "ready x h \<Longrightarrow> added {} h h' ts \<Longrightarrow> ready x h'"
begin

lemma elements:
  assumes "part {} h0 h a us v" "\<forall>x \<in> set (take k xs). ready x h0" "k \<le> length xs"
  shows "\<exists>ok us' v' h'. create_elements create a (last_root us) k xs h = Some (ok, last_root us', h') \<and> part {} h0 h' a us' v' \<and>
     (ok \<longrightarrow> v' = add_children v (map val_of (take k xs))) \<and> (always h0 \<longrightarrow> ok)"
  using assms
proof (induction k arbitrary: h us v xs)
  case 0
  have "v = add_children v []" by (simp add: add_children_def)
  then show ?case using 0 by auto
next
  case (Suc k)
  then obtain x ys where xs: "xs = x # ys" by (cases xs) auto
  have a: "added {} h0 h [Tree a us]" using Suc.prems(1) by (simp add: part_def)
  then have h: "heap_ok h" "always h = always h0" by (simp_all add: added_def grows_def always_def)
  obtain r h1 where c: "create x h = Some (r, h1)" "always h \<Longrightarrow> r \<noteq> None"
      "case r of None \<Rightarrow> same_store h h1 | Some p \<Rightarrow> built {} h h1 (Tree p []) (val_of x)"
    by (rule createdE [OF creates [OF h(1) stays [OF _ a]]]) (use Suc.prems(2) xs in auto)
  show ?case
  proof (cases r)
    case None
    then have "part {} h0 h1 a us v" using part_same_store [OF Suc.prems(1)] c(3) by simp
    moreover have "create_elements create a (last_root us) (Suc k) xs h = Some (False, last_root us, h1)"
      using c(1) None xs by simp
    ultimately show ?thesis using c(2) None h(2) by blast
  next
    case (Some q)
    then obtain h2 where h2: "link_new a (last_root us) q h1 = Some h2" "part {} h0 h2 a (us @ [Tree q []]) (add_child v (val_of x))"
      using part_extend [OF Suc.prems(1), of h1 "Tree q []" "val_of x"] c(3) by auto
    obtain ok us' v' h3 where l: "create_elements create a (last_root (us @ [Tree q []])) k ys h2 = Some (ok, last_root us', h3)"
        "part {} h0 h3 a us' v'" "ok \<Longrightarrow> v' = add_children (add_child v (val_of x)) (map val_of (take k ys))" "always h0 \<Longrightarrow> ok"
      using Suc.IH [OF h2(2), of ys] Suc.prems(2,3) xs by auto
    have "last_root (us @ [Tree q []]) = Some q" by (simp add: last_root_def)
    then have "create_elements create a (last_root us) (Suc k) xs h = Some (ok, last_root us', h3)"
      using c(1) Some xs h2(1) l(1) by (auto simp: link_new_def)
    moreover have "ok \<Longrightarrow> v' = add_children v (map val_of (take (Suc k) xs))"
      using l(3) xs by (simp add: add_children_def add_child_def)
    ultimately show ?thesis using l(2,4) by blast
  qed
qed

lemma array:
  assumes "heap_ok h" "\<forall>x \<in> set (take k xs). ready x h" "k \<le> length xs"
  shows "\<exists>r h'. create_array_of create (Some xs) (int k) h = Some (r, h') \<and> (always h \<longrightarrow> r \<noteq> None) \<and>
     (case r of None \<Rightarrow> same_store h h'
      | Some a \<Rightarrow> \<exists>us. built {} h h' (Tree a us) (JVal cJSON_Array 0 (Fin 0) None None (map val_of (take k xs))))"
proof -
  obtain r h1 where c: "cJSON_CreateArray h = Some (r, h1)" "always h \<Longrightarrow> r \<noteq> None"
      "case r of None \<Rightarrow> same_store h h1 | Some p \<Rightarrow> built {} h h1 (Tree p []) (plain_value cJSON_Array 0 (Fin 0))"
    using created_items(6) [OF assms(1)] by (rule createdE) auto
  show ?thesis
  proof (cases r)
    case None
    then show ?thesis using c by (auto simp: create_array_of_def)
  next
    case (Some a)
    then have "part {} h h1 a [] (plain_value cJSON_Array 0 (Fin 0))"
      using c(3) by (intro built_part) (auto simp: plain_value_def cJSON_Array_def cJSON_IsReference_def)
    then obtain ok us v h2 where l: "create_elements create a (last_root []) k xs h1 = Some (ok, last_root us, h2)"
        "part {} h h2 a us v" "ok \<Longrightarrow> v = add_children (plain_value cJSON_Array 0 (Fin 0)) (map val_of (take k xs))" "always h \<Longrightarrow> ok"
      using elements assms(2,3) by blast
    show ?thesis
    proof (cases ok)
      case False
      obtain h3 where "cJSON_Delete (Some a) h2 = Some h3" "same_store h h3" using part_fail [OF l(2)] by auto
      then show ?thesis using c(1) Some l(1,4) False by (auto simp: create_array_of_def)
    next
      case True
      obtain h3 where h3: "point_back a (last_root us) h2 = Some h3" "built {} h h3 (Tree a us) v" using part_finish [OF l(2)] by auto
      have "create_array_of create (Some xs) (int k) h = Some (Some a, h3)"
        using c(1) Some l(1) True h3(1) by (auto simp: create_array_of_def point_back_def split: bind_splits)
      then show ?thesis using h3(2) l(3) [OF True] by (auto simp: add_children_def plain_value_def)
    qed
  qed
qed

end

definition text_value :: "jheap \<Rightarrow> nat option \<Rightarrow> jval" where
  "text_value h s = JVal cJSON_String 0 (Fin 0) (text_at h s) None []"

definition text_ready :: "jheap \<Rightarrow> nat option \<Rightarrow> jheap \<Rightarrow> bool" where
  "text_ready h0 s h \<longleftrightarrow> (\<exists>a t. s = Some a \<and> texts h0 a = Some t \<and> texts h a = Some t)"

interpretation numbers: item_creator cJSON_CreateNumber_h "\<lambda>d. plain_value cJSON_Number (saturate d) d" "\<lambda>d h. True"
  by unfold_locales (use created_items(5) in auto)

interpretation ints: item_creator "\<lambda>i. cJSON_CreateNumber_h (Fin (of_int i))"
    "\<lambda>i. plain_value cJSON_Number (saturate (Fin (of_int i))) (Fin (of_int i))" "\<lambda>d h. True"
  by unfold_locales (use created_items(5) in auto)

interpretation strings: item_creator cJSON_CreateString "text_value h0" "text_ready h0" for h0
proof
  fix h h' x ts
  show "heap_ok h \<Longrightarrow> text_ready h0 x h \<Longrightarrow> created h (cJSON_CreateString x h) (text_value h0 x)"
    using created_items(8) by (auto simp: text_ready_def text_value_def text_at_def)
  show "text_ready h0 x h \<Longrightarrow> added {} h h' ts \<Longrightarrow> text_ready h0 x h'"
    using added_keeps(2) by (fastforce simp: text_ready_def)
qed

end
