(* ===== verification/CJsonNames.thy ===== *)
theory CJsonNames
  imports CJsonObjects
begin

text \<open>
  Naming items and putting them into objects, and finding them by name.
\<close>

section \<open>Naming an item\<close>

definition with_name :: "jval \<Rightarrow> string \<Rightarrow> jval" where
  "with_name v k = JVal (jv_type v AND NOT cJSON_StringIsConst) (jv_int v) (jv_double v) (jv_text v) (Some k) (jv_children v)"

lemma const_flag:
  "(x AND NOT cJSON_StringIsConst) AND cJSON_StringIsConst = 0"
  "(x AND NOT cJSON_StringIsConst) AND cJSON_IsReference = x AND cJSON_IsReference"
proof -
  show "(x AND NOT cJSON_StringIsConst) AND cJSON_StringIsConst = 0" by (simp add: and.assoc)
  have "NOT cJSON_StringIsConst AND cJSON_IsReference = cJSON_IsReference"
    by (simp add: cJSON_StringIsConst_def cJSON_IsReference_def)
  then show "(x AND NOT cJSON_StringIsConst) AND cJSON_IsReference = x AND cJSON_IsReference" by (simp add: and.assoc)
qed

text \<open>The parts of the texts of an item: its value and its name.\<close>

definition name_texts :: "cjson_node \<Rightarrow> nat list" where
  "name_texts n = (case nd_string n of None \<Rightarrow> [] | Some b \<Rightarrow> if string_is_const n then [] else [b])"

definition named_heap :: "nat \<Rightarrow> cjson_node \<Rightarrow> string \<Rightarrow> jheap \<Rightarrow> jheap" where
  "named_heap i n nm h = h\<lparr>items := (items h)(i \<mapsto> n\<lparr>nd_string := Some (next_free h), nd_type := nd_type n AND NOT cJSON_StringIsConst\<rparr>),
     texts := (texts h |` (- set (name_texts n)))(next_free h \<mapsto> nm), next_free := next_free h + 1\<rparr>"

lemma single_sub:
  assumes "t \<in> set ts"
  shows "set (faddrs [t]) \<subseteq> set (faddrs ts)" "set (ftexts m [t]) \<subseteq> set (ftexts m ts)" "set (fshared m [t]) \<subseteq> set (fshared m ts)"
proof -
  obtain us vs where "ts = us @ t # vs" using split_list [OF assms] by blast
  then have "ts = us @ [t] @ vs" by simp
  then show "set (faddrs [t]) \<subseteq> set (faddrs ts)" "set (ftexts m [t]) \<subseteq> set (ftexts m ts)" "set (fshared m [t]) \<subseteq> set (fshared m ts)"
    by (simp_all only: faddrs_append ftexts_append fshared_append set_append) blast+
qed

lemma name_item:
  assumes "tidy h a (Tree i us # rest)" "items h i = Some n" "heap_ok h" "h' = named_heap i n nm h"
  shows "tidy h' a (Tree i us # rest)" "same_values h h' rest" "vals h' [Tree i us] = [with_name (hd (vals h [Tree i us])) nm]" "heap_ok h'"
proof -
  let ?k = "next_free h" and ?n = "n\<lparr>nd_string := Some (next_free h), nd_type := nd_type n AND NOT cJSON_StringIsConst\<rparr>"
  let ?o = "us @ rest"
  let ?vt = "case nd_valuestring n of None \<Rightarrow> [] | Some a \<Rightarrow> if is_reference n then [] else [a]"
  let ?vs = "case nd_valuestring n of None \<Rightarrow> [] | Some a \<Rightarrow> if is_reference n then [a] else []"
  have fl: "is_reference ?n = is_reference n" "\<not> string_is_const ?n"
    using const_flag by (simp_all add: is_reference_def string_is_const_def)
  have own: "own_texts n = ?vt @ name_texts n" "own_texts ?n = ?vt @ [?k]" "shared_texts ?n = ?vs" "set ?vs \<subseteq> set (shared_texts n)"
    using fl by (simp_all add: own_texts_def shared_texts_def name_texts_def split: option.split)
  have t: "bodies (items h) (Tree i us # rest)" "owned h (Tree i us # rest)" "a \<notin> set (faddrs (Tree i us # rest))"
      "set (ftexts (items h) (Tree i us # rest)) \<inter> set (fshared (items h) (Tree i us # rest)) = {}"
      "set (fshared (items h) (Tree i us # rest)) \<subseteq> dom (texts h)"
    using assms(1) by (auto simp: tidy_def)
  have i: "items h' p = items h p" if "p \<in> set (faddrs ?o)" for p
    using that t(2) by (auto simp: assms(4) named_heap_def owned_def)
  have kfree: "?k \<notin> dom (texts h)" using assms(3) by (simp add: heap_ok_def domIff)
  have x: "texts h' b = texts h b" if "b \<in> set ?vt \<union> set (shared_texts n) \<union> set (ftexts (items h) ?o) \<union> set (fshared (items h) ?o)" for b
  proof -
    have "b \<noteq> ?k" using that kfree t(2,5) assms(2) own(1) by (auto simp: owned_def)
    moreover have "b \<notin> set (name_texts n)" using that t(2,4) assms(2) own(1) by (auto simp: owned_def)
    ultimately show ?thesis by (simp add: assms(4) named_heap_def)
  qed
  have c: "ftexts (items h') ?o = ftexts (items h) ?o" "fshared (items h') ?o = fshared (items h) ?o" "bodies (items h') ?o = bodies (items h) ?o"
    using i by (intro ftexts_cong fshared_cong bodies_cong; blast)+
  have hi: "items h' i = Some ?n" by (simp add: assms(4) named_heap_def)
  have d: "set (faddrs ?o) \<subseteq> dom (items h)" using t(2) by (auto simp: owned_def)
  have v: "vals h' ts = vals h ts" if "set (faddrs ts) \<subseteq> set (faddrs ?o)" "set (ftexts (items h) ts) \<subseteq> set (ftexts (items h) ?o)"
      "set (fshared (items h) ts) \<subseteq> set (fshared (items h) ?o)" for ts
  proof (rule vals_cong [THEN conjunct1])
    show "set (faddrs ts) \<subseteq> dom (items h)" using that(1) d by blast
    show "map_option value_of (items h' p) = map_option value_of (items h p)" if "p \<in> set (faddrs ts)" for p
      using i that \<open>set (faddrs ts) \<subseteq> set (faddrs ?o)\<close> by (metis subsetD)
    show "texts h' b = texts h b" if "b \<in> set (ftexts (items h) ts) \<union> set (fshared (items h) ts)" for b
      using that \<open>set (ftexts (items h) ts) \<subseteq> _\<close> \<open>set (fshared (items h) ts) \<subseteq> _\<close> by (intro x) blast
  qed
  show "heap_ok h'" using assms(2,3) by (auto simp: assms(4) named_heap_def heap_ok_def restrict_map_def)
  have "vals h' [t] = vals h [t]" if "t \<in> set rest" for t
  proof (rule v)
    show "set (faddrs [t]) \<subseteq> set (faddrs ?o)" "set (ftexts (items h) [t]) \<subseteq> set (ftexts (items h) ?o)"
      "set (fshared (items h) [t]) \<subseteq> set (fshared (items h) ?o)"
      using single_sub [OF that] unfolding faddrs_append ftexts_append fshared_append set_append by blast+
  qed
  then show "same_values h h' rest" by (simp add: same_values_def)
  have r: "linked (items h') (nd_child n) (map root us) = linked (items h) (nd_child n) (map root us)"
    using roots_faddrs [of us] i by (intro linked_cong) auto
  have b: "bodies (items h') (Tree i us # rest)"
    using t(1) assms(2) c(3) hi fl(1) r by (simp split: if_splits)
  have f: "ftexts (items h') (Tree i us # rest) = (?vt @ [?k]) @ ftexts (items h) ?o" "fshared (items h') (Tree i us # rest) = ?vs @ fshared (items h) ?o"
    using c(1,2) hi own(2,3) by simp_all
  have ft: "ftexts (items h) (Tree i us # rest) = ?vt @ name_texts n @ ftexts (items h) ?o"
      "fshared (items h) (Tree i us # rest) = shared_texts n @ fshared (items h) ?o"
    using assms(2) own(1) by simp_all
  have dm: "dom (texts h') = insert ?k (dom (texts h) - set (name_texts n))" "dom (items h') = insert i (dom (items h))"
    by (auto simp: assms(4) named_heap_def)
  have "distinct ((?vt @ [?k]) @ ftexts (items h) ?o)" "set ((?vt @ [?k]) @ ftexts (items h) ?o) \<subseteq> dom (texts h')"
    using t(2) kfree unfolding owned_def ft dm by auto
  then have w: "owned h' (Tree i us # rest)"
    using t(2) unfolding owned_def f dm by auto
  have "set (?vs @ fshared (items h) ?o) \<subseteq> dom (texts h')" "set ((?vt @ [?k]) @ ftexts (items h) ?o) \<inter> set (?vs @ fshared (items h) ?o) = {}"
    using t(4,5) own(4) kfree unfolding ft dm by auto
  then show "tidy h' a (Tree i us # rest)"
    using b w t(3) unfolding tidy_def f by simp
  have "text_at h' (nd_valuestring n) = text_at h (nd_valuestring n)"
    using x by (auto simp: text_at_def shared_texts_def split: option.split)
  moreover have "text_at h' (Some ?k) = Some nm" by (simp add: text_at_def assms(4) named_heap_def)
  moreover have "vals h' us = vals h us" by (rule v) auto
  ultimately show "vals h' [Tree i us] = [with_name (hd (vals h [Tree i us])) nm]"
    using hi assms(2) by (simp add: with_name_def Let_def)
qed

section \<open>Finding an item by its name\<close>

abbreviation val_at :: "jheap \<Rightarrow> ctree \<Rightarrow> jval" where
  "val_at h t \<equiv> hd (vals h [t])"

lemma val_at_name: "items h (root t) = Some n \<Longrightarrow> jv_name (val_at h t) = text_at h (nd_string n)"
  by (cases t) (simp add: Let_def)

text \<open>The two searches: what they do at the end of the chain and at an item with a name.\<close>

locale name_search =
  fixes look :: "nat \<Rightarrow> nat option \<Rightarrow> jheap \<Rightarrow> nat option option" and same :: "string \<Rightarrow> string \<Rightarrow> bool"
  assumes look_end: "look s None h = Some None"
    and look_item: "items h p = Some n \<Longrightarrow> nd_string n = Some b \<Longrightarrow> texts h s = Some nm \<Longrightarrow> texts h b = Some k \<Longrightarrow>
      look s (Some p) h = (if same nm k then Some (Some p) else look s (nd_next n) h)"
begin

lemma look_chain:
  assumes "seg (items h) p (map root ts) None" "\<forall>t \<in> set ts. jv_name (val_at h t) \<noteq> None" "texts h s = Some nm"
  shows "look s (if ts = [] then None else Some (root (hd ts))) h =
     Some (map_option root (find (\<lambda>t. same nm (the (jv_name (val_at h t)))) ts))"
  using assms(1,2)
proof (induction ts arbitrary: p)
  case Nil
  then show ?case by (simp add: look_end)
next
  case (Cons t ts)
  then obtain n where n: "items h (root t) = Some n" "nd_next n = (if ts = [] then None else Some (root (hd ts)))"
      "seg (items h) (root t) (map root ts) None" by (auto simp: hd_map)
  obtain b k where b: "nd_string n = Some b" "texts h b = Some k" "jv_name (val_at h t) = Some k"
    using Cons.prems(2) val_at_name [OF n(1)] by (auto simp: text_at_def split: option.splits)
  show ?case
    using look_item [OF n(1) b(1) assms(3) b(2)] b(3) Cons.IH [OF n(3)] Cons.prems(2) n(2) by auto
qed

lemma look_linked:
  assumes "linked (items h) q (map root ts)" "\<forall>t \<in> set ts. jv_name (val_at h t) \<noteq> None" "texts h s = Some nm"
  shows "look s q h = Some (map_option root (find (\<lambda>t. same nm (the (jv_name (val_at h t)))) ts))"
proof -
  have q: "q = (if ts = [] then None else Some (root (hd ts)))" "ts \<noteq> [] \<Longrightarrow> seg (items h) (last (map root ts)) (map root ts) None"
    using assms(1) by (auto simp: linked_def hd_map split: if_splits)
  show ?thesis
  proof (cases "ts = []")
    case False
    then show ?thesis using look_chain [OF q(2) [OF False] assms(2,3)] q(1) by simp
  qed (use look_end q(1) in simp)
qed

end

interpretation exact: name_search find_exact "(=)"
  by unfold_locales (simp_all add: find_exact.simps)

interpretation nocase: name_search find_nocase strcasecmp_eq
proof
  show "find_nocase s None h = Some None" for s h by (simp add: find_nocase.simps)
  show "find_nocase s (Some p) h = (if strcasecmp_eq nm k then Some (Some p) else find_nocase s (nd_next n) h)"
    if "items h p = Some n" "nd_string n = Some b" "texts h s = Some nm" "texts h b = Some k" for h p n b s nm k
    using that by (subst find_nocase.simps) (auto simp: case_insensitive_same_def strcasecmp_eq_def)
qed

lemma get_object_item_linked:
  assumes "items h a = Some n" "linked (items h) (nd_child n) (map root ts)" "\<forall>t \<in> set ts. jv_name (val_at h t) \<noteq> None" "texts h s = Some nm"
  shows "get_object_item (Some a) (Some s) case_sensitive h =
     Some (map_option root (find (\<lambda>t. (if case_sensitive then (=) else strcasecmp_eq) nm (the (jv_name (val_at h t)))) ts))"
  using exact.look_linked [OF assms(2-4)] nocase.look_linked [OF assms(2-4)] assms(1) by (simp add: get_object_item_def)

lemma get_object_item_named:
  assumes "holding h a ts fs" "\<forall>t \<in> set ts. jv_name (val_at h t) \<noteq> None" "texts h s = Some nm"
  shows "get_object_item (Some a) (Some s) case_sensitive h =
     Some (map_option root (find (\<lambda>t. (if case_sensitive then (=) else strcasecmp_eq) nm (the (jv_name (val_at h t)))) ts))"
  using assms(1) get_object_item_linked [OF _ _ assms(2,3)] by (auto simp: holding_def children_def)

section \<open>Putting an item into an object\<close>

definition keeps_alloc :: "jheap \<Rightarrow> jheap \<Rightarrow> bool" where
  "keeps_alloc h h' \<longleftrightarrow> next_free h' = next_free h \<and> grants h' = grants h \<and> texts h' = texts h \<and> dom (items h') = dom (items h)"

lemma upd_keeps: "upd p f h = Some h' \<Longrightarrow> keeps_alloc h h'"
  by (auto simp: keeps_alloc_def upd_def split: option.splits if_splits)

lemma keeps_alloc_refl [simp]: "keeps_alloc h h"
  by (simp add: keeps_alloc_def)

lemma keeps_alloc_trans: "keeps_alloc h h1 \<Longrightarrow> keeps_alloc h1 h2 \<Longrightarrow> keeps_alloc h h2"
  by (simp add: keeps_alloc_def)

lemma add_item_keeps: "add_item_to_array x y h = Some (ok, h') \<Longrightarrow> keeps_alloc h h'"
  by (auto simp: add_item_to_array_def suffix_object_def split: option.splits if_splits bind_splits
      dest!: upd_keeps intro: keeps_alloc_trans)

lemma heap_ok_alt: "heap_ok h \<longleftrightarrow> (\<forall>p. next_free h \<le> p \<longrightarrow> p \<notin> dom (items h) \<and> p \<notin> dom (texts h))"
  by (simp add: heap_ok_def domIff)

lemma keeps_alloc_ok: "keeps_alloc h h' \<Longrightarrow> heap_ok h' = heap_ok h"
  unfolding keeps_alloc_def heap_ok_alt by metis

lemma holding_named:
  assumes "holding h a ts (xs @ t # ys)" "items h (root t) = Some n" "heap_ok h" "h' = named_heap (root t) n nm h"
  shows "holding h' a ts (xs @ t # ys)" "same_values h h' (ts @ xs @ ys)" "val_at h' t = with_name (val_at h t) nm" "heap_ok h'"
proof -
  obtain i us where t: "t = Tree i us" by (cases t)
  have m: "mset (t # ts @ xs @ ys) = mset (ts @ xs @ t # ys)" by simp
  have "tidy h a (Tree i us # ts @ xs @ ys)"
    using assms(1) tidy_perm [OF m] t by (simp add: holding_def)
  note n = name_item [OF this assms(2) [unfolded t ctree.sel] assms(3) assms(4) [unfolded t ctree.sel]]
  show "same_values h h' (ts @ xs @ ys)" "heap_ok h'" using n by auto
  show "val_at h' t = with_name (val_at h t) nm" using n(3) t by simp
  have r: "i \<notin> insert a (set (map root ts))" "i \<notin> root ` set (xs @ ys)"
    using holding_roots [OF assms(1)] t by auto
  have "children (items h') a (map root ts)"
  proof -
    have "linked (items h') q (map root ts) = linked (items h) q (map root ts)" for q
      using r(1) by (intro linked_cong) (auto simp: assms(4) named_heap_def t)
    then show ?thesis using assms(1) r(1) by (simp add: holding_def children_def assms(4) named_heap_def t)
  qed
  moreover have "loose (items h') (root f)" if "f \<in> set (xs @ t # ys)" for f
    using that assms(1,2) r(2) by (auto simp: holding_def loose_def assms(4) named_heap_def t)
  moreover have "tidy h' a (ts @ xs @ t # ys)" using n(1) tidy_perm [OF m] t by simp
  ultimately show "holding h' a ts (xs @ t # ys)" by (auto simp: holding_def)
qed

text \<open>
  Adding under a name: the item moves to the end of the object with a copy of the name; the name may be
  the one the item has, as the copy is made first. A copy that cannot be allocated changes nothing.\<close>

lemma heap_order: "h\<lparr>next_free := k, texts := x, items := m\<rparr> = h\<lparr>items := m, texts := x, next_free := k\<rparr>"
  by simp

lemma object_add:
  assumes "holding h a ts (xs @ t # ys)" "heap_ok h" "texts h s = Some nm"
  shows "\<exists>ok h'. cJSON_AddItemToObject (Some a) (Some s) (Some (root t)) h = Some (ok, h') \<and> (always h \<longrightarrow> ok) \<and>
     (if ok then holding h' a (ts @ [t]) (xs @ ys) \<and> heap_ok h' \<and> same_values h h' (ts @ xs @ ys) \<and>
        val_at h' t = with_name (val_at h t) nm \<and> grants h' = grants h \<and>
        (\<forall>n b. items h (root t) = Some n \<and> b \<in> dom (texts h) - set (name_texts n) \<longrightarrow> texts h' b = texts h b) else same_store h h')"
proof -
  have ai: "a \<noteq> root t" using holding_roots(2) [OF assms(1)] by auto
  obtain n where n: "items h (root t) = Some n" using assms(1) by (auto simp: holding_def loose_def)
  note sd = strdup_cases [OF assms(3)]
  show ?thesis
  proof (cases "grants h (next_free h)")
    case False
    then have "cJSON_AddItemToObject (Some a) (Some s) (Some (root t)) h = Some (False, h\<lparr>next_free := next_free h + 1\<rparr>)"
      using ai sd by (simp add: cJSON_AddItemToObject_def add_item_to_object_def)
    then show ?thesis using False tick_same_store [OF assms(2)] by (auto simp: always_def)
  next
    case True
    let ?h1 = "named_heap (root t) n nm h"
    note w = holding_named [OF assms(1) n assms(2) refl, of nm]
    obtain h2 where h2: "add_item_to_array (Some a) (Some (root t)) ?h1 = Some (True, h2)"
        "holding h2 a (ts @ [t]) (xs @ ys)" "same_values ?h1 h2 (ts @ xs @ t # ys)"
      using edit_add [OF w(1)] by blast
    have names: "b \<noteq> next_free h \<and> texts h b \<noteq> None" if "nd_string n = Some b" "\<not> string_is_const n" for b
    proof -
      have "root t \<in> set (faddrs (ts @ xs @ t # ys))" using roots_faddrs [of "ts @ xs @ t # ys"] by auto
      then have "b \<in> dom (texts h)" using assms(1) n that ftexts_own [of "root t" "ts @ xs @ t # ys" "items h" n]
        by (auto simp: holding_def tidy_def owned_def own_texts_def)
      then show ?thesis using assms(2) by (auto simp: heap_ok_def)
    qed
    have "cJSON_AddItemToObject (Some a) (Some s) (Some (root t)) h = add_item_to_array (Some a) (Some (root t)) ?h1"
    proof (cases "name_texts n = []")
      case nt: True
      then have "(case nd_string n of None \<Rightarrow> True | Some b \<Rightarrow> string_is_const n)" by (auto simp: name_texts_def split: option.splits if_splits)
      then show ?thesis
        using True ai sd n nt by (auto simp: cJSON_AddItemToObject_def add_item_to_object_def named_heap_def upd_Some restrict_UNIV heap_order split: option.splits)
    next
      case nt: False
      then obtain b where b: "nd_string n = Some b" "\<not> string_is_const n" "name_texts n = [b]"
        by (auto simp: name_texts_def split: option.splits if_splits)
      obtain old where old: "texts h b = Some old" using names [OF b(1,2)] by blast
      have "((texts h)(next_free h \<mapsto> nm))(b := None) = (texts h |` (- {b}))(next_free h \<mapsto> nm)"
        using names [OF b(1,2)] by (auto simp: restrict_map_def fun_eq_iff)
      then show ?thesis
        using True ai sd n b old names [OF b(1,2)]
        by (simp add: cJSON_AddItemToObject_def add_item_to_object_def named_heap_def upd_Some free_text_def heap_order)
    qed
    then have "cJSON_AddItemToObject (Some a) (Some s) (Some (root t)) h = Some (True, h2)" using h2(1) by simp
    moreover have "heap_ok h2" "grants h2 = grants h" "texts h2 = texts ?h1"
      using keeps_alloc_ok [OF add_item_keeps [OF h2(1)]] add_item_keeps [OF h2(1)] w(4) by (simp_all add: keeps_alloc_def named_heap_def)
    moreover have "texts ?h1 b = texts h b" if "b \<in> dom (texts h) - set (name_texts n)" for b
      using that assms(2) by (auto simp: named_heap_def heap_ok_def)
    ultimately show ?thesis
      using h2(2,3) w(2,3) n by (auto simp: same_values_def)
  qed
qed

section \<open>Building objects\<close>

lemma tidy_append:
  assumes "tidy h a us" "tidy h a vs" "set (faddrs us) \<inter> set (faddrs vs) = {}" "set (ftexts (items h) us) \<inter> set (ftexts (items h) vs) = {}"
    "set (ftexts (items h) us) \<inter> set (fshared (items h) vs) = {}" "set (ftexts (items h) vs) \<inter> set (fshared (items h) us) = {}"
  shows "tidy h a (us @ vs)"
  unfolding tidy_def owned_def bodies_append faddrs_append ftexts_append fshared_append distinct_append set_append
  using assms unfolding tidy_def owned_def by (simp add: Int_Un_distrib Int_Un_distrib2 Int_commute)

text \<open>A new item joins what the program holds.\<close>

lemma holding_built:
  assumes "holding h a ts fs" "built {} h h1 t v"
  shows "holding h1 a ts (fs @ [t])" "same_values h h1 (ts @ fs)" "val_at h1 t = v"
proof -
  have ad: "added {} h h1 [t]" and b: "bodies (items h1) [t]" "loose (items h1) (root t)" "vals h1 [t] = [v]"
    using assms(2) by (auto simp: built_def)
  have td: "tidy h a (ts @ fs)" using assms(1) by (simp add: holding_def)
  have d: "set (faddrs (ts @ fs)) \<subseteq> dom (items h)" "a \<in> dom (items h)" "set (ftexts (items h) (ts @ fs)) \<subseteq> dom (texts h)"
      "set (fshared (items h) (ts @ fs)) \<subseteq> dom (texts h)"
    using assms(1) td by (auto simp: holding_def children_def tidy_def owned_def)
  have c: "holding h1 a ts fs \<and> same_values h h1 (ts @ fs)"
    using d by (intro holding_cong [OF assms(1)] added_keeps [OF ad]) auto
  then show "same_values h h1 (ts @ fs)" by simp
  show "val_at h1 t = v" using b by simp
  have hk: "heap_ok h" using ad by (simp add: added_def grows_def)
  have fresh: "set (faddrs [t]) \<inter> dom (items h) = {}" "set (ftexts (items h1) [t]) \<inter> dom (texts h) = {}"
  proof -
    have r: "set (faddrs [t]) \<union> set (ftexts (items h1) [t]) \<subseteq> {next_free h ..< next_free h1}" using ad by (simp only: added_def)
    have "x \<notin> dom (items h) \<and> x \<notin> dom (texts h)" if "x \<in> set (faddrs [t]) \<union> set (ftexts (items h1) [t])" for x
    proof -
      have "next_free h \<le> x" using r that by (meson atLeastLessThan_iff subsetD)
      then show ?thesis using heap_ok_dom [OF hk] by (meson not_le)
    qed
    then show "set (faddrs [t]) \<inter> dom (items h) = {}" "set (ftexts (items h1) [t]) \<inter> dom (texts h) = {}" by blast+
  qed
  note k = added_keeps_trees [OF ad d(1,3,4)]
  have t1: "tidy h1 a (ts @ fs)" using c by (simp add: holding_def)
  have "a \<notin> set (faddrs [t])" using d(2) fresh(1) by blast
  then have t2: "tidy h1 a [t]" "set (fshared (items h1) [t]) = {}" using ad b(1) by (auto simp: tidy_def added_def)
  have "tidy h1 a ((ts @ fs) @ [t])"
  proof (rule tidy_append [OF t1 t2(1)], unfold k(1,2) t2(2))
    show "set (faddrs (ts @ fs)) \<inter> set (faddrs [t]) = {}" using d(1) fresh(1) by blast
    show "set (ftexts (items h) (ts @ fs)) \<inter> set (ftexts (items h1) [t]) = {}" using d(3) fresh(2) by blast
    show "set (ftexts (items h1) [t]) \<inter> set (fshared (items h) (ts @ fs)) = {}" using d(4) fresh(2) by blast
  qed simp
  then show "holding h1 a ts (fs @ [t])" using c b(2) by (simp add: holding_def)
qed

text \<open>The functions that create an item and add it: all or nothing, and no text of the program goes.\<close>

lemma tidy_names:
  assumes "tidy h a ts" "t \<in> set ts" "items h (root t) = Some n" "jv_name (val_at h t) = None"
  shows "nd_string n = None"
proof (rule ccontr)
  assume "nd_string n \<noteq> None"
  then obtain b where b: "nd_string n = Some b" by blast
  have r: "root t \<in> set (faddrs ts)" using roots_faddrs [of ts] assms(2) by auto
  have "b \<in> set (own_texts n) \<union> set (shared_texts n)" using b by (simp add: own_texts_def shared_texts_def)
  moreover have "set (shared_texts n) \<subseteq> set (fshared (items h) ts)"
    using r assms(3) by (induction ts rule: faddrs.induct) auto
  ultimately have "b \<in> dom (texts h)"
    using ftexts_own [of "root t" ts "items h" n] r assms(1,3) by (auto simp: tidy_def owned_def)
  then show False using assms(4) val_at_name [OF assms(3)] b by (auto simp: text_at_def)
qed

lemma add_created_holding:
  assumes "holding h a ts fs" "created h x v" "heap_ok h" "texts h s = Some nm" "jv_type v AND cJSON_IsReference = 0" "jv_name v = None"
  shows "\<exists>r h'. do { r \<leftarrow> x; add_created (Some a) (Some s) r } = Some (r, h') \<and> (always h \<longrightarrow> r \<noteq> None) \<and> heap_ok h' \<and>
     grants h' = grants h \<and> (\<forall>b \<in> dom (texts h). texts h' b = texts h b) \<and>
     (case r of None \<Rightarrow> same_store h h'
      | Some p \<Rightarrow> \<exists>t. root t = p \<and> holding h' a (ts @ [t]) fs \<and> same_values h h' (ts @ fs) \<and> val_at h' t = with_name v nm)"
proof -
  obtain r h1 where c: "x = Some (r, h1)" "always h \<Longrightarrow> r \<noteq> None"
      "case r of None \<Rightarrow> same_store h h1 | Some p \<Rightarrow> built {} h h1 (Tree p []) v"
    using assms(2) by (rule createdE) blast
  show ?thesis
  proof (cases r)
    case None
    then have "add_created (Some a) (Some s) (r, h1) = Some (None, h1)"
      by (simp add: add_created_def add_item_to_object_def cJSON_Delete.simps)
    then show ?thesis using c None by (auto simp: same_store_def grows_def)
  next
    case (Some p)
    let ?t = "Tree p []"
    have b: "built {} h h1 ?t v" using c(3) Some by simp
    have ad: "added {} h h1 [?t]" using b by (simp add: built_def)
    have "heap_ok h1" "grants h1 = grants h" using ad by (simp_all add: added_def grows_def)
    note g = this added_keeps(2) [OF ad]
    note hold = holding_built [OF assms(1) b, unfolded append_Nil2]
    have nm: "texts h1 s = Some nm" using g(3) [of s] assms(4) by auto
    obtain ok h2 where o: "cJSON_AddItemToObject (Some a) (Some s) (Some p) h1 = Some (ok, h2)" "always h1 \<Longrightarrow> ok"
        "if ok then holding h2 a (ts @ [?t]) (fs @ []) \<and> heap_ok h2 \<and> same_values h1 h2 (ts @ fs @ []) \<and>
          val_at h2 ?t = with_name (val_at h1 ?t) nm \<and> grants h2 = grants h1 \<and>
          (\<forall>n b. items h1 p = Some n \<and> b \<in> dom (texts h1) - set (name_texts n) \<longrightarrow> texts h2 b = texts h1 b) else same_store h1 h2"
      using object_add [OF hold(1) g(1) nm] unfolding ctree.sel by blast
    show ?thesis
    proof (cases ok)
      case True
      obtain n where n: "items h1 p = Some n" using b by (auto simp: built_def loose_def)
      have "nd_string n = None"
      proof (rule tidy_names)
        show "tidy h1 a (ts @ fs @ [?t])" using hold(1) by (simp add: holding_def)
        show "jv_name (val_at h1 ?t) = None" using hold(3) assms(6) by (simp only:)
      qed (use n in simp_all)
      then have "texts h2 b = texts h b" if "b \<in> dom (texts h)" for b
      proof -
        have "b \<in> dom (texts h1) - set (name_texts n)" using that g(3) [OF that] \<open>nd_string n = None\<close> by (simp add: name_texts_def domIff)
        moreover have "\<forall>n b. items h1 p = Some n \<and> b \<in> dom (texts h1) - set (name_texts n) \<longrightarrow> texts h2 b = texts h1 b"
          using o(3) unfolding if_P [OF True] by blast
        ultimately show ?thesis using n g(3) [OF that] by metis
      qed
      moreover have "do { r \<leftarrow> x; add_created (Some a) (Some s) r } = Some (Some p, h2)"
        using c(1) Some o(1) True by (simp add: add_created_def cJSON_AddItemToObject_def)
      moreover have "same_values h h2 (ts @ fs)"
        using hold(2) o(3) unfolding if_P [OF True] append_Nil2 same_values_def by simp
      moreover have "holding h2 a (ts @ [?t]) fs" "heap_ok h2" "grants h2 = grants h" "val_at h2 ?t = with_name v nm"
        using o(3) unfolding if_P [OF True] append_Nil2 hold(3) g(2) by blast+
      ultimately show ?thesis by (intro exI [of _ "Some p"] exI [of _ h2] conjI) (auto intro: exI [of _ ?t])
    next
      case False
      have "part {} h h2 p [] v" using part_same_store [OF built_part [OF b assms(5)]] o(3) False by simp
      then obtain h3 where h3: "cJSON_Delete (Some p) h2 = Some h3" "same_store h h3" using part_fail by blast
      have "do { r \<leftarrow> x; add_created (Some a) (Some s) r } = Some (None, h3)"
        using c(1) Some o(1) False h3(1) by (simp add: add_created_def cJSON_AddItemToObject_def)
      moreover have "\<not> always h" using o(2) False g(2) by (auto simp: always_def)
      ultimately show ?thesis using h3(2) by (auto simp: same_store_def grows_def)
    qed
  qed
qed

section \<open>Sequences of fields\<close>

datatype field = FNull | FTrue | FFalse | FBool bool | FNumber double | FString nat | FRaw nat | FObject | FArray

text \<open>A name and what to store under it, with the function of the library that does.\<close>

fun add_field :: "nat \<Rightarrow> nat \<times> field \<Rightarrow> jheap \<Rightarrow> (nat option \<times> jheap) ub" where
  "add_field a (s, FNull) h = cJSON_AddNullToObject (Some a) (Some s) h"
| "add_field a (s, FTrue) h = cJSON_AddTrueToObject (Some a) (Some s) h"
| "add_field a (s, FFalse) h = cJSON_AddFalseToObject (Some a) (Some s) h"
| "add_field a (s, FBool b) h = cJSON_AddBoolToObject (Some a) (Some s) b h"
| "add_field a (s, FNumber d) h = cJSON_AddNumberToObject (Some a) (Some s) d h"
| "add_field a (s, FString x) h = cJSON_AddStringToObject_h (Some a) (Some s) (Some x) h"
| "add_field a (s, FRaw x) h = cJSON_AddRawToObject (Some a) (Some s) (Some x) h"
| "add_field a (s, FObject) h = cJSON_AddObjectToObject (Some a) (Some s) h"
| "add_field a (s, FArray) h = cJSON_AddArrayToObject (Some a) (Some s) h"

fun add_fields :: "nat \<Rightarrow> (nat \<times> field) list \<Rightarrow> jheap \<Rightarrow> (nat option list \<times> jheap) ub" where
  "add_fields a [] h = Some ([], h)"
| "add_fields a (x # xs) h = do { (r, h) \<leftarrow> add_field a x h; (rs, h) \<leftarrow> add_fields a xs h; Some (r # rs, h) }"

text \<open>The value of a field, for what the texts are, and the texts that must be there.\<close>

definition copied_value :: "u32 \<Rightarrow> string option \<Rightarrow> jval" where
  "copied_value ty t = JVal ty 0 (Fin 0) t None []"

fun field_value :: "(nat \<Rightarrow> string option) \<Rightarrow> field \<Rightarrow> jval" where
  "field_value tx FNull = plain_value cJSON_NULL 0 (Fin 0)"
| "field_value tx FTrue = plain_value cJSON_True 0 (Fin 0)"
| "field_value tx FFalse = plain_value cJSON_False 0 (Fin 0)"
| "field_value tx (FBool b) = plain_value (if b then cJSON_True else cJSON_False) 0 (Fin 0)"
| "field_value tx (FNumber d) = plain_value cJSON_Number (saturate d) d"
| "field_value tx (FString x) = copied_value cJSON_String (tx x)"
| "field_value tx (FRaw x) = copied_value cJSON_Raw (tx x)"
| "field_value tx FObject = plain_value cJSON_Object 0 (Fin 0)"
| "field_value tx FArray = plain_value cJSON_Array 0 (Fin 0)"

fun field_texts :: "nat \<times> field \<Rightarrow> nat list" where
  "field_texts (s, FString x) = [s, x]"
| "field_texts (s, FRaw x) = [s, x]"
| "field_texts (s, f) = [s]"

lemma field_value_flags:
  "jv_type (field_value tx f) AND cJSON_IsReference = 0" "jv_type (field_value tx f) AND cJSON_StringIsConst = 0"
  "jv_name (field_value tx f) = None"
  by (cases f; simp add: plain_value_def copied_value_def cJSON_NULL_def cJSON_True_def cJSON_False_def cJSON_Number_def
      cJSON_String_def cJSON_Raw_def cJSON_Object_def cJSON_Array_def cJSON_IsReference_def cJSON_StringIsConst_def)+

lemma field_value_cong: "\<forall>b \<in> set (field_texts (s, f)). tx' b = tx b \<Longrightarrow> field_value tx' f = field_value tx f"
  by (cases f) simp_all

lemma field_texts_name: "s \<in> set (field_texts (s, f))"
  by (cases f) simp_all

lemmas add_to_object_defs = cJSON_AddNullToObject_def cJSON_AddTrueToObject_def cJSON_AddFalseToObject_def cJSON_AddBoolToObject_def
  cJSON_AddNumberToObject_def cJSON_AddStringToObject_h_def cJSON_AddRawToObject_def cJSON_AddObjectToObject_def cJSON_AddArrayToObject_def

lemma field_created:
  assumes "heap_ok h" "set (field_texts (s, f)) \<subseteq> dom (texts h)"
  shows "\<exists>x. add_field a (s, f) h = do { r \<leftarrow> x; add_created (Some a) (Some s) r } \<and> created h x (field_value (texts h) f)"
proof -
  have c: "created h (cJSON_CreateString (Some x) h) (copied_value cJSON_String (texts h x))"
      "created h (cJSON_CreateRaw (Some x) h) (copied_value cJSON_Raw (texts h x))" if "x \<in> dom (texts h)" for x
    using that created_items(8,9) [OF assms(1), of x] by (auto simp: copied_value_def)
  show ?thesis
    using assms(2)
    by (cases f; simp only: add_field.simps add_to_object_defs field_value.simps; intro exI conjI; (rule refl)?)
      (auto intro: c created_items(1-3,5-7) [OF assms(1)] simp only: created_items(4) [OF assms(1)] field_texts.simps set_simps)
qed

definition named_value :: "(nat \<Rightarrow> string option) \<Rightarrow> nat \<times> field \<Rightarrow> jval" where
  "named_value tx = (\<lambda>(s, f). with_name (field_value tx f) (the (tx s)))"

lemma named_value_cong: "\<forall>b \<in> set (field_texts x). tx' b = tx b \<Longrightarrow> named_value tx' x = named_value tx x"
  using field_texts_name field_value_cong by (cases x) (fastforce simp: named_value_def)

lemma add_field_holding:
  assumes "holding h a ts fs" "heap_ok h" "set (field_texts (s, f)) \<subseteq> dom (texts h)"
  shows "\<exists>r h'. add_field a (s, f) h = Some (r, h') \<and> (always h \<longrightarrow> r \<noteq> None) \<and> heap_ok h' \<and>
     grants h' = grants h \<and> (\<forall>b \<in> dom (texts h). texts h' b = texts h b) \<and>
     (case r of None \<Rightarrow> same_store h h'
      | Some p \<Rightarrow> \<exists>t. root t = p \<and> holding h' a (ts @ [t]) fs \<and> same_values h h' (ts @ fs) \<and>
          val_at h' t = named_value (texts h) (s, f))"
proof -
  obtain x where x: "add_field a (s, f) h = do { r \<leftarrow> x; add_created (Some a) (Some s) r }" "created h x (field_value (texts h) f)"
    using field_created [OF assms(2,3)] by blast
  have "s \<in> dom (texts h)" using assms(3) field_texts_name by auto
  then have "texts h s = Some (the (texts h s))" by auto
  from add_created_holding [OF assms(1) x(2) assms(2) this field_value_flags(1,3)] show ?thesis
    unfolding x(1) named_value_def case_prod_conv .
qed

lemma holding_same_store: "holding h a ts fs \<Longrightarrow> same_store h h' \<Longrightarrow> holding h' a ts fs \<and> same_values h h' (ts @ fs)"
  using holding_cong [of h a ts fs h'] by (simp add: same_store_def)

lemma add_fields_holding:
  assumes "holding h a ts fs" "heap_ok h" "\<forall>x \<in> set xs. set (field_texts x) \<subseteq> dom (texts h)"
  shows "\<exists>rs us h'. add_fields a xs h = Some (rs, h') \<and> holding h' a (ts @ us) fs \<and> same_values h h' (ts @ fs) \<and> heap_ok h' \<and>
     length rs = length xs \<and> (always h \<longrightarrow> None \<notin> set rs) \<and> map (Some \<circ> root) us = filter (\<lambda>r. r \<noteq> None) rs \<and>
     map (val_at h') us = map (named_value (texts h) \<circ> fst) (filter (\<lambda>(x, r). r \<noteq> None) (zip xs rs)) \<and>
     (\<forall>b \<in> dom (texts h). texts h' b = texts h b)"
  using assms
proof (induction xs arbitrary: h ts)
  case Nil
  then show ?case by (auto simp: same_values_def)
next
  case (Cons x xs)
  obtain s f where x: "x = (s, f)" by (cases x)
  obtain r h1 where r: "add_field a x h = Some (r, h1)" "always h \<Longrightarrow> r \<noteq> None" "heap_ok h1" "grants h1 = grants h"
      "\<forall>b \<in> dom (texts h). texts h1 b = texts h b"
      "case r of None \<Rightarrow> same_store h h1 | Some p \<Rightarrow> \<exists>t. root t = p \<and> holding h1 a (ts @ [t]) fs \<and> same_values h h1 (ts @ fs) \<and>
          val_at h1 t = named_value (texts h) x"
    using add_field_holding [OF Cons.prems(1,2), of s f] Cons.prems(3) unfolding x list.set(2) by blast
  obtain us where us: "holding h1 a (ts @ us) fs" "same_values h h1 (ts @ fs)" "map (Some \<circ> root) us = filter (\<lambda>r. r \<noteq> None) [r]"
      "map (val_at h1) us = map (named_value (texts h) \<circ> fst) (filter (\<lambda>(x, r). r \<noteq> None) [(x, r)])"
  proof (cases r)
    case None
    then show thesis using that [of "[]"] r(6) holding_same_store [OF Cons.prems(1)] by simp
  next
    case (Some p)
    then obtain t where "root t = p" "holding h1 a (ts @ [t]) fs" "same_values h h1 (ts @ fs)" "val_at h1 t = named_value (texts h) x"
      using r(6) by auto
    then show thesis using that [of "[t]"] Some by simp
  qed
  have d: "dom (texts h) \<subseteq> dom (texts h1)" using r(5) by (auto simp: dom_def)
  have rd: "\<forall>y \<in> set xs. set (field_texts y) \<subseteq> dom (texts h1)" using Cons.prems(3) d unfolding list.set(2) by blast
  obtain rs vs h2 where v: "add_fields a xs h1 = Some (rs, h2)" "holding h2 a ((ts @ us) @ vs) fs" "same_values h1 h2 ((ts @ us) @ fs)"
      "heap_ok h2" "length rs = length xs" "always h1 \<Longrightarrow> None \<notin> set rs" "map (Some \<circ> root) vs = filter (\<lambda>r. r \<noteq> None) rs"
      "map (val_at h2) vs = map (named_value (texts h1) \<circ> fst) (filter (\<lambda>(x, r). r \<noteq> None) (zip xs rs))"
      "\<forall>b \<in> dom (texts h1). texts h2 b = texts h1 b"
    using Cons.IH [OF us(1) r(3) rd] by blast
  have nv: "named_value (texts h1) y = named_value (texts h) y" if "y \<in> set xs" for y
    using that Cons.prems(3) r(5) unfolding list.set(2) by (intro named_value_cong) blast
  have "filter (\<lambda>r. r \<noteq> None) (r # rs) = filter (\<lambda>r. r \<noteq> None) [r] @ filter (\<lambda>r. r \<noteq> None) rs" by simp
  then have m: "map (Some \<circ> root) (us @ vs) = filter (\<lambda>r. r \<noteq> None) (r # rs)"
    by (simp only: us(3) v(7) map_append)
  have "map (named_value (texts h1) \<circ> fst) (filter (\<lambda>(x, r). r \<noteq> None) (zip xs rs)) =
      map (named_value (texts h) \<circ> fst) (filter (\<lambda>(x, r). r \<noteq> None) (zip xs rs))"
    using nv by (auto dest: set_zip_leftD)
  moreover have "map (val_at h2) us = map (val_at h1) us" using v(3) by (auto simp: same_values_def)
  moreover have "filter (\<lambda>(x, r). r \<noteq> None) (zip (x # xs) (r # rs)) =
      filter (\<lambda>(x, r). r \<noteq> None) [(x, r)] @ filter (\<lambda>(x, r). r \<noteq> None) (zip xs rs)" by simp
  ultimately have w: "map (val_at h2) (us @ vs) =
      map (named_value (texts h) \<circ> fst) (filter (\<lambda>(x, r). r \<noteq> None) (zip (x # xs) (r # rs)))"
    by (simp only: us(4) v(8) map_append)
  have "same_values h h2 (ts @ fs)" using us(2) v(3) by (auto simp: same_values_def)
  moreover have "\<forall>b \<in> dom (texts h). texts h2 b = texts h b" using r(5) v(9) d by (metis subsetD)
  moreover have "always h \<longrightarrow> None \<notin> set (r # rs)" using r(2,4) v(6) by (auto simp: always_def)
  moreover have "add_fields a (x # xs) h = Some (r # rs, h2)" using r(1) v(1) by simp
  ultimately show ?case
    using m w v(2,4,5) by (intro exI [of _ "r # rs"] exI [of _ "us @ vs"] exI [of _ h2]) (simp only: append_assoc length_Cons simp_thms)
qed

lemma named_value_name: "jv_name (named_value tx x) = Some (the (tx (fst x)))"
  by (cases x) (simp add: named_value_def with_name_def)

text \<open>When no allocation fails, every field is stored, in order.\<close>

lemma fields_stored:
  assumes "holding h a [] fs" "heap_ok h" "always h" "\<forall>x \<in> set xs. set (field_texts x) \<subseteq> dom (texts h)"
  obtains rs us h' where "add_fields a xs h = Some (rs, h')" "holding h' a us fs" "same_values h h' fs" "map (Some \<circ> root) us = rs"
    "map (val_at h') us = map (named_value (texts h)) xs" "\<forall>b \<in> dom (texts h). texts h' b = texts h b"
proof -
  obtain rs us h' where r: "add_fields a xs h = Some (rs, h')" "holding h' a us fs" "same_values h h' fs" "length rs = length xs"
      "None \<notin> set rs" "map (Some \<circ> root) us = filter (\<lambda>r. r \<noteq> None) rs"
      "map (val_at h') us = map (named_value (texts h) \<circ> fst) (filter (\<lambda>(x, r). r \<noteq> None) (zip xs rs))"
      "\<forall>b \<in> dom (texts h). texts h' b = texts h b"
    using add_fields_holding [OF assms(1,2,4)] assms(3) by (auto simp: same_values_def)
  have rs: "map (Some \<circ> root) us = rs" unfolding r(6) using r(5) by (intro filter_True) metis
  have "filter (\<lambda>(x, r). r \<noteq> None) (zip xs rs) = zip xs rs"
  proof (intro filter_True ballI)
    fix p assume "p \<in> set (zip xs rs)"
    then have "snd p \<in> set rs" using set_zip_rightD [of "fst p" "snd p" xs rs] by simp
    then have "snd p \<noteq> None" using r(5) by metis
    then show "case p of (x, r) \<Rightarrow> r \<noteq> None" by (simp add: case_prod_beta)
  qed
  then have "map (val_at h') us = map (named_value (texts h)) (map fst (zip xs rs))" using r(7) by simp
  then have us: "map (val_at h') us = map (named_value (texts h)) xs" using r(4) by simp
  show thesis using that [OF r(1-3) rs us r(8)] .
qed

text \<open>A lookup among items with the names of the fields.\<close>

lemma fields_lookup:
  assumes "holding h' a us fs" "map (val_at h') us = map (named_value tx) xs" "\<forall>b \<in> dom tx. texts h' b = tx b" "s \<in> dom tx"
  shows "cJSON_GetObjectItem_h (Some a) (Some s) h' =
     Some (map_option root (find (\<lambda>t. strcasecmp_eq (the (tx s)) (the (jv_name (val_at h' t)))) us))"
proof -
  have "map (\<lambda>t. jv_name (val_at h' t)) us = map (\<lambda>x. Some (the (tx (fst x)))) xs"
    using arg_cong [OF assms(2), of "map jv_name"] by (simp add: comp_def named_value_name)
  then have "set (map (\<lambda>t. jv_name (val_at h' t)) us) = set (map (\<lambda>x. Some (the (tx (fst x)))) xs)" by (simp only:)
  then have named: "\<forall>t \<in> set us. jv_name (val_at h' t) \<noteq> None" by (auto simp: set_eq_iff)
  have "texts h' s = Some (the (tx s))" using assms(3,4) by auto
  from get_object_item_named [OF assms(1) named this, of False] show ?thesis by (simp add: cJSON_GetObjectItem_h_def)
qed


text \<open>An empty object and the texts of two names and a value.\<close>

definition fields_demo :: jheap where
  "fields_demo = \<lparr>items = [0 \<mapsto> zero_node\<lparr>nd_type := cJSON_Object\<rparr>], texts = [1 \<mapsto> ''user'', 2 \<mapsto> ''al'', 3 \<mapsto> ''age''],
     next_free = 4, grants = (\<lambda>n. True)\<rparr>"


end
