(* ===== verification/CJsonFaults.thy ===== *)
theory CJsonFaults
  imports CJsonNames
begin

text \<open>
  Where the library breaks its own rules about memory: replacing an item under the name the
  replacement has itself, and a reference whose name cannot be copied.
\<close>

text \<open>
  C30: Replacing an item of an object by name reads freed memory when the name passed is the one the
  replacement carries, as a program does that puts back an item it has detached. The replacement's own
  name is freed before the name passed is copied, so the copy reads what was just freed, whatever the
  object is and however the search compares. Adding the same item under its own name copies first and
  succeeds.\<close>

theorem replace_by_own_name:
  assumes "items h r = Some n" "nd_string n = Some s" "\<not> string_is_const n"
  shows "cJSON_ReplaceItemInObject obj (Some s) (Some r) h = None \<and> cJSON_ReplaceItemInObjectCaseSensitive obj (Some s) (Some r) h = None \<and>
     (\<forall>a ts xs t ys. holding h a ts (xs @ t # ys) \<and> root t = r \<and> heap_ok h \<and> always h \<longrightarrow>
        (\<exists>h'. cJSON_AddItemToObject (Some a) (Some s) (Some r) h = Some (True, h') \<and> holding h' a (ts @ [t]) (xs @ ys)))"
proof -
  have "replace_item_in_object obj (Some s) (Some r) cs h = None" for cs
    using assms by (auto simp: replace_item_in_object_def free_text_def cJSON_strdup_def split: option.split)
  moreover have "\<exists>h'. cJSON_AddItemToObject (Some a) (Some s) (Some r) h = Some (True, h') \<and> holding h' a (ts @ [t]) (xs @ ys)"
    if "holding h a ts (xs @ t # ys)" "root t = r" "heap_ok h" "always h" for a ts xs t ys
  proof -
    have "r \<in> set (faddrs (ts @ xs @ t # ys))" using roots_faddrs [of "ts @ xs @ t # ys"] that(2) by auto
    then have "set (own_texts n) \<subseteq> dom (texts h)"
      using that(1) ftexts_own [of r "ts @ xs @ t # ys" "items h" n] assms(1) by (auto simp: holding_def tidy_def owned_def)
    then obtain nm where "texts h s = Some nm" using assms(2,3) by (auto simp: own_texts_def)
    from object_add [OF that(1,3) this] that(2,4) show ?thesis by auto
  qed
  ultimately show ?thesis by (auto simp: cJSON_ReplaceItemInObject_def cJSON_ReplaceItemInObjectCaseSensitive_def)
qed

definition named_demo :: jheap where
  "named_demo = \<lparr>items = [0 \<mapsto> zero_node\<lparr>nd_type := cJSON_Object\<rparr>, 1 \<mapsto> (number_node 7)\<lparr>nd_string := Some 2\<rparr>],
     texts = [2 \<mapsto> ''k''], next_free = 3, grants = (\<lambda>n. True)\<rparr>"

theorem replace_by_own_name_witness:
  "cJSON_ReplaceItemInObject (Some 0) (Some 2) (Some 1) named_demo = None"
proof -
  have "items named_demo 1 = Some ((number_node 7)\<lparr>nd_string := Some 2\<rparr>)" by (simp add: named_demo_def)
  from replace_by_own_name [OF this] show ?thesis
    by (simp add: number_node_def zero_node_def string_is_const_def cJSON_Number_def cJSON_StringIsConst_def)
qed

text \<open>
  Adding a reference to an object loses an item when the name cannot be copied. The reference is
  allocated, the copy of the name is not, and the function returns false with the reference still
  allocated, which is the only change of memory, and no pointer to it is returned. The other functions
  that create and add an item delete it in this case.\<close>

lemma reference_leaks:
  assumes "heap_ok h" "items h i = Some n" "texts h s = Some nm" "items h ob = Some m"
    "grants h (next_free h)" "\<not> grants h (next_free h + 1)"
  shows "\<exists>h' x. cJSON_AddItemReferenceToObject (Some ob) (Some s) (Some i) h = Some (False, h') \<and>
     items h' = (items h)(next_free h \<mapsto> x) \<and> next_free h \<notin> dom (items h) \<and> texts h' = texts h"
proof -
  have ne: "i \<noteq> next_free h" "ob \<noteq> next_free h" "next_free h \<notin> dom (items h)" using assms(1,2,4) by (auto simp: heap_ok_def)
  let ?x = "n\<lparr>nd_string := None, nd_type := nd_type n OR cJSON_IsReference, nd_next := None, nd_prev := None\<rparr>"
  have "create_reference (Some i) h = Some (Some (next_free h), h\<lparr>next_free := next_free h + 1, items := (items h)(next_free h \<mapsto> ?x)\<rparr>)"
    using assms(2,5) ne by (simp add: create_reference_def New_Item_cases upd_def)
  then show ?thesis
    using assms(3,6) ne
    by (simp add: cJSON_AddItemReferenceToObject_def add_item_to_object_def cJSON_strdup_def allocate_def, intro exI) (rule refl)
qed

lemma reference_leaks_witness:
  "\<exists>h' x. cJSON_AddItemReferenceToObject (Some 0) (Some 2) (Some 1) (named_demo\<lparr>grants := \<lambda>k. k \<noteq> 4\<rparr>) = Some (False, h') \<and> items h' 3 = Some x"
proof -
  let ?h = "named_demo\<lparr>grants := \<lambda>k. k \<noteq> 4\<rparr>"
  have h: "heap_ok ?h" "items ?h 1 = Some ((number_node 7)\<lparr>nd_string := Some 2\<rparr>)" "texts ?h 2 = Some ''k''"
      "items ?h 0 = Some (zero_node\<lparr>nd_type := cJSON_Object\<rparr>)" "grants ?h (next_free ?h)" "\<not> grants ?h (next_free ?h + 1)" "next_free ?h = 3"
    by (simp_all add: named_demo_def heap_ok_def)
  show ?thesis using reference_leaks [OF h(1-6)] h(7) by auto
qed

end
