(* ===== verification/CJsonCompare.thy ===== *)
theory CJsonCompare
  imports CJsonNames CJsonRoundtrip
begin

text \<open>
  Reading items and comparing them: the accessors, and \<open>cJSON_Compare\<close> on items in memory, which
  computes a comparison of values.
\<close>

section \<open>Kinds of items\<close>

definition has_kind :: "u32 \<Rightarrow> nat option \<Rightarrow> jheap \<Rightarrow> bool ub" where
  "has_kind ty item h = (case item of None \<Rightarrow> Some False | Some p \<Rightarrow> do { n \<leftarrow> items h p; Some (nd_type n AND 0xFF = ty) })"

definition cJSON_Invalid :: u32 where "cJSON_Invalid = 0"

definition cJSON_IsInvalid :: "nat option \<Rightarrow> jheap \<Rightarrow> bool ub" where "cJSON_IsInvalid = has_kind cJSON_Invalid"
definition cJSON_IsFalse :: "nat option \<Rightarrow> jheap \<Rightarrow> bool ub" where "cJSON_IsFalse = has_kind cJSON_False"
definition cJSON_IsTrue :: "nat option \<Rightarrow> jheap \<Rightarrow> bool ub" where "cJSON_IsTrue = has_kind cJSON_True"
definition cJSON_IsNull :: "nat option \<Rightarrow> jheap \<Rightarrow> bool ub" where "cJSON_IsNull = has_kind cJSON_NULL"
definition cJSON_IsNumber_h :: "nat option \<Rightarrow> jheap \<Rightarrow> bool ub" where "cJSON_IsNumber_h = has_kind cJSON_Number"
definition cJSON_IsString_h :: "nat option \<Rightarrow> jheap \<Rightarrow> bool ub" where "cJSON_IsString_h = has_kind cJSON_String"
definition cJSON_IsArray :: "nat option \<Rightarrow> jheap \<Rightarrow> bool ub" where "cJSON_IsArray = has_kind cJSON_Array"
definition cJSON_IsObject :: "nat option \<Rightarrow> jheap \<Rightarrow> bool ub" where "cJSON_IsObject = has_kind cJSON_Object"
definition cJSON_IsRaw :: "nat option \<Rightarrow> jheap \<Rightarrow> bool ub" where "cJSON_IsRaw = has_kind cJSON_Raw"

definition cJSON_IsBool :: "nat option \<Rightarrow> jheap \<Rightarrow> bool ub" where
  "cJSON_IsBool item h =
     (case item of None \<Rightarrow> Some False | Some p \<Rightarrow> do { n \<leftarrow> items h p; Some (nd_type n AND (cJSON_True OR cJSON_False) \<noteq> 0) })"

definition cJSON_GetStringValue :: "nat option \<Rightarrow> jheap \<Rightarrow> nat option ub" where
  "cJSON_GetStringValue item h =
     do {
       ok \<leftarrow> cJSON_IsString_h item h;
       if \<not> ok then Some None else do { p \<leftarrow> item; n \<leftarrow> items h p; Some (nd_valuestring n) }
     }"

definition cJSON_GetNumberValue :: "nat option \<Rightarrow> jheap \<Rightarrow> double ub" where
  "cJSON_GetNumberValue item h =
     do {
       ok \<leftarrow> cJSON_IsNumber_h item h;
       if \<not> ok then Some NaN else do { p \<leftarrow> item; n \<leftarrow> items h p; Some (nd_valuedouble n) }
     }"

section \<open>The comparison in memory\<close>

definition comparable :: "u32 set" where
  "comparable = {cJSON_False, cJSON_True, cJSON_NULL, cJSON_Number, cJSON_String, cJSON_Raw, cJSON_Array, cJSON_Object}"

text \<open>Items of one kind without children; the same item is equal to itself.\<close>

definition compare_plain :: "cjson_node \<Rightarrow> cjson_node \<Rightarrow> jheap \<Rightarrow> bool ub" where
  "compare_plain na nb h =
     (let ty = nd_type na AND 0xFF in
      if ty \<in> {cJSON_False, cJSON_True, cJSON_NULL} then Some True
      else if ty = cJSON_Number then Some (compare_double (nd_valuedouble na) (nd_valuedouble nb))
      else
        (case (nd_valuestring na, nd_valuestring nb) of
           (Some x, Some y) \<Rightarrow> do { s \<leftarrow> texts h x; t \<leftarrow> texts h y; Some (s = t) }
         | _ \<Rightarrow> Some False))"

definition comparable_items :: "cjson_node \<Rightarrow> cjson_node \<Rightarrow> bool" where
  "comparable_items na nb \<longleftrightarrow> nd_type na AND 0xFF = nd_type nb AND 0xFF \<and> nd_type na AND 0xFF \<in> comparable"

text \<open>
  The two loops over the elements of arrays, and over the members of one object with a lookup in the
  other one, are functions of their own. A circular list has no end, so there is fuel, and \<open>None\<close> is
  also a comparison that needs more.\<close>

function cJSON_Compare :: "nat \<Rightarrow> nat option \<Rightarrow> nat option \<Rightarrow> bool \<Rightarrow> jheap \<Rightarrow> bool ub"
  and compare_elements :: "nat \<Rightarrow> nat option \<Rightarrow> nat option \<Rightarrow> bool \<Rightarrow> jheap \<Rightarrow> bool ub"
  and compare_members :: "nat \<Rightarrow> nat option \<Rightarrow> nat option \<Rightarrow> bool \<Rightarrow> jheap \<Rightarrow> bool ub" where
  "cJSON_Compare 0 a b case_sensitive h = None"
| "cJSON_Compare (Suc k) a b case_sensitive h =
     (case (a, b) of
        (Some p, Some q) \<Rightarrow> do {
          na \<leftarrow> items h p;
          nb \<leftarrow> items h q;
          if \<not> comparable_items na nb then Some False
          else if p = q then Some True
          else if nd_type na AND 0xFF = cJSON_Array then compare_elements k (nd_child na) (nd_child nb) case_sensitive h
          else if nd_type na AND 0xFF \<noteq> cJSON_Object then compare_plain na nb h
          else do {
            ok \<leftarrow> compare_members k (nd_child na) b case_sensitive h;
            if \<not> ok then Some False else compare_members k (nd_child nb) a case_sensitive h
          }
        }
      | _ \<Rightarrow> Some False)"
| "compare_elements 0 a_element b_element case_sensitive h = None"
| "compare_elements (Suc k) a_element b_element case_sensitive h =
     (case (a_element, b_element) of
        (Some p, Some q) \<Rightarrow> do {
          ok \<leftarrow> cJSON_Compare k a_element b_element case_sensitive h;
          if \<not> ok then Some False
          else do { np \<leftarrow> items h p; nq \<leftarrow> items h q; compare_elements k (nd_next np) (nd_next nq) case_sensitive h }
        }
      | _ \<Rightarrow> Some (a_element = b_element))"
| "compare_members 0 a_element b case_sensitive h = None"
| "compare_members (Suc k) a_element b case_sensitive h =
     (case a_element of
        None \<Rightarrow> Some True
      | Some p \<Rightarrow> do {
          np \<leftarrow> items h p;
          b_element \<leftarrow> get_object_item b (nd_string np) case_sensitive h;
          if b_element = None then Some False
          else do {
            ok \<leftarrow> cJSON_Compare k a_element b_element case_sensitive h;
            if \<not> ok then Some False else do { np \<leftarrow> items h p; compare_members k (nd_next np) b case_sensitive h }
          }
        })"
  by pat_completeness auto

termination
  by (relation "measure (\<lambda>x. case x of Inl (k, _) \<Rightarrow> k | Inr (Inl (k, _)) \<Rightarrow> k | Inr (Inr (k, _)) \<Rightarrow> k)") auto

section \<open>The comparison of values\<close>

definition same_name :: "bool \<Rightarrow> jval \<Rightarrow> jval \<Rightarrow> bool" where
  "same_name case_sensitive v w \<longleftrightarrow> (if case_sensitive then (=) else strcasecmp_eq) (the (jv_name v)) (the (jv_name w))"

lemma size_child: "w \<in> set ws \<Longrightarrow> size w < Suc (size_list size ws)"
  by (induction ws) auto

lemma find_size: "find P ws = Some w \<Longrightarrow> size w < Suc (size_list size ws)"
  unfolding find_Some_iff using size_child nth_mem by blast

function (sequential) jv_same :: "bool \<Rightarrow> jval \<Rightarrow> jval \<Rightarrow> bool"
  and jv_elements :: "bool \<Rightarrow> jval list \<Rightarrow> jval list \<Rightarrow> bool"
  and jv_members :: "bool \<Rightarrow> jval list \<Rightarrow> jval list \<Rightarrow> bool" where
  "jv_same cs (JVal ta ia da sa na us) (JVal tb ib db sb nb vs) =
     (let ty = ta AND 0xFF in
      ty = tb AND 0xFF \<and> ty \<in> comparable \<and>
      (ty = cJSON_Number \<longrightarrow> compare_double da db) \<and>
      (ty \<in> {cJSON_String, cJSON_Raw} \<longrightarrow> sa \<noteq> None \<and> sa = sb) \<and>
      (if ty = cJSON_Array then jv_elements cs us vs else True) \<and>
      (if ty = cJSON_Object then jv_members cs us vs \<and> jv_members cs vs us else True))"
| "jv_elements cs (u # us) (v # vs) = (jv_same cs u v \<and> jv_elements cs us vs)"
| "jv_elements cs us vs = (us = [] \<and> vs = [])"
| "jv_members cs [] vs = True"
| "jv_members cs (u # us) vs =
     ((case find (same_name cs u) vs of None \<Rightarrow> False | Some v \<Rightarrow> jv_same cs u v) \<and> jv_members cs us vs)"
  by pat_completeness auto

termination
  by (relation "measure (\<lambda>x. case x of Inl (_, v, w) \<Rightarrow> size v + size w
        | Inr (Inl (_, us, vs)) \<Rightarrow> size_list size us + size_list size vs + 1
        | Inr (Inr (_, us, vs)) \<Rightarrow> size_list size us + size_list size vs + 1)")
    (auto dest!: find_size)

declare jv_same.simps [simp del]

lemma kinds_differ:
  "cJSON_Array \<noteq> cJSON_Number" "cJSON_Array \<noteq> cJSON_String" "cJSON_Array \<noteq> cJSON_Raw" "cJSON_Array \<noteq> cJSON_Object"
  "cJSON_Object \<noteq> cJSON_Number" "cJSON_Object \<noteq> cJSON_String" "cJSON_Object \<noteq> cJSON_Raw" "cJSON_Object \<noteq> cJSON_Array"
  "cJSON_Number \<notin> {cJSON_False, cJSON_True, cJSON_NULL}" "cJSON_String \<notin> {cJSON_False, cJSON_True, cJSON_NULL}"
  "cJSON_Raw \<notin> {cJSON_False, cJSON_True, cJSON_NULL}" "cJSON_String \<noteq> cJSON_Number" "cJSON_Raw \<noteq> cJSON_Number"
  by (simp_all add: cJSON_False_def cJSON_True_def cJSON_NULL_def cJSON_Number_def cJSON_String_def cJSON_Raw_def cJSON_Array_def cJSON_Object_def)

text \<open>The comparison of values on arrays, objects, other kinds and unequal kinds.\<close>

lemma jv_same_cases:
  "ta AND 0xFF \<noteq> tb AND 0xFF \<or> ta AND 0xFF \<notin> comparable \<Longrightarrow> \<not> jv_same cs (JVal ta ia da sa na us) (JVal tb ib db sb nb vs)"
  "ta AND 0xFF = cJSON_Array \<Longrightarrow> tb AND 0xFF = cJSON_Array \<Longrightarrow>
     jv_same cs (JVal ta ia da sa na us) (JVal tb ib db sb nb vs) = jv_elements cs us vs"
  "ta AND 0xFF = cJSON_Object \<Longrightarrow> tb AND 0xFF = cJSON_Object \<Longrightarrow>
     jv_same cs (JVal ta ia da sa na us) (JVal tb ib db sb nb vs) = (jv_members cs us vs \<and> jv_members cs vs us)"
  "ta AND 0xFF = tb AND 0xFF \<Longrightarrow> ta AND 0xFF \<in> comparable \<Longrightarrow> ta AND 0xFF \<noteq> cJSON_Array \<Longrightarrow> ta AND 0xFF \<noteq> cJSON_Object \<Longrightarrow>
     jv_same cs (JVal ta ia da sa na us) (JVal tb ib db sb nb vs) =
       (if ta AND 0xFF \<in> {cJSON_False, cJSON_True, cJSON_NULL} then True
        else if ta AND 0xFF = cJSON_Number then compare_double da db else sa \<noteq> None \<and> sa = sb)"
  using kinds_differ by (auto simp: jv_same.simps Let_def comparable_def)

section \<open>The code computes the comparison of values\<close>

text \<open>Every member of an object has a name.\<close>

fun members_named :: "jval \<Rightarrow> bool" where
  "members_named (JVal ty i d s n us) \<longleftrightarrow>
     (ty AND 0xFF = cJSON_Object \<longrightarrow> (\<forall>u \<in> set us. jv_name u \<noteq> None)) \<and> (\<forall>u \<in> set us. members_named u)"

definition readable :: "jheap \<Rightarrow> ctree list \<Rightarrow> bool" where
  "readable h ts \<longleftrightarrow> bodies (items h) ts \<and> no_references (items h) ts \<and>
     set (ftexts (items h) ts) \<union> set (fshared (items h) ts) \<subseteq> dom (texts h) \<and> (\<forall>t \<in> set ts. members_named (val_at h t))"

lemma vals_map: "vals h ts = map (val_at h) ts"
proof (induction ts)
  case (Cons t ts)
  then show ?case unfolding vals_Cons [of h t ts] by (simp only: list.map)
qed simp

lemma no_references_append [simp]: "no_references m (ts @ us) \<longleftrightarrow> no_references m ts \<and> no_references m us"
  by (induction m ts rule: no_references.induct) auto

lemma readable_Cons: "readable h (t # ts) \<longleftrightarrow> readable h [t] \<and> readable h ts"
proof -
  have "bodies m (t # ts) = (bodies m [t] \<and> bodies m ts)" "no_references m (t # ts) = (no_references m [t] \<and> no_references m ts)"
      "ftexts m (t # ts) = ftexts m [t] @ ftexts m ts" "fshared m (t # ts) = fshared m [t] @ fshared m ts" for m
    by (cases t, simp)+
  then show ?thesis unfolding readable_def by auto
qed

lemma readable_Tree:
  assumes "readable h [Tree p us]"
  obtains n where "items h p = Some n" "\<not> is_reference n" "linked (items h) (nd_child n) (map root us)" "readable h us"
    "val_at h (Tree p us) = JVal (nd_type n) (nd_valueint n) (nd_valuedouble n) (text_at h (nd_valuestring n)) (text_at h (nd_string n)) (vals h us)"
    "\<And>b. nd_valuestring n = Some b \<Longrightarrow> texts h b \<noteq> None" "\<And>b. nd_string n = Some b \<Longrightarrow> texts h b \<noteq> None"
    "nd_type n AND 0xFF = cJSON_Object \<Longrightarrow> \<forall>u \<in> set us. jv_name (val_at h u) \<noteq> None"
proof -
  obtain n where n: "items h p = Some n" "\<not> is_reference n" "linked (items h) (nd_child n) (map root us)"
    using assms by (auto simp: readable_def split: if_splits)
  have v: "val_at h (Tree p us) = JVal (nd_type n) (nd_valueint n) (nd_valuedouble n) (text_at h (nd_valuestring n)) (text_at h (nd_string n)) (vals h us)"
    using n(1) by (simp add: Let_def)
  have tx: "set (own_texts n) \<union> set (shared_texts n) \<subseteq> dom (texts h)" using assms n(1) by (auto simp: readable_def)
  have b: "texts h b \<noteq> None" if "nd_valuestring n = Some b \<or> nd_string n = Some b" for b
  proof -
    have "b \<in> set (own_texts n) \<union> set (shared_texts n)" using that by (auto simp: own_texts_def shared_texts_def)
    then show ?thesis using tx by blast
  qed
  have "members_named (val_at h (Tree p us))" using assms unfolding readable_def by (meson list.set_intros(1))
  then have m: "members_named (JVal (nd_type n) (nd_valueint n) (nd_valuedouble n) (text_at h (nd_valuestring n)) (text_at h (nd_string n)) (vals h us))"
    unfolding v .
  have r: "readable h us" using assms n(1) m by (simp add: readable_def vals_map [of h us])
  have o: "nd_type n AND 0xFF = cJSON_Object \<Longrightarrow> \<forall>u \<in> set us. jv_name (val_at h u) \<noteq> None"
    using m by (simp add: vals_map [of h us])
  show thesis by (rule that [OF n r v]) (use b o in blast)+
qed

lemma find_map: "find P (map f xs) = map_option f (find (\<lambda>x. P (f x)) xs)"
  by (induction xs) auto

lemma root_in_faddrs: "root t \<in> set (faddrs [t])" "0 < length (faddrs [t])"
  by (cases t, simp)+

lemma faddrs_Cons: "faddrs (t # ts) = faddrs [t] @ faddrs ts"
  by (cases t) simp

lemma faddrs_member: "t \<in> set ts \<Longrightarrow> set (faddrs [t]) \<subseteq> set (faddrs ts) \<and> length (faddrs [t]) \<le> length (faddrs ts)"
proof (induction ts)
  case (Cons u ts)
  then show ?case using faddrs_Cons [of u ts] by auto
qed simp

lemma seg_Cons_links:
  assumes "seg (items h) p (map root (t # ts)) None"
  obtains n where "items h (root t) = Some n" "nd_next n = (if ts = [] then None else Some (root (hd ts)))"
    "seg (items h) (root t) (map root ts) None"
  using assms by (auto simp: hd_map)

lemma linked_seg:
  assumes "linked m q (map root ts)"
  shows "q = (if ts = [] then None else Some (root (hd ts)))" "seg m (last (map root ts)) (map root ts) None"
  using assms by (auto simp: linked_def hd_map split: if_splits)

abbreviation first_of :: "ctree list \<Rightarrow> nat option" where
  "first_of ts \<equiv> (if ts = [] then None else Some (root (hd ts)))"

lemma jv_elements_cases:
  "jv_elements cs (map f (u # us)) (map f (v # vs)) = (jv_same cs (f u) (f v) \<and> jv_elements cs (map f us) (map f vs))"
  "us = [] \<or> vs = [] \<Longrightarrow> jv_elements cs (map f us) (map f vs) = (us = [] \<and> vs = [])"
  by (cases us; cases vs; simp)+

lemma compare_plain_value:
  assumes "items h p = Some n" "items h q = Some m" "\<And>b. nd_valuestring n = Some b \<Longrightarrow> texts h b \<noteq> None"
    "\<And>b. nd_valuestring m = Some b \<Longrightarrow> texts h b \<noteq> None" "comparable_items n m"
    "nd_type n AND 0xFF \<noteq> cJSON_Array" "nd_type n AND 0xFF \<noteq> cJSON_Object" "d = nd_valuedouble n" "e = nd_valuedouble m"
  shows "compare_plain n m h = Some (jv_same cs (JVal (nd_type n) i d (text_at h (nd_valuestring n)) s us)
     (JVal (nd_type m) j e (text_at h (nd_valuestring m)) t vs))"
proof -
  obtain x where x: "nd_valuestring n = None \<and> x = None \<or> (\<exists>b. nd_valuestring n = Some b \<and> x = texts h b \<and> x \<noteq> None)"
    using assms(3) by (cases "nd_valuestring n") auto
  obtain y where y: "nd_valuestring m = None \<and> y = None \<or> (\<exists>b. nd_valuestring m = Some b \<and> y = texts h b \<and> y \<noteq> None)"
    using assms(4) by (cases "nd_valuestring m") auto
  have t: "text_at h (nd_valuestring n) = x" "text_at h (nd_valuestring m) = y"
    using x y by (auto simp: text_at_def)
  have c: "(case (nd_valuestring n, nd_valuestring m) of (Some x, Some y) \<Rightarrow> do { s \<leftarrow> texts h x; t \<leftarrow> texts h y; Some (s = t) } | _ \<Rightarrow> Some False)
      = Some (x \<noteq> None \<and> x = y)"
    using x y by auto
  have k: "nd_type n AND 0xFF = nd_type m AND 0xFF" "nd_type n AND 0xFF \<in> comparable"
    using assms(5) unfolding comparable_items_def by blast+
  show ?thesis
    unfolding compare_plain_def Let_def c t jv_same_cases(4) [OF k assms(6,7)] assms(8,9) by simp
qed

lemma readable_append: "readable h (ts @ us) \<longleftrightarrow> readable h ts \<and> readable h us"
proof (induction ts)
  case Nil
  then show ?case by (simp add: readable_def)
next
  case (Cons t ts)
  then show ?case using readable_Cons [of h t "ts @ us"] readable_Cons [of h t ts] by simp
qed

lemma compare_values_fuel:
  shows "readable h [s, t] \<Longrightarrow> set (faddrs [s]) \<inter> set (faddrs [t]) = {} \<Longrightarrow> length (faddrs [s]) + length (faddrs [t]) \<le> k \<Longrightarrow>
      cJSON_Compare k (Some (root s)) (Some (root t)) cs h = Some (jv_same cs (val_at h s) (val_at h t))"
    and "readable h (us @ vs) \<Longrightarrow> set (faddrs us) \<inter> set (faddrs vs) = {} \<Longrightarrow> length (faddrs us) + length (faddrs vs) < k \<Longrightarrow>
      seg (items h) p (map root us) None \<Longrightarrow> seg (items h) q (map root vs) None \<Longrightarrow>
      compare_elements k (first_of us) (first_of vs) cs h = Some (jv_elements cs (vals h us) (vals h vs))"
    and "readable h (us @ [Tree r vs]) \<Longrightarrow> set (faddrs us) \<inter> set (faddrs [Tree r vs]) = {} \<Longrightarrow>
      length (faddrs us) + length (faddrs [Tree r vs]) \<le> k \<Longrightarrow> seg (items h) p (map root us) None \<Longrightarrow>
      \<forall>u \<in> set us. jv_name (val_at h u) \<noteq> None \<Longrightarrow> \<forall>v \<in> set vs. jv_name (val_at h v) \<noteq> None \<Longrightarrow>
      compare_members k (first_of us) (Some r) cs h = Some (jv_members cs (vals h us) (vals h vs))"
proof (induction k arbitrary: s t us vs p q r)
  case 0
  {
    case 1
    then show ?case using root_in_faddrs(2) [of s] by simp
  next
    case 2
    then show ?case by simp
  next
    case 3
    then show ?case by simp
  }
next
  case (Suc k)
  {
    case 1
    obtain p us q vs where st: "s = Tree p us" "t = Tree q vs" by (cases s, cases t)
    have rd: "readable h [Tree p us]" "readable h [Tree q vs]" using "1"(1) readable_Cons [of h s "[t]"] st by simp_all
    obtain n where n: "items h p = Some n" "linked (items h) (nd_child n) (map root us)" "readable h us"
      "val_at h (Tree p us) = JVal (nd_type n) (nd_valueint n) (nd_valuedouble n) (text_at h (nd_valuestring n)) (text_at h (nd_string n)) (vals h us)"
      "\<And>b. nd_valuestring n = Some b \<Longrightarrow> texts h b \<noteq> None"
      "nd_type n AND 0xFF = cJSON_Object \<Longrightarrow> \<forall>u \<in> set us. jv_name (val_at h u) \<noteq> None"
      by (rule readable_Tree [OF rd(1)]) blast
    obtain m where m: "items h q = Some m" "linked (items h) (nd_child m) (map root vs)" "readable h vs"
      "val_at h (Tree q vs) = JVal (nd_type m) (nd_valueint m) (nd_valuedouble m) (text_at h (nd_valuestring m)) (text_at h (nd_string m)) (vals h vs)"
      "\<And>b. nd_valuestring m = Some b \<Longrightarrow> texts h b \<noteq> None"
      "nd_type m AND 0xFF = cJSON_Object \<Longrightarrow> \<forall>u \<in> set vs. jv_name (val_at h u) \<noteq> None"
      by (rule readable_Tree [OF rd(2)]) blast
    have d: "p \<noteq> q" "set (faddrs us) \<inter> set (faddrs vs) = {}" "set (faddrs us) \<inter> set (faddrs [Tree q vs]) = {}"
        "set (faddrs vs) \<inter> set (faddrs [Tree p us]) = {}" "length (faddrs us) + length (faddrs vs) < k"
        "length (faddrs us) + length (faddrs [Tree q vs]) \<le> k" "length (faddrs vs) + length (faddrs [Tree p us]) \<le> k"
      using "1"(2,3) st by auto
    note ln = linked_seg [OF n(2)] and lm = linked_seg [OF m(2)]
    have le: "compare_elements k (nd_child n) (nd_child m) cs h = Some (jv_elements cs (vals h us) (vals h vs))"
      unfolding ln(1) lm(1) by (rule Suc.IH(2) [OF _ d(2) d(5) ln(2) lm(2)]) (use n(3) m(3) readable_append in blast)
    show ?case
    proof (cases "comparable_items n m")
      case False
      then have "\<not> jv_same cs (val_at h (Tree p us)) (val_at h (Tree q vs))"
        unfolding n(4) m(4) by (intro jv_same_cases(1)) (auto simp: comparable_items_def)
      then show ?thesis using False by (simp add: st n(1) m(1))
    next
      case ci: True
      consider "nd_type n AND 0xFF = cJSON_Array" | "nd_type n AND 0xFF = cJSON_Object"
        | "nd_type n AND 0xFF \<noteq> cJSON_Array" "nd_type n AND 0xFF \<noteq> cJSON_Object" by blast
      then show ?thesis
      proof cases
        case 1
        then have tm: "nd_type m AND 0xFF = cJSON_Array" using ci by (simp add: comparable_items_def)
        show ?thesis unfolding st n(4) m(4) jv_same_cases(2) [OF 1 tm] using ci d(1) 1 le by (simp add: n(1) m(1))
      next
        case 2
        then have tm: "nd_type m AND 0xFF = cJSON_Object" using ci by (simp add: comparable_items_def)
        have "compare_members k (nd_child n) (Some q) cs h = Some (jv_members cs (vals h us) (vals h vs))"
          unfolding ln(1) by (rule Suc.IH(3) [OF _ d(3,6) ln(2)]) (use n(3,6) m(6) rd(2) 2 tm readable_append in auto)
        moreover have "compare_members k (nd_child m) (Some p) cs h = Some (jv_members cs (vals h vs) (vals h us))"
          unfolding lm(1) by (rule Suc.IH(3) [OF _ d(4,7) lm(2)]) (use m(3,6) n(6) rd(1) 2 tm readable_append in auto)
        ultimately show ?thesis
          unfolding st n(4) m(4) jv_same_cases(3) [OF 2 tm] using ci d(1) 2 kinds_differ(8) by (simp add: n(1) m(1))
      next
        case 3
        then show ?thesis
          unfolding st n(4) m(4) using compare_plain_value [OF n(1) m(1) n(5) m(5) ci 3 refl refl] ci d(1) n(1) m(1) by simp
      qed
    qed
  next
    case 2
    show ?case
    proof (cases "us = [] \<or> vs = []")
      case True
      then show ?thesis unfolding vals_map [of h us] vals_map [of h vs] jv_elements_cases(2) [OF True] by (auto split: option.split)
    next
      case False
      then obtain u us' v vs' where uv: "us = u # us'" "vs = v # vs'" by (meson list.exhaust)
      obtain n where n: "items h (root u) = Some n" "nd_next n = first_of us'" "seg (items h) (root u) (map root us') None"
        by (rule seg_Cons_links [OF "2"(4) [unfolded uv]]) blast
      obtain m where m: "items h (root v) = Some m" "nd_next m = first_of vs'" "seg (items h) (root v) (map root vs') None"
        by (rule seg_Cons_links [OF "2"(5) [unfolded uv]]) blast
      have rd: "readable h [u, v]" "readable h (us' @ vs')"
        using "2"(1) unfolding uv readable_append readable_Cons [of h u us'] readable_Cons [of h v vs'] readable_Cons [of h u "[v]"] by blast+
      have d: "set (faddrs [u]) \<inter> set (faddrs [v]) = {}" "set (faddrs us') \<inter> set (faddrs vs') = {}"
          "length (faddrs [u]) + length (faddrs [v]) \<le> k" "length (faddrs us') + length (faddrs vs') < k"
        using "2"(2,3) root_in_faddrs(2) [of u] root_in_faddrs(2) [of v]
        unfolding uv faddrs_Cons [of u us'] faddrs_Cons [of v vs'] set_append length_append by (blast, blast, linarith+)
      have c: "cJSON_Compare k (Some (root u)) (Some (root v)) cs h = Some (jv_same cs (val_at h u) (val_at h v))"
        using Suc.IH(1) [OF rd(1) d(1,3)] .
      have e: "compare_elements k (first_of us') (first_of vs') cs h = Some (jv_elements cs (vals h us') (vals h vs'))"
        using Suc.IH(2) [OF rd(2) d(2,4) n(3) m(3)] .
      show ?thesis
        unfolding uv vals_map [of h "u # us'"] vals_map [of h "v # vs'"] jv_elements_cases(1)
        using c e n(1,2) m(1,2) by (simp add: vals_map [symmetric])
    qed
  next
    case 3
    show ?case
    proof (cases us)
      case Nil
      then show ?thesis by simp
    next
      case (Cons u us')
      obtain n where n: "items h (root u) = Some n" "nd_next n = first_of us'" "seg (items h) (root u) (map root us') None"
        by (rule seg_Cons_links [OF "3"(4) [unfolded Cons]]) blast
      have rd: "readable h [u]" "readable h (us' @ [Tree r vs])" "readable h [Tree r vs]"
        using "3"(1) unfolding Cons readable_append readable_Cons [of h u us'] by blast+
      obtain m where m: "items h r = Some m" "linked (items h) (nd_child m) (map root vs)" "readable h vs"
        by (rule readable_Tree [OF rd(3)]) blast
      have d: "set (faddrs us') \<inter> set (faddrs [Tree r vs]) = {}" "length (faddrs us') + length (faddrs [Tree r vs]) \<le> k"
        using "3"(2,3) root_in_faddrs(2) [of u] unfolding Cons faddrs_Cons [of u us'] set_append length_append by (blast, linarith)
      obtain b nm where b: "nd_string n = Some b" "texts h b = Some nm" "jv_name (val_at h u) = Some nm"
        using "3"(5) val_at_name [OF n(1)] Cons by (auto simp: text_at_def split: option.splits)
      let ?P = "\<lambda>t. (if cs then (=) else strcasecmp_eq) nm (the (jv_name (val_at h t)))"
      have P: "same_name cs (val_at h u) (val_at h t) = ?P t" for t using b(3) by (simp add: same_name_def)
      have g: "get_object_item (Some r) (nd_string n) cs h = Some (map_option root (find ?P vs))"
        unfolding b(1) by (rule get_object_item_linked [OF m(1,2) "3"(6) b(2)])
      have f: "find (same_name cs (val_at h u)) (vals h vs) = map_option (val_at h) (find ?P vs)"
        unfolding vals_map [of h vs] find_map P ..
      have e: "compare_members k (first_of us') (Some r) cs h = Some (jv_members cs (vals h us') (vals h vs))"
        by (rule Suc.IH(3) [OF rd(2) d n(3) _ "3"(6)]) (use "3"(5) Cons in simp)
      show ?thesis
      proof (cases "find ?P vs")
        case None
        then show ?thesis unfolding Cons vals_Cons [of h u us'] jv_members.simps f using n(1) g by simp
      next
        case (Some v)
        then have v: "v \<in> set vs" by (auto simp: find_Some_iff)
        have "cJSON_Compare k (Some (root u)) (Some (root v)) cs h = Some (jv_same cs (val_at h u) (val_at h v))"
        proof (rule Suc.IH(1))
          show "readable h [u, v]" using rd(1) m(3) v readable_Cons [of h u "[v]"] split_list [OF v] readable_append readable_Cons by metis
          show "set (faddrs [u]) \<inter> set (faddrs [v]) = {}" "length (faddrs [u]) + length (faddrs [v]) \<le> k"
            using "3"(2,3) faddrs_member [OF v] unfolding Cons faddrs_Cons [of u us'] by auto
        qed
        then show ?thesis
          unfolding Cons vals_Cons [of h u us'] jv_members.simps f using n(1,2) g e Some by simp
      qed
    qed
  }
qed

section \<open>What the comparison means\<close>

lemma round_double_minus: "round_double (- q) = (case round_double q of Fin v \<Rightarrow> Fin (- v) | Inf neg \<Rightarrow> Inf (\<not> neg) | NaN \<Rightarrow> NaN)"
  by (auto simp: round_double_def Let_def)

lemma compare_double_sym: "compare_double a b = compare_double b a"
proof (cases a; cases b)
  fix x y assume ab: "a = Fin x" "b = Fin y"
  have "round_double (y - x) = (case round_double (x - y) of Fin v \<Rightarrow> Fin (- v) | Inf neg \<Rightarrow> Inf (\<not> neg) | NaN \<Rightarrow> NaN)"
    using round_double_minus [of "x - y"] by simp
  then show ?thesis using ab by (auto simp: compare_double_def max.commute [of "\<bar>y\<bar>"] split: double.split)
qed (auto simp: compare_double_def)

lemma jv_elements_Nil: "jv_elements cs vs [] = (vs = [])"
  by (cases vs) simp_all

lemma jv_same_sym:
  "jv_same cs v w = jv_same cs w v" "jv_elements cs us vs = jv_elements cs vs us" "True \<or> jv_members cs us vs"
proof (induction cs v w and cs us vs and cs us vs rule: jv_same_jv_elements_jv_members.induct)
  case (1 cs ta ia da sa na us tb ib db sb nb vs)
  then show ?case using compare_double_sym [of da db] by (auto simp: jv_same.simps Let_def)
qed (simp_all add: jv_elements_Nil)

text \<open>
  A value that is equal to itself: of a known kind, a number that \<open>compare_double\<close> takes for itself (no
  NaN, not infinite), a string with a text, an object whose members have different names.\<close>

definition name_key :: "bool \<Rightarrow> jval \<Rightarrow> string" where
  "name_key case_sensitive v = (if case_sensitive then the (jv_name v) else map tolower (the (jv_name v)))"

fun proper :: "bool \<Rightarrow> jval \<Rightarrow> bool" where
  "proper cs (JVal ty i d s n us) \<longleftrightarrow>
     ty AND 0xFF \<in> comparable \<and>
     (ty AND 0xFF = cJSON_Number \<longrightarrow> compare_double d d) \<and>
     (ty AND 0xFF \<in> {cJSON_String, cJSON_Raw} \<longrightarrow> s \<noteq> None) \<and>
     (ty AND 0xFF = cJSON_Object \<longrightarrow> distinct (map (name_key cs) us)) \<and>
     (\<forall>u \<in> set us. proper cs u)"

lemma same_name_key: "same_name cs u v \<longleftrightarrow> name_key cs u = name_key cs v"
  by (simp add: same_name_def name_key_def strcasecmp_eq_def)

lemma find_same_name: "distinct (map (name_key cs) us) \<Longrightarrow> u \<in> set us \<Longrightarrow> find (same_name cs u) us = Some u"
  by (induction us) (auto simp: same_name_key image_iff)

lemma jv_members_all: "\<forall>u \<in> set us. find (same_name cs u) vs = Some u \<and> jv_same cs u u \<Longrightarrow> jv_members cs us vs"
  by (induction us) auto

lemma jv_elements_refl: "\<forall>u \<in> set us. jv_same cs u u \<Longrightarrow> jv_elements cs us us"
  by (induction us) auto

lemma proper_same: "proper cs v \<Longrightarrow> jv_same cs v v"
proof (induction cs v rule: proper.induct)
  case (1 cs ty i d s n us)
  have e: "\<forall>u \<in> set us. jv_same cs u u" using 1 by auto
  consider "ty AND 0xFF = cJSON_Array" | "ty AND 0xFF = cJSON_Object" | "ty AND 0xFF \<noteq> cJSON_Array" "ty AND 0xFF \<noteq> cJSON_Object" by blast
  then show ?case
  proof cases
    case 1
    then show ?thesis unfolding jv_same_cases(2) [OF 1 1] using jv_elements_refl [OF e] by simp
  next
    case 2
    have "distinct (map (name_key cs) us)" using "1.prems" 2 by simp
    then have "jv_members cs us us" using e find_same_name by (intro jv_members_all) blast
    then show ?thesis unfolding jv_same_cases(3) [OF 2 2] by simp
  next
    case 3
    have c: "ty AND 0xFF \<in> comparable" using "1.prems" by simp
    then show ?thesis unfolding jv_same_cases(4) [OF refl c 3] using "1.prems" 3 by (auto simp: comparable_def)
  qed
qed

text \<open>
  Comparing two items in memory computes a comparison of their values. The items are well formed,
  without references, share no item, their strings can be read and the members of objects have names.
  With fuel for one step per item the comparison ends without undefined behaviour, and says what
  \<open>jv_same\<close> says of the two values: equal kinds, numbers equal up to rounding, equal texts, arrays
  element by element, objects by looking up every member of each in the other. It does not depend on
  which item comes first.\<close>

lemma compare_values:
  assumes "readable h [s, t]" "set (faddrs [s]) \<inter> set (faddrs [t]) = {}" "length (faddrs [s]) + length (faddrs [t]) \<le> fuel"
  shows "cJSON_Compare fuel (Some (root s)) (Some (root t)) cs h = Some (jv_same cs (val_at h s) (val_at h t)) \<and>
     cJSON_Compare fuel (Some (root t)) (Some (root s)) cs h = cJSON_Compare fuel (Some (root s)) (Some (root t)) cs h"
proof -
  have "readable h [t, s]" using assms(1) readable_Cons [of h s "[t]"] readable_Cons [of h t "[s]"] by blast
  moreover have "set (faddrs [t]) \<inter> set (faddrs [s]) = {}" "length (faddrs [t]) + length (faddrs [s]) \<le> fuel" using assms(2,3) by auto
  ultimately show ?thesis
    using compare_values_fuel(1) [OF assms] compare_values_fuel(1) [of h t s fuel cs] jv_same_sym(1) [of cs "val_at h t" "val_at h s"] by simp
qed

definition compare_demo :: jheap where
  "compare_demo = \<lparr>items = [0 \<mapsto> number_node 7, 1 \<mapsto> number_node 8], texts = Map.empty, next_free = 2, grants = (\<lambda>n. True)\<rparr>"

lemma compare_values_witness:
  "cJSON_Compare 2 (Some 0) (Some 1) False compare_demo =
     Some (jv_same False (val_at compare_demo (Tree 0 [])) (val_at compare_demo (Tree 1 [])))"
proof -
  have "readable compare_demo [Tree 0 [], Tree 1 []]"
    by (simp add: readable_def compare_demo_def number_node_def zero_node_def is_reference_def own_texts_def shared_texts_def
        cJSON_Number_def cJSON_IsReference_def Let_def cJSON_Object_def)
  from compare_values [OF this, of 2 False] show ?thesis by simp
qed

section \<open>Copies\<close>

text \<open>Trees with the same values have the same shape and no references when one has none.\<close>

lemma same_vals_shape:
  assumes "vals h' ts = vals h ss" "no_references (items h) ss" "set (faddrs ts) \<subseteq> dom (items h')"
  shows "length (faddrs ts) = length (faddrs ss) \<and> no_references (items h') ts"
  using assms
proof (induction ts arbitrary: ss rule: faddrs.induct)
  case 1
  then show ?case by (cases ss; cases "hd ss") (auto simp: Let_def)
next
  case (2 p us ts)
  then obtain q vs ss' where ss: "ss = Tree q vs # ss'" by (cases ss; cases "hd ss") (auto simp: Let_def)
  obtain n where n: "items h' p = Some n" using "2.prems"(3) by auto
  obtain m where m: "items h q = Some m" "\<not> is_reference m" using "2.prems"(2) ss by auto
  have e: "nd_type n = nd_type m" "vals h' us = vals h vs" "vals h' ts = vals h ss'"
    using "2.prems"(1) ss n m(1) by (simp_all add: Let_def)
  have "\<not> is_reference n" using m(2) e(1) by (simp add: is_reference_def)
  then show ?case using "2.IH"(1) [OF e(2)] "2.IH"(2) [OF e(3)] "2.prems"(2,3) ss n by simp
qed

text \<open>The copy as a tree of its own next to the original.\<close>

lemma copy_beside:
  assumes "heap_ok h" "readable h [s]" "always h" "levels (subs s) \<le> CJSON_CIRCULAR_LIMIT" "2 * length (faddrs [s]) \<le> fuel"
  obtains t h' where "cJSON_Duplicate fuel (Some (root s)) True h = Some (Some (root t), h')" "readable h' [s, t]"
    "set (faddrs [s]) \<inter> set (faddrs [t]) = {}" "length (faddrs [t]) = length (faddrs [s])"
    "val_at h' s = val_at h s" "val_at h' t = val_at h s"
proof -
  let ?K = "set (fshared (items h) [s])"
  have s: "bodies (items h) [s]" "no_references (items h) [s]" "set (ftexts (items h) [s]) \<union> ?K \<subseteq> dom (texts h)"
      "\<forall>x \<in> set [s]. members_named (val_at h x)"
    using assms(2) unfolding readable_def by blast+
  obtain res h' where d: "cJSON_Duplicate fuel (Some (root s)) True h = Some (res, h')" "copied ?K h h' res (val_at h s)"
      "always h \<and> levels (subs s) \<le> CJSON_CIRCULAR_LIMIT \<longrightarrow> res \<noteq> None"
    using duplicate_copied [OF assms(1) s(1,2,3) assms(5)] by blast
  then obtain t where t: "res = Some (root t)" "built ?K h h' t (val_at h s)"
    using assms(3,4) by (cases res) (auto simp: copied_def)
  have a: "added ?K h h' [t]" and b: "bodies (items h') [t]" "vals h' [t] = [val_at h s]" using t(2) by (simp_all add: built_def)
  have dom: "set (faddrs [s]) \<subseteq> dom (items h)" using bodies_dom [OF s(1)] .
  have k: "ftexts (items h') [s] = ftexts (items h) [s]" "fshared (items h') [s] = fshared (items h) [s]" "vals h' [s] = vals h [s]"
      "bodies (items h') [s] = bodies (items h) [s]"
    using added_keeps_trees [OF a dom] s(3) by blast+
  have n: "no_references (items h') [s] = no_references (items h) [s]"
    using dom by (intro no_references_cong added_keeps(1) [OF a]) blast
  have "set (ftexts (items h') [s]) \<union> set (fshared (items h') [s]) \<subseteq> dom (texts h')"
    unfolding k(1,2) using s(3) added_doms [OF a] by blast
  then have rs: "readable h' [s]" using s(1,2,4) k(3,4) n unfolding readable_def by simp
  have vt: "val_at h' t = val_at h s" "val_at h' s = val_at h s" using b(2) k(3) by simp_all
  have "vals h' [t] = vals h [s]" using b(2) by (cases s) (simp add: Let_def)
  note sh = same_vals_shape [OF this s(2) added_own(1) [OF a]]
  have "readable h' [t]"
    using sh b(1) added_own(2,3) [OF a] s(4) unfolding readable_def by (simp add: vt)
  then have r: "readable h' [s, t]" using rs readable_Cons [of h' s "[t]"] by blast
  have "x \<notin> set (faddrs [t])" if "x \<in> dom (items h)" for x
    using a heap_ok_dom(1) [OF assms(1) that] unfolding added_def by (meson UnI1 atLeastLessThan_iff not_le subsetD)
  then have "set (faddrs [s]) \<inter> set (faddrs [t]) = {}" using dom by blast
  then show thesis using that [of t h'] d(1) t(1) r sh vt by simp
qed



end
