(* ===== verification/CJsonMemory.thy ===== *)
theory CJsonMemory
  imports CJsonCopy CJsonTotal
begin

text \<open>
  The parser of the JSON library at work in memory: the items and strings it allocates while it reads,
  and what it frees again when the text is no JSON or an allocation fails. The theory shows that it
  computes what the parser on values computes, and that a parse that fails leaves the memory as it was.
\<close>

section \<open>The parser in memory\<close>

text \<open>
  The result is the one of theory \<open>CJson\<close> without the value, which is now in the item, and the new
  memory. The temporary copy of a number and the output of a string are blocks like other texts.\<close>

definition parse_number_h :: "string \<Rightarrow> nat \<Rightarrow> nat \<Rightarrow> jheap \<Rightarrow> (unit presult \<times> jheap) ub" where
  "parse_number_h c item off h =
     (let s = takeWhile is_number_char (drop off c) in
      case allocate h of
        (None, h) \<Rightarrow> Some (Failed off, h)
      | (Some a, h) \<Rightarrow>
          let h = h\<lparr>texts := (texts h)(a \<mapsto> s)\<rparr> in
          (case strtod s of
             None \<Rightarrow> do { h \<leftarrow> free_text a h; Some (Failed off, h) }
           | Some (number, after_end) \<Rightarrow> do {
               h \<leftarrow> upd item (\<lambda>n. n\<lparr>nd_valuedouble := number, nd_valueint := saturate number, nd_type := cJSON_Number\<rparr>) h;
               h \<leftarrow> free_text a h;
               Some (Parsed () (off + (length s - length after_end)), h)
             }))"

definition parse_string_h :: "string \<Rightarrow> nat \<Rightarrow> nat \<Rightarrow> jheap \<Rightarrow> (unit presult \<times> jheap) ub" where
  "parse_string_h c item off h =
     (if char_at c off \<noteq> Some (CHR 0x22) then Some (Failed (off + 1), h)
      else let body = drop (off + 1) c in
      case string_end body of
        None \<Rightarrow> Some (Failed (off + 1), h)
      | Some n \<Rightarrow>
          (case allocate h of
             (None, h) \<Rightarrow> Some (Failed (off + 1), h)
           | (Some a, h) \<Rightarrow>
               let h = h\<lparr>texts := (texts h)(a \<mapsto> [])\<rparr> in
               (case unescape (take n body) of
                  Inl k \<Rightarrow> do { h \<leftarrow> free_text a h; Some (Failed (off + 1 + k), h) }
                | Inr out \<Rightarrow> do {
                    h \<leftarrow> upd item (\<lambda>n. n\<lparr>nd_type := cJSON_String, nd_valuestring := Some a\<rparr>) (h\<lparr>texts := (texts h)(a \<mapsto> cstr out)\<rparr>);
                    Some (Parsed () (off + n + 2), h)
                  })))"

text \<open>
  The label \<open>fail\<close> of \<open>parse_array\<close> and \<open>parse_object\<close>, and their allocation of the next item: it is
  linked behind \<open>current_item\<close>, or it is the head.\<close>

definition parse_fail :: "nat option \<Rightarrow> nat \<Rightarrow> jheap \<Rightarrow> ('a presult \<times> jheap) ub" where
  "parse_fail head off h = do { h \<leftarrow> cJSON_Delete head h; Some (Failed off, h) }"

definition attach :: "nat option \<Rightarrow> nat \<Rightarrow> jheap \<Rightarrow> jheap ub" where
  "attach current_item new_item h =
     (case current_item of None \<Rightarrow> Some h | Some l \<Rightarrow> suffix_object l new_item h)"

definition head_of :: "nat option \<Rightarrow> nat \<Rightarrow> nat" where
  "head_of head new_item = (case head of None \<Rightarrow> new_item | Some x \<Rightarrow> x)"

definition close_list :: "u32 \<Rightarrow> nat \<Rightarrow> (nat \<times> nat) option \<Rightarrow> jheap \<Rightarrow> jheap ub" where
  "close_list ty item ends h =
     (case ends of
        None \<Rightarrow> upd item (\<lambda>n. n\<lparr>nd_type := ty, nd_child := None\<rparr>) h
      | Some (head, current_item) \<Rightarrow> do {
          h \<leftarrow> upd head (\<lambda>n. n\<lparr>nd_prev := Some current_item\<rparr>) h;
          upd item (\<lambda>n. n\<lparr>nd_type := ty, nd_child := Some head\<rparr>) h
        })"

text \<open>A value into \<open>item\<close>; the loops over elements and members return the head and the last item.\<close>

function parse_value_h :: "nat \<Rightarrow> string \<Rightarrow> nat \<Rightarrow> nat \<Rightarrow> nat \<Rightarrow> jheap \<Rightarrow> (unit presult \<times> jheap) ub"
  and parse_elements_h :: "nat \<Rightarrow> string \<Rightarrow> nat \<Rightarrow> nat \<Rightarrow> nat option \<Rightarrow> nat option \<Rightarrow> jheap \<Rightarrow> ((nat \<times> nat) presult \<times> jheap) ub"
  and parse_members_h :: "nat \<Rightarrow> string \<Rightarrow> nat \<Rightarrow> nat \<Rightarrow> nat option \<Rightarrow> nat option \<Rightarrow> jheap \<Rightarrow> ((nat \<times> nat) presult \<times> jheap) ub" where
  "parse_value_h 0 c depth item off h = Some (NoFuel, h)"
| "parse_value_h (Suc n) c depth item off h =
     (if starts c off ''null'' then do { h \<leftarrow> upd item (\<lambda>n. n\<lparr>nd_type := cJSON_NULL\<rparr>) h; Some (Parsed () (off + 4), h) }
      else if starts c off ''false'' then do { h \<leftarrow> upd item (\<lambda>n. n\<lparr>nd_type := cJSON_False\<rparr>) h; Some (Parsed () (off + 5), h) }
      else if starts c off ''true'' then
        do { h \<leftarrow> upd item (\<lambda>n. n\<lparr>nd_type := cJSON_True, nd_valueint := 1\<rparr>) h; Some (Parsed () (off + 4), h) }
      else if char_at c off = Some (CHR 0x22) then parse_string_h c item off h
      else if (case char_at c off of None \<Rightarrow> False | Some x \<Rightarrow> x = CHR ''-'' \<or> isdigit x) then parse_number_h c item off h
      else if char_at c off = Some (CHR ''['') then
        (if depth \<ge> CJSON_NESTING_LIMIT then Some (Failed off, h)
         else let o1 = buffer_skip_whitespace c (off + 1) in
           if char_at c o1 = Some (CHR '']'') then do { h \<leftarrow> close_list cJSON_Array item None h; Some (Parsed () (o1 + 1), h) }
           else if char_at c o1 = None then Some (Failed (o1 - 1), h)
           else do {
             (r, h) \<leftarrow> parse_elements_h n c (depth + 1) (o1 - 1) None None h;
             case r of
               Parsed ends o' \<Rightarrow> do { h \<leftarrow> close_list cJSON_Array item (Some ends) h; Some (Parsed () (o' + 1), h) }
             | Failed o' \<Rightarrow> Some (Failed o', h) | NoFuel \<Rightarrow> Some (NoFuel, h)
           })
      else if char_at c off = Some (CHR 0x7B) then
        (if depth \<ge> CJSON_NESTING_LIMIT then Some (Failed off, h)
         else let o1 = buffer_skip_whitespace c (off + 1) in
           if char_at c o1 = Some (CHR 0x7D) then do { h \<leftarrow> close_list cJSON_Object item None h; Some (Parsed () (o1 + 1), h) }
           else if char_at c o1 = None then Some (Failed (o1 - 1), h)
           else do {
             (r, h) \<leftarrow> parse_members_h n c (depth + 1) (o1 - 1) None None h;
             case r of
               Parsed ends o' \<Rightarrow> do { h \<leftarrow> close_list cJSON_Object item (Some ends) h; Some (Parsed () (o' + 1), h) }
             | Failed o' \<Rightarrow> Some (Failed o', h) | NoFuel \<Rightarrow> Some (NoFuel, h)
           })
      else Some (Failed off, h))"
| "parse_elements_h 0 c depth pos head current_item h = Some (NoFuel, h)"
| "parse_elements_h (Suc n) c depth pos head current_item h =
     (case cJSON_New_Item h of
        (None, h) \<Rightarrow> parse_fail head pos h
      | (Some new_item, h) \<Rightarrow> do {
          h \<leftarrow> attach current_item new_item h;
          let first = head_of head new_item in do {
            (r, h) \<leftarrow> parse_value_h n c depth new_item (buffer_skip_whitespace c (pos + 1)) h;
            case r of
              Parsed _ o1 \<Rightarrow>
                let o2 = buffer_skip_whitespace c o1 in
                if char_at c o2 = Some (CHR '','') then parse_elements_h n c depth o2 (Some first) (Some new_item) h
                else if char_at c o2 = Some (CHR '']'') then Some (Parsed (first, new_item) o2, h)
                else parse_fail (Some first) o2 h
            | Failed o1 \<Rightarrow> parse_fail (Some first) o1 h
            | NoFuel \<Rightarrow> Some (NoFuel, h)
          }
        })"
| "parse_members_h 0 c depth pos head current_item h = Some (NoFuel, h)"
| "parse_members_h (Suc n) c depth pos head current_item h =
     (case cJSON_New_Item h of
        (None, h) \<Rightarrow> parse_fail head pos h
      | (Some new_item, h) \<Rightarrow> do {
          h \<leftarrow> attach current_item new_item h;
          let first = head_of head new_item in
          if char_at c (pos + 1) = None then parse_fail (Some first) pos h
          else do {
            (r, h) \<leftarrow> parse_string_h c new_item (buffer_skip_whitespace c (pos + 1)) h;
            case r of
              Parsed _ o1 \<Rightarrow>
                let o2 = buffer_skip_whitespace c o1 in do {
                  h \<leftarrow> upd new_item (\<lambda>n. n\<lparr>nd_string := nd_valuestring n, nd_valuestring := None\<rparr>) h;
                  if char_at c o2 \<noteq> Some (CHR '':'') then parse_fail (Some first) o2 h
                  else do {
                    (r, h) \<leftarrow> parse_value_h n c depth new_item (buffer_skip_whitespace c (o2 + 1)) h;
                    case r of
                      Parsed _ o3 \<Rightarrow>
                        let o4 = buffer_skip_whitespace c o3 in
                        if char_at c o4 = Some (CHR '','') then parse_members_h n c depth o4 (Some first) (Some new_item) h
                        else if char_at c o4 = Some (CHR 0x7D) then Some (Parsed (first, new_item) o4, h)
                        else parse_fail (Some first) o4 h
                    | Failed o3 \<Rightarrow> parse_fail (Some first) o3 h
                    | NoFuel \<Rightarrow> Some (NoFuel, h)
                  }
                }
            | Failed o1 \<Rightarrow> parse_fail (Some first) o1 h
            | NoFuel \<Rightarrow> Some (NoFuel, h)
          }
        })"
  by pat_completeness auto

termination
  by (relation "measure (\<lambda>x. case x of Inl (n, _) \<Rightarrow> n | Inr (Inl (n, _)) \<Rightarrow> n | Inr (Inr (n, _)) \<Rightarrow> n)") auto

text \<open>The result of a parse is the address of the item.\<close>

definition cJSON_ParseWithLengthOpts_h :: "string \<Rightarrow> bool \<Rightarrow> jheap \<Rightarrow> (nat presult \<times> jheap) ub" where
  "cJSON_ParseWithLengthOpts_h c require_null_terminated h =
     (if c = [] then Some (Failed 0, h)
      else case cJSON_New_Item h of
        (None, h) \<Rightarrow> Some (Failed 0, h)
      | (Some item, h) \<Rightarrow> do {
          (r, h) \<leftarrow> parse_value_h (parse_fuel c) c 0 item (buffer_skip_whitespace c (skip_utf8_bom c)) h;
          case r of
            Parsed _ off \<Rightarrow>
              if require_null_terminated then
                let off = buffer_skip_whitespace c off in
                if char_at c off \<noteq> Some (CHR 0x00) then parse_fail (Some item) (min off (length c - 1)) h
                else Some (Parsed item off, h)
              else Some (Parsed item off, h)
          | Failed off \<Rightarrow> parse_fail (Some item) (min off (length c - 1)) h
          | NoFuel \<Rightarrow> Some (NoFuel, h)
        })"

definition cJSON_ParseWithOpts_h :: "string \<Rightarrow> bool \<Rightarrow> jheap \<Rightarrow> (nat presult \<times> jheap) ub" where
  "cJSON_ParseWithOpts_h value require_null_terminated =
     cJSON_ParseWithLengthOpts_h (cstr value @ [CHR 0x00]) require_null_terminated"

definition cJSON_Parse_h :: "string \<Rightarrow> jheap \<Rightarrow> (nat option \<times> jheap) ub" where
  "cJSON_Parse_h value h =
     do {
       (r, h) \<leftarrow> cJSON_ParseWithOpts_h value False h;
       Some (case r of Parsed item _ \<Rightarrow> Some item | _ \<Rightarrow> None, h)
     }"

section \<open>The value of an item\<close>

text \<open>The contents that an item of the given name has in memory.\<close>

fun jval_of :: "string option \<Rightarrow> cjson \<Rightarrow> jval" where
  "jval_of nm CInvalid = JVal 0 0 (Fin 0) None nm []"
| "jval_of nm CNull = JVal cJSON_NULL 0 (Fin 0) None nm []"
| "jval_of nm CFalse = JVal cJSON_False 0 (Fin 0) None nm []"
| "jval_of nm CTrue = JVal cJSON_True 1 (Fin 0) None nm []"
| "jval_of nm (CNumber i d) = JVal cJSON_Number i d None nm []"
| "jval_of nm (CString s) = JVal cJSON_String 0 (Fin 0) s nm []"
| "jval_of nm (CRaw s) = JVal cJSON_Raw 0 (Fin 0) s nm []"
| "jval_of nm (CArray vs) = JVal cJSON_Array 0 (Fin 0) None nm (map (jval_of None) vs)"
| "jval_of nm (CObject ms) = JVal cJSON_Object 0 (Fin 0) None nm (map (\<lambda>(k, v). jval_of k v) ms)"

section \<open>Items under construction\<close>

text \<open>
  Since \<open>h0\<close> the items \<open>us\<close> were built and chained from \<open>head\<close> to \<open>current\<close>; the head does not point back yet.\<close>

definition chain :: "jheap \<Rightarrow> jheap \<Rightarrow> ctree list \<Rightarrow> nat option \<Rightarrow> nat option \<Rightarrow> bool" where
  "chain h0 h us head current \<longleftrightarrow> added {} h0 h us \<and> bodies (items h) us \<and> half_linked (items h) head (map root us) \<and>
     current = last_root us"

definition plain_type :: "u32 \<Rightarrow> bool" where
  "plain_type t \<longleftrightarrow> t AND cJSON_IsReference = 0 \<and> t AND cJSON_StringIsConst = 0"

text \<open>
  A new item with a name or none, and one with its value. \<open>b\<close> is the memory without the item.\<close>

definition blank :: "jheap \<Rightarrow> jheap \<Rightarrow> nat \<Rightarrow> nat option \<Rightarrow> string option \<Rightarrow> bool" where
  "blank b h q prv nm \<longleftrightarrow> added {} b h [Tree q []] \<and>
     (\<exists>n. items h q = Some n \<and> nd_next n = None \<and> nd_prev n = prv \<and> nd_child n = None \<and> nd_valuestring n = None \<and>
        nd_valueint n = 0 \<and> nd_valuedouble n = Fin 0 \<and> plain_type (nd_type n) \<and> text_at h (nd_string n) = nm)"

definition filled :: "jheap \<Rightarrow> jheap \<Rightarrow> ctree \<Rightarrow> nat option \<Rightarrow> jval \<Rightarrow> bool" where
  "filled b h t prv v \<longleftrightarrow> added {} b h [t] \<and> bodies (items h) [t] \<and> vals h [t] = [v] \<and>
     (\<exists>n. items h (root t) = Some n \<and> nd_next n = None \<and> nd_prev n = prv)"

lemma plain_types [simp]:
  "plain_type 0" "plain_type cJSON_False" "plain_type cJSON_True" "plain_type cJSON_NULL" "plain_type cJSON_Number"
  "plain_type cJSON_String" "plain_type cJSON_Array" "plain_type cJSON_Object" "plain_type cJSON_Raw"
  by (simp_all add: plain_type_def cJSON_IsReference_def cJSON_StringIsConst_def cJSON_False_def cJSON_True_def cJSON_NULL_def
      cJSON_Number_def cJSON_String_def cJSON_Array_def cJSON_Object_def cJSON_Raw_def)

lemma plain_flags: "plain_type (nd_type n) \<Longrightarrow> \<not> is_reference n \<and> \<not> string_is_const n"
  by (simp add: plain_type_def is_reference_def string_is_const_def)

lemma plain_texts:
  assumes "plain_type (nd_type n)"
  shows "own_texts n = (case nd_valuestring n of None \<Rightarrow> [] | Some a \<Rightarrow> [a]) @ (case nd_string n of None \<Rightarrow> [] | Some a \<Rightarrow> [a])"
    "shared_texts n = []"
  using plain_flags [OF assms] by (auto simp: own_texts_def shared_texts_def split: option.split)

text \<open>Requests that change nothing but the counter of addresses.\<close>

lemma same_store_refl: "heap_ok h \<Longrightarrow> same_store h h"
  by (simp add: same_store_def grows_def)

lemma same_store_tick: "heap_ok h \<Longrightarrow> same_store h (h\<lparr>next_free := next_free h + 1\<rparr>)"
  by (simp add: same_store_def grows_def heap_ok_def)

lemma same_store_trans: "same_store h h1 \<Longrightarrow> same_store h1 h2 \<Longrightarrow> same_store h h2"
  using grows_trans by (auto simp: same_store_def)

lemma added_same_store: "added K b h ts \<Longrightarrow> same_store h h2 \<Longrightarrow> added K b h2 ts"
  using grows_trans [of b h h2] by (fastforce simp: added_def same_store_def grows_def owned_def)

lemma added_heap_ok: "added K b h ts \<Longrightarrow> heap_ok h"
  by (simp add: added_def grows_def)

lemma added_nothing: "heap_ok h \<Longrightarrow> added {} h h []"
  by (simp add: added_def grows_def owned_def)

lemma vals_same_store: "same_store h h2 \<Longrightarrow> vals h2 ts = vals h ts"
  by (induction h ts rule: vals.induct) (auto simp: same_store_def Let_def text_at_def split: option.split)

lemma chain_same_store: "chain h0 h us head current \<Longrightarrow> same_store h h2 \<Longrightarrow> chain h0 h2 us head current"
  using added_same_store by (auto simp: chain_def same_store_def)

lemma blank_same_store: "blank b h q prv nm \<Longrightarrow> same_store h h2 \<Longrightarrow> blank b h2 q prv nm"
  using added_same_store by (auto simp: blank_def same_store_def text_at_def split: option.split)

text \<open>Deleting the head frees everything that was built.\<close>

lemma added_removed:
  assumes "added K h0 h ts"
  shows "same_store h0 (without h (set (faddrs ts)) (set (ftexts (items h) ts)))"
proof -
  have old: "items h0 x = None" if "x \<in> set (faddrs ts)" for x
  proof -
    have "next_free h0 \<le> x" using assms that unfolding added_def by (meson UnI1 atLeastLessThan_iff subsetD)
    then show ?thesis using assms by (simp add: added_def grows_def heap_ok_def)
  qed
  have old': "texts h0 x = None" if "x \<in> set (ftexts (items h) ts)" for x
  proof -
    have "next_free h0 \<le> x" using assms that unfolding added_def by (meson UnI2 atLeastLessThan_iff subsetD)
    then show ?thesis using assms by (simp add: added_def grows_def heap_ok_def)
  qed
  have i: "items (without h (set (faddrs ts)) (set (ftexts (items h) ts))) = items h0"
    using assms old by (auto simp: fun_eq_iff restrict_map_def added_def)
  have t: "texts (without h (set (faddrs ts)) (set (ftexts (items h) ts))) = texts h0"
    using assms old' unfolding without_simps added_def restrict_map_def fun_eq_iff by auto
  have "grows h0 h" using assms by (simp add: added_def)
  then show ?thesis using i t unfolding same_store_def grows_def heap_ok_def by simp
qed

lemma chain_delete:
  assumes "chain h0 h us head current"
  shows "\<exists>h2. cJSON_Delete head h = Some h2 \<and> same_store h0 h2"
proof -
  have "forest (items h) head us" "owned h us" using assms half_forest by (auto simp: chain_def added_def)
  from delete_forest [OF this] added_removed [of "{}" h0 h us] show ?thesis
    using assms by (auto simp: chain_def)
qed

lemma filled_chain: "filled b h t None v \<Longrightarrow> chain b h [t] (Some (root t)) (Some (root t))"
  by (auto simp: filled_def chain_def last_root_def)

lemma blank_bodies: "blank b h q prv nm \<Longrightarrow> bodies (items h) [Tree q []]"
  using plain_flags by (auto simp: blank_def linked_def)

text \<open>Writing the value of an item whose children, if any, are there.\<close>

lemma fill_item:
  assumes "added {} b h [Tree q us]" "items h q = Some n" "bodies (items h) us" "linked (items h) (nd_child n') (map root us)"
    "plain_type (nd_type n)" "plain_type (nd_type n')" "nd_valuestring n' = nd_valuestring n" "nd_string n' = nd_string n"
    "nd_next n' = None"
  shows "filled b (h\<lparr>items := (items h)(q \<mapsto> n')\<rparr>) (Tree q us) (nd_prev n')
     (JVal (nd_type n') (nd_valueint n') (nd_valuedouble n') (text_at h (nd_valuestring n')) (text_at h (nd_string n')) (vals h us))"
proof -
  let ?m = "(items h)(q \<mapsto> n')" and ?h = "h\<lparr>items := (items h)(q \<mapsto> n')\<rparr>"
  have q: "q \<notin> set (faddrs us)" using assms(1) by (simp add: added_def owned_def)
  have "own_texts n' = own_texts n" "shared_texts n' = shared_texts n"
    using plain_texts [OF assms(5)] plain_texts [OF assms(6)] assms(7,8) by simp_all
  then have a: "added {} b ?h [Tree q us]" by (intro added_update [OF assms(1)]) (use assms(2) in auto)
  have b: "bodies ?m us" using bodies_cong [of us ?m "items h"] q assms(3) by (metis fun_upd_apply)
  have r: "q \<notin> set (map root us)" using q roots_faddrs [of us] by auto
  have l: "linked ?m (nd_child n') (map root us)"
    using linked_cong [of "map root us" ?m "items h"] r assms(4) by (metis fun_upd_apply)
  have e: "map_option value_of (items ?h x) = map_option value_of (items h x)" if "x \<in> set (faddrs us)" for x
    using that q by auto
  have v: "vals ?h us = vals h us" using vals_cong [OF bodies_dom [OF assms(3)] e] by simp
  have "text_at ?h = text_at h" by (auto simp: text_at_def fun_eq_iff split: option.split)
  then show ?thesis using a b l v assms(9) plain_flags [OF assms(6)] by (simp add: filled_def Let_def)
qed

lemma blank_write:
  assumes "blank b h q prv nm" "plain_type ty"
  shows "\<exists>h2. upd q (\<lambda>n. n\<lparr>nd_type := ty\<rparr>) h = Some h2 \<and> filled b h2 (Tree q []) prv (JVal ty 0 (Fin 0) None nm [])"
    "\<exists>h2. upd q (\<lambda>n. n\<lparr>nd_type := ty, nd_valueint := i\<rparr>) h = Some h2 \<and> filled b h2 (Tree q []) prv (JVal ty i (Fin 0) None nm [])"
    "\<exists>h2. upd q (\<lambda>n. n\<lparr>nd_valuedouble := d, nd_valueint := i, nd_type := ty\<rparr>) h = Some h2 \<and>
       filled b h2 (Tree q []) prv (JVal ty i d None nm [])"
    "\<exists>h2. upd q (\<lambda>n. n\<lparr>nd_type := ty, nd_child := None\<rparr>) h = Some h2 \<and> filled b h2 (Tree q []) prv (JVal ty 0 (Fin 0) None nm [])"
proof -
  obtain n where n: "added {} b h [Tree q []]" "items h q = Some n" "nd_next n = None" "nd_prev n = prv" "nd_child n = None"
      "nd_valuestring n = None" "nd_valueint n = 0" "nd_valuedouble n = Fin 0" "plain_type (nd_type n)" "text_at h (nd_string n) = nm"
    using assms(1) by (auto simp: blank_def)
  have f: "filled b (h\<lparr>items := (items h)(q \<mapsto> n')\<rparr>) (Tree q []) prv (JVal ty (nd_valueint n') (nd_valuedouble n') None nm [])"
    if "nd_child n' = None" "nd_type n' = ty" "nd_valuestring n' = None" "nd_string n' = nd_string n" "nd_next n' = None" "nd_prev n' = prv" for n'
    using fill_item [OF n(1,2), of n'] that n(6,9,10) assms(2) by (simp add: linked_def text_at_def)
  show "\<exists>h2. upd q (\<lambda>n. n\<lparr>nd_type := ty\<rparr>) h = Some h2 \<and> filled b h2 (Tree q []) prv (JVal ty 0 (Fin 0) None nm [])"
    "\<exists>h2. upd q (\<lambda>n. n\<lparr>nd_type := ty, nd_valueint := i\<rparr>) h = Some h2 \<and> filled b h2 (Tree q []) prv (JVal ty i (Fin 0) None nm [])"
    "\<exists>h2. upd q (\<lambda>n. n\<lparr>nd_valuedouble := d, nd_valueint := i, nd_type := ty\<rparr>) h = Some h2 \<and>
       filled b h2 (Tree q []) prv (JVal ty i d None nm [])"
    "\<exists>h2. upd q (\<lambda>n. n\<lparr>nd_type := ty, nd_child := None\<rparr>) h = Some h2 \<and> filled b h2 (Tree q []) prv (JVal ty 0 (Fin 0) None nm [])"
    using f [of "n\<lparr>nd_type := ty\<rparr>"] f [of "n\<lparr>nd_type := ty, nd_valueint := i\<rparr>"]
      f [of "n\<lparr>nd_valuedouble := d, nd_valueint := i, nd_type := ty\<rparr>"] f [of "n\<lparr>nd_type := ty, nd_child := None\<rparr>"] n
    by (simp_all add: upd_Some)
qed

section \<open>Numbers and strings\<close>

text \<open>
  A result in memory next to the one on values: the same unless an allocation failed, and after a
  failure the memory is that of \<open>h0\<close>.\<close>

definition outcome :: "jheap \<Rightarrow> jheap \<Rightarrow> 'a presult \<Rightarrow> 'b presult \<Rightarrow> ('a \<Rightarrow> 'b \<Rightarrow> bool) \<Rightarrow> bool" where
  "outcome h0 h r pr P \<longleftrightarrow>
     (case r of
        Parsed x off \<Rightarrow> \<exists>v. pr = Parsed v off \<and> P x v
      | Failed off \<Rightarrow> same_store h0 h \<and> (always h0 \<longrightarrow> pr = Failed off)
      | NoFuel \<Rightarrow> pr = NoFuel)"

lemma outcome_simps [simp]:
  "outcome h0 h (Parsed x off) pr P \<longleftrightarrow> (\<exists>v. pr = Parsed v off \<and> P x v)"
  "outcome h0 h (Failed off) pr P \<longleftrightarrow> same_store h0 h \<and> (always h0 \<longrightarrow> pr = Failed off)"
  "outcome h0 h NoFuel pr P \<longleftrightarrow> pr = NoFuel"
  by (simp_all add: outcome_def)

text \<open>A block that is allocated, written and freed again leaves no trace.\<close>

lemma block_gone:
  assumes "heap_ok h"
  shows "free_text (next_free h) (h\<lparr>next_free := next_free h + 1, texts := (texts h)(next_free h \<mapsto> s)\<rparr>) =
     Some (h\<lparr>next_free := next_free h + 1\<rparr>)"
proof -
  have "texts h (next_free h) = None" using assms by (simp add: heap_ok_def)
  then have "(texts h)(next_free h := None) = texts h" by auto
  then show ?thesis by (simp add: free_text_def)
qed

lemma parse_number_memory:
  assumes "blank b h q prv nm"
  shows "\<exists>r h2. parse_number_h c q off h = Some (r, h2) \<and>
     outcome h h2 r (parse_number c off) (\<lambda>_ v. filled b h2 (Tree q []) prv (jval_of nm v))"
proof -
  have ok: "heap_ok h" using assms added_heap_ok by (auto simp: blank_def)
  let ?s = "takeWhile is_number_char (drop off c)" and ?h1 = "h\<lparr>next_free := next_free h + 1\<rparr>"
  have tick: "same_store h ?h1" using same_store_tick [OF ok] .
  show ?thesis
  proof (cases "grants h (next_free h)")
    case False
    then show ?thesis using tick by (auto simp: parse_number_h_def allocate_def always_def)
  next
    case True
    show ?thesis
    proof (cases "strtod ?s")
      case None
      then show ?thesis
        using True tick block_gone [OF ok] by (simp add: parse_number_h_def allocate_def parse_number_def Let_def)
    next
      case (Some x)
      obtain d e where x: "x = (d, e)" by (cases x)
      obtain n where n: "items h q = Some n" using assms by (auto simp: blank_def)
      let ?n = "n\<lparr>nd_valuedouble := d, nd_valueint := saturate d, nd_type := cJSON_Number\<rparr>"
      have "filled b (?h1\<lparr>items := (items h)(q \<mapsto> ?n)\<rparr>) (Tree q []) prv (JVal cJSON_Number (saturate d) d None nm [])"
        using blank_write(3) [OF blank_same_store [OF assms tick], of cJSON_Number "saturate d" d] n by (simp add: upd_Some)
      moreover have "texts h (next_free h) = None" using ok by (simp add: heap_ok_def)
      then have "(texts h)(next_free h := None) = texts h" by auto
      ultimately show ?thesis
        using True Some x n by (simp add: parse_number_h_def allocate_def parse_number_def Let_def upd_Some free_text_def)
    qed
  qed
qed

text \<open>A string goes into the item as its \<open>valuestring\<close>, in a block of its own.\<close>

lemma text_write:
  assumes "added {} b h [Tree q []]" "items h q = Some n" "plain_type (nd_type n)" "nd_child n = None" "nd_valuestring n = None"
    "h2 = h\<lparr>next_free := next_free h + 1, texts := (texts h)(next_free h \<mapsto> s),
       items := (items h)(q \<mapsto> n\<lparr>nd_type := cJSON_String, nd_valuestring := Some (next_free h)\<rparr>)\<rparr>"
  shows "added {} b h2 [Tree q []] \<and> text_at h2 (nd_string n) = text_at h (nd_string n)"
proof -
  let ?n = "n\<lparr>nd_type := cJSON_String, nd_valuestring := Some (next_free h)\<rparr>"
  have o: "own_texts ?n = next_free h # own_texts n" "shared_texts ?n = []"
    using plain_texts [OF assms(3)] plain_texts [of ?n] assms(5) by simp_all
  have ok: "heap_ok h" using added_heap_ok [OF assms(1)] .
  have old: "x < next_free h" if "x \<in> dom (texts h)" for x using heap_ok_dom(2) [OF ok that] .
  have tx: "set (own_texts n) \<subseteq> dom (texts h)" using assms(1,2) by (simp add: added_def owned_def)
  have fresh: "next_free h \<notin> set (own_texts n)" using old tx by blast
  have "heap_ok h2" using ok assms(2) by (auto simp: heap_ok_def assms(6))
  moreover have "set (own_texts n) \<subseteq> {next_free b ..< next_free h}" "next_free b \<le> next_free h"
    using assms(1,2) by (auto simp: added_def grows_def)
  ultimately have "added {} b h2 [Tree q []]"
    using assms(1,2) o fresh tx by (auto simp: added_def grows_def owned_def assms(6))
  moreover have "text_at h2 (nd_string n) = text_at h (nd_string n)"
  proof (cases "nd_string n")
    case (Some a)
    then have "a \<in> set (own_texts n)" using plain_texts(1) [OF assms(3)] by simp
    then show ?thesis using fresh Some by (auto simp: text_at_def assms(6))
  qed (simp add: text_at_def)
  ultimately show ?thesis by blast
qed

lemma parse_string_memory:
  assumes "blank b h q prv nm"
  shows "\<exists>r h2. parse_string_h c q off h = Some (r, h2) \<and>
     outcome h h2 r (parse_string c off) (\<lambda>_ s. \<exists>a n. added {} b h2 [Tree q []] \<and> texts h2 a = Some s \<and>
        items h q = Some n \<and> items h2 q = Some (n\<lparr>nd_type := cJSON_String, nd_valuestring := Some a\<rparr>) \<and>
        text_at h2 (nd_string n) = nm)"
proof -
  have a: "added {} b h [Tree q []]" using assms by (simp add: blank_def)
  have ok: "heap_ok h" using added_heap_ok [OF a] .
  note tick = same_store_tick [OF ok] and same = same_store_refl [OF ok]
  obtain n where n: "items h q = Some n" "plain_type (nd_type n)" "nd_child n = None" "nd_valuestring n = None" "text_at h (nd_string n) = nm"
    using assms by (auto simp: blank_def)
  show ?thesis
  proof (cases "char_at c off = Some (CHR 0x22)")
    case False
    then show ?thesis using same by (auto simp: parse_string_h_def parse_string_def)
  next
    case quote: True
    let ?body = "drop (off + 1) c"
    show ?thesis
    proof (cases "string_end ?body")
      case None
      then show ?thesis using same quote by (auto simp: parse_string_h_def parse_string_def)
    next
      case (Some k)
      show ?thesis
      proof (cases "grants h (next_free h)")
        case False
        then show ?thesis using tick quote Some by (auto simp: parse_string_h_def allocate_def always_def)
      next
        case True
        show ?thesis
        proof (cases "unescape (take k ?body)")
          case (Inl x)
          then show ?thesis
            using True tick quote Some block_gone [OF ok] by (simp add: parse_string_h_def allocate_def parse_string_def Let_def)
        next
          case (Inr out)
          note w = text_write [OF a n(1-4) refl, of "cstr out"]
          then show ?thesis
            using True quote Some Inr n(1,5)
            by (simp add: parse_string_h_def allocate_def parse_string_def Let_def upd_Some) (rule exI [of _ "next_free h"], simp)
        qed
      qed
    qed
  qed
qed

lemma string_value_memory:
  assumes "blank b h q prv nm"
  shows "\<exists>r h2. parse_string_h c q off h = Some (r, h2) \<and>
     outcome h h2 r (case parse_string c off of Parsed s o' \<Rightarrow> Parsed (CString (Some s)) o' | Failed o' \<Rightarrow> Failed o' | NoFuel \<Rightarrow> NoFuel)
       (\<lambda>_ v. filled b h2 (Tree q []) prv (jval_of nm v))"
proof -
  obtain r h2 where r: "parse_string_h c q off h = Some (r, h2)"
      "outcome h h2 r (parse_string c off) (\<lambda>_ s. \<exists>a n. added {} b h2 [Tree q []] \<and> texts h2 a = Some s \<and>
        items h q = Some n \<and> items h2 q = Some (n\<lparr>nd_type := cJSON_String, nd_valuestring := Some a\<rparr>) \<and>
        text_at h2 (nd_string n) = nm)"
    using parse_string_memory [OF assms] by blast
  show ?thesis
  proof (cases r)
    case (Parsed u o1)
    then obtain s a n where s: "parse_string c off = Parsed s o1" "added {} b h2 [Tree q []]" "texts h2 a = Some s" "items h q = Some n"
        "items h2 q = Some (n\<lparr>nd_type := cJSON_String, nd_valuestring := Some a\<rparr>)" "text_at h2 (nd_string n) = nm"
      using r(2) by auto
    have "nd_next n = None \<and> nd_prev n = prv \<and> nd_child n = None \<and> nd_valueint n = 0 \<and> nd_valuedouble n = Fin 0"
      using assms s(4) by (auto simp: blank_def)
    then have "filled b h2 (Tree q []) prv (jval_of nm (CString (Some s)))"
      using s plain_flags [of "n\<lparr>nd_type := cJSON_String, nd_valuestring := Some a\<rparr>"]
      by (simp add: filled_def linked_def Let_def text_at_def)
    then show ?thesis using r(1) Parsed s(1) by auto
  qed (use r in auto)
qed

text \<open>A name goes into the item by way of its \<open>valuestring\<close>.\<close>

lemma parse_name_memory:
  assumes "blank b h q prv None"
  shows "\<exists>r h2. parse_string_h c q off h = Some (r, h2) \<and>
     outcome h h2 r (parse_string c off) (\<lambda>_ s. \<exists>h3. upd q (\<lambda>n. n\<lparr>nd_string := nd_valuestring n, nd_valuestring := None\<rparr>) h2 = Some h3 \<and>
        blank b h3 q prv (Some s))"
proof -
  obtain r h2 where r: "parse_string_h c q off h = Some (r, h2)"
      "outcome h h2 r (parse_string c off) (\<lambda>_ s. \<exists>a n. added {} b h2 [Tree q []] \<and> texts h2 a = Some s \<and>
        items h q = Some n \<and> items h2 q = Some (n\<lparr>nd_type := cJSON_String, nd_valuestring := Some a\<rparr>) \<and>
        text_at h2 (nd_string n) = None)"
    using parse_string_memory [OF assms] by blast
  show ?thesis
  proof (cases r)
    case (Parsed u o1)
    then obtain s a n where s: "parse_string c off = Parsed s o1" "added {} b h2 [Tree q []]" "texts h2 a = Some s" "items h q = Some n"
        "items h2 q = Some (n\<lparr>nd_type := cJSON_String, nd_valuestring := Some a\<rparr>)" "text_at h2 (nd_string n) = None"
      using r(2) by auto
    let ?n = "n\<lparr>nd_type := cJSON_String, nd_valuestring := Some a\<rparr>"
    have "set (own_texts ?n) \<subseteq> dom (texts h2)" using s(2,5) by (simp add: added_def owned_def)
    then have nm: "nd_string n = None"
      using s(6) plain_texts(1) [of ?n] by (cases "nd_string n") (auto simp: text_at_def)
    let ?m = "n\<lparr>nd_type := cJSON_String, nd_string := Some a, nd_valuestring := None\<rparr>"
    let ?h3 = "h2\<lparr>items := (items h2)(q \<mapsto> ?m)\<rparr>"
    have "own_texts ?m = own_texts ?n" "shared_texts ?m = shared_texts ?n"
      using plain_texts [of ?m] plain_texts [of ?n] nm by simp_all
    then have "added {} b ?h3 [Tree q []]" by (intro added_update [OF s(2)]) (use s(5) in auto)
    moreover have "upd q (\<lambda>n. n\<lparr>nd_string := nd_valuestring n, nd_valuestring := None\<rparr>) h2 = Some ?h3"
      using s(5) by (simp add: upd_Some)
    moreover have "nd_next n = None \<and> nd_prev n = prv \<and> nd_child n = None \<and> nd_valueint n = 0 \<and> nd_valuedouble n = Fin 0"
      using assms s(4) by (auto simp: blank_def)
    ultimately show ?thesis using r(1) Parsed s(1,3) by (auto simp: blank_def text_at_def)
  qed (use r in auto)
qed

section \<open>Chains of items\<close>

lemma half_linked_snoc:
  assumes "half_linked m q xs" "xs \<noteq> []" "m (last xs) = Some n" "y \<notin> set xs" "\<And>x. x \<in> set xs \<Longrightarrow> x \<noteq> last xs \<Longrightarrow> m' x = m x"
    "m' (last xs) = Some (n\<lparr>nd_next := Some y\<rparr>)" "m' y = Some k" "nd_next k = None" "nd_prev k = Some (last xs)"
  shows "half_linked m' q (xs @ [y])"
proof -
  consider x where "xs = [x]" | x mid l where "xs = x # mid @ [l]"
    using assms(2) by (metis append_butlast_last_id neq_Nil_conv)
  then show ?thesis
  proof cases
    case (1 x)
    then show ?thesis using assms by auto
  next
    case (2 x mid l)
    have "seg m' x mid (Some l) = seg m x mid (Some l)" using assms(1,5) 2 by (intro seg_cong) auto
    then show ?thesis using assms 2 by (auto simp: hd_append)
  qed
qed

text \<open>The last item of a chain, if there is one, points to a new one.\<close>

definition point_to :: "nat option \<Rightarrow> nat \<Rightarrow> jheap \<Rightarrow> jheap" where
  "point_to current q h =
     (case current of None \<Rightarrow> h | Some l \<Rightarrow> h\<lparr>items := (items h)(l \<mapsto> (the (items h l))\<lparr>nd_next := Some q\<rparr>)\<rparr>)"

lemma link_texts [simp]:
  "own_texts (n\<lparr>nd_next := a\<rparr>) = own_texts n" "shared_texts (n\<lparr>nd_next := a\<rparr>) = shared_texts n"
  "own_texts (n\<lparr>nd_prev := a\<rparr>) = own_texts n" "shared_texts (n\<lparr>nd_prev := a\<rparr>) = shared_texts n"
  by (simp_all add: own_texts_def shared_texts_def is_reference_def string_is_const_def split: option.split)

text \<open>Changing the links of a root keeps bodies and values.\<close>

lemma root_relinked:
  assumes "added K h0 h us" "bodies (items h) us" "r \<in> set (map root us)" "items h r = Some n" "value_of n' = value_of n"
  shows "added K h0 (h\<lparr>items := (items h)(r \<mapsto> n')\<rparr>) us" "bodies ((items h)(r \<mapsto> n')) us"
    "vals (h\<lparr>items := (items h)(r \<mapsto> n')\<rparr>) us = vals h us"
proof -
  let ?m = "(items h)(r \<mapsto> n')" and ?h = "h\<lparr>items := (items h)(r \<mapsto> n')\<rparr>"
  have d: "distinct (faddrs us)" using assms(1) by (simp add: added_def owned_def)
  have r: "r \<in> set (faddrs us)" using assms(3) roots_faddrs [of us] by auto
  have x: "own_texts n' = own_texts n" "shared_texts n' = shared_texts n" using value_of_texts [OF assms(5)] by auto
  show "added K h0 ?h us" by (rule added_update [OF assms(1)]) (use assms(4) r x in auto)
  have v: "map_option value_of (?m y) = map_option value_of (items h y)" for y using assms(4,5) by simp
  have "?m y = items h y" if "y \<in> set (inner us)" for y
    using that distinct_inner [OF d] assms(3) by auto
  then show "bodies ?m us" by (rule bodies_relinked [OF assms(2) _ v])
  show "vals ?h us = vals h us"
    by (rule vals_cong [OF bodies_dom [OF assms(2)], THEN conjunct1]) (use v in auto)
qed

lemma chain_step:
  assumes "chain h0 h us head current" "q = next_free h" "b = point_to current q h" "added {} b h3 [Tree q ws]"
    "bodies (items h3) [Tree q ws]" "items h3 q = Some k" "nd_next k = None" "nd_prev k = current"
  shows "chain h0 h3 (us @ [Tree q ws]) (Some (head_of head q)) (Some q) \<and> vals h3 us = vals h us"
proof (cases "us = []")
  case True
  then have e: "head = None" "current = None" "b = h" using assms(1,3) by (auto simp: chain_def last_root_def point_to_def)
  have "added {} h0 h []" using assms(1) True by (simp add: chain_def)
  from added_join [OF this assms(4) [unfolded e(3)]] show ?thesis
    using True e assms(5-8) by (simp add: chain_def last_root_def head_of_def)
next
  case False
  let ?l = "root (last us)"
  have c: "added {} h0 h us" "bodies (items h) us" "half_linked (items h) head (map root us)" "current = Some ?l"
    using assms(1) False by (auto simp: chain_def last_root_def)
  have l: "?l \<in> set (map root us)" "last (map root us) = ?l" using False by (simp_all add: last_map)
  then obtain n where n: "items h ?l = Some n" using c(1) roots_faddrs [of us] by (force simp: added_def owned_def)
  have b: "b = h\<lparr>items := (items h)(?l \<mapsto> n\<lparr>nd_next := Some q\<rparr>)\<rparr>" using assms(3) c(4) n by (simp add: point_to_def)
  have "value_of (n\<lparr>nd_next := Some q\<rparr>) = value_of n" by (simp add: value_of_def)
  note rl = root_relinked [OF c(1,2) l(1) n this, folded b]
  have bb: "bodies (items b) us" using rl(2) by (simp add: b)
  note own = added_own [OF rl(1)]
  have keep: "items h3 x = items b x" if "x \<in> set (faddrs us)" for x using added_keeps(1) [OF assms(4)] own(1) that by blast
  note kt = added_keeps_trees [OF assms(4) own]
  have j: "added {} h0 h3 (us @ [Tree q ws])" using added_join [OF rl(1) assms(4)] .
  then have q: "q \<notin> set (map root us)" using roots_faddrs [of us] by (auto simp: added_def owned_def)
  have r: "x \<in> set (faddrs us)" if "x \<in> set (map root us)" for x using that roots_faddrs [of us] by auto
  have "half_linked (items h3) head (map root us @ [q])"
  proof (rule half_linked_snoc [OF c(3)])
    show "items h3 x = items h x" if "x \<in> set (map root us)" "x \<noteq> last (map root us)" for x
      using keep [OF r [OF that(1)]] that(2) l(2) by (simp add: b)
    show "items h3 (last (map root us)) = Some (n\<lparr>nd_next := Some q\<rparr>)" using keep [OF r [OF l(1)]] l(2) by (simp add: b)
  qed (use False n q assms(6-8) c(4) l(2) in auto)
  moreover have "head = Some (head_of head q)" using c(3) False by (cases us) (auto simp: head_of_def)
  moreover have "bodies (items h3) (us @ [Tree q ws])" using kt(4) bb assms(5) by (simp only: bodies_append)
  ultimately show ?thesis using j kt(3) rl(3) by (simp add: chain_def last_root_def)
qed

lemma attach_blank:
  assumes "chain h0 h us head current" "cJSON_New_Item h = (Some q, h1)"
  shows "\<exists>h2. attach current q h1 = Some h2 \<and> q = next_free h \<and> blank (point_to current q h) h2 q current None \<and> grants h2 = grants h0"
proof -
  have c: "added {} h0 h us" "half_linked (items h) head (map root us)" "current = last_root us" using assms(1) by (auto simp: chain_def)
  have ok: "heap_ok h" using added_heap_ok [OF c(1)] .
  have q: "q = next_free h" "h1 = h\<lparr>next_free := next_free h + 1, items := (items h)(q \<mapsto> zero_node)\<rparr>"
    using assms(2) by (auto simp: New_Item_cases split: if_splits)
  have new: "items h q = None" "texts h q = None" using ok q(1) by (simp_all add: heap_ok_def)
  have g: "grants h = grants h0" using c(1) by (simp add: added_def grows_def)
  show ?thesis
  proof (cases current)
    case None
    have "blank h h1 q None None"
      using ok q new by (auto simp: blank_def added_def grows_def owned_def heap_ok_def zero_node_def own_texts_def shared_texts_def text_at_def)
    then show ?thesis using None q g by (simp add: attach_def point_to_def)
  next
    case (Some l)
    then have l: "l \<in> set (faddrs us)" using c(3) roots_faddrs [of us] by (auto simp: last_root_def split: if_splits)
    then obtain n where n: "items h l = Some n" using c(1) by (force simp: added_def owned_def)
    then have lq: "l \<noteq> q" using new by auto
    let ?b = "h\<lparr>items := (items h)(l \<mapsto> n\<lparr>nd_next := Some q\<rparr>)\<rparr>"
    let ?h2 = "h1\<lparr>items := (items h1)(l \<mapsto> n\<lparr>nd_next := Some q\<rparr>, q \<mapsto> zero_node\<lparr>nd_prev := Some l\<rparr>)\<rparr>"
    have "attach (Some l) q h1 = Some ?h2" using n lq q(2) by (simp add: attach_def suffix_object_def upd_Some)
    moreover have "heap_ok ?b" using ok n by (auto simp: heap_ok_def)
    then have "blank ?b ?h2 q (Some l) None"
      using q new n lq by (auto simp: blank_def added_def grows_def owned_def heap_ok_def zero_node_def own_texts_def shared_texts_def text_at_def)
    ultimately show ?thesis using Some n q g by (simp add: point_to_def)
  qed
qed

lemma added_tree: "added K b h ([Tree q []] @ us) \<Longrightarrow> added K b h [Tree q us]"
  by (simp add: added_def owned_def)

text \<open>The end of an array or object: its head points back, and the item gets its kind and its children.\<close>

lemma close_filled:
  assumes "blank b h q prv nm" "chain h h1 us (Some x) (Some y)" "plain_type ty"
  shows "\<exists>h2. close_list ty q (Some (x, y)) h1 = Some h2 \<and> filled b h2 (Tree q us) prv (JVal ty 0 (Fin 0) None nm (vals h1 us))"
proof -
  obtain n where n: "added {} b h [Tree q []]" "items h q = Some n" "nd_next n = None" "nd_prev n = prv" "nd_child n = None"
      "nd_valuestring n = None" "nd_valueint n = 0" "nd_valuedouble n = Fin 0" "plain_type (nd_type n)" "text_at h (nd_string n) = nm"
    using assms(1) by (auto simp: blank_def)
  have c: "added {} h h1 us" "bodies (items h1) us" "half_linked (items h1) (Some x) (map root us)" "y = last (map root us)" "us \<noteq> []"
    using assms(2) by (auto simp: chain_def last_root_def last_map split: if_splits)
  then obtain ws where ws: "map root us = x # ws" by (cases us) auto
  then obtain m where m: "items h1 x = Some m" using c(3) by auto
  let ?h2 = "h1\<lparr>items := (items h1)(x \<mapsto> m\<lparr>nd_prev := Some y\<rparr>)\<rparr>"
  have "value_of (m\<lparr>nd_prev := Some y\<rparr>) = value_of m" by (simp add: value_of_def)
  moreover have "x \<in> set (map root us)" using ws by simp
  ultimately have rl: "added {} h ?h2 us" "bodies (items ?h2) us" "vals ?h2 us = vals h1 us"
    using root_relinked [OF c(1,2) _ m] by simp_all
  have l: "linked (items ?h2) (Some x) (map root us)"
    using finish_links [of "items h1" "Some x" x ws m] c(3,4) m unfolding ws by simp
  have a: "added {} b ?h2 [Tree q us]" using added_tree [OF added_join [OF n(1) rl(1)]] .
  have q: "q \<in> dom (items h)" using n(2) by auto
  have "q \<noteq> x"
    using a roots_faddrs [of us] ws by (force simp: added_def owned_def)
  then have iq: "items ?h2 q = Some n" using added_keeps(1) [OF c(1) q] n(2) by simp
  let ?n = "n\<lparr>nd_type := ty, nd_child := Some x\<rparr>"
  have "text_at ?h2 (nd_string n) = nm"
  proof (cases "nd_string n")
    case (Some s)
    then have "s \<in> set (own_texts n)" using plain_texts(1) [OF n(9)] by simp
    then have "s \<in> dom (texts h)" using n(1,2) by (auto simp: added_def owned_def)
    then show ?thesis using added_keeps(2) [OF c(1)] n(10) Some by (simp add: text_at_def)
  qed (use n(10) in \<open>simp add: text_at_def\<close>)
  moreover have "text_at ?h2 None = None" by (simp add: text_at_def)
  ultimately have "filled b (?h2\<lparr>items := (items ?h2)(q \<mapsto> ?n)\<rparr>) (Tree q us) prv (JVal ty 0 (Fin 0) None nm (vals h1 us))"
    using fill_item [OF a iq, of ?n] rl(2,3) l n(3-9) assms(3) by simp
  then show ?thesis using m iq by (simp add: close_list_def upd_Some)
qed

section \<open>The parser in memory computes the parser on values\<close>

definition runs :: "jheap \<Rightarrow> ('a presult \<times> jheap) ub \<Rightarrow> 'b presult \<Rightarrow> (jheap \<Rightarrow> 'a \<Rightarrow> 'b \<Rightarrow> bool) \<Rightarrow> bool" where
  "runs h0 x pr P \<longleftrightarrow> (\<exists>r h. x = Some (r, h) \<and> outcome h0 h r pr (P h))"

lemma runs_if:
  "(C \<Longrightarrow> runs h0 x pr P) \<Longrightarrow> (\<not> C \<Longrightarrow> runs h0 y pr' P) \<Longrightarrow> runs h0 (if C then x else y) (if C then pr else pr') P"
  by simp

lemma runs_failed: "heap_ok h \<Longrightarrow> runs h (Some (Failed off, h)) (Failed off) P"
  by (simp add: runs_def same_store_refl)

text \<open>What the three parsers do with the fuel \<open>k\<close>.\<close>

definition value_parsed :: "string \<Rightarrow> nat \<Rightarrow> bool" where
  "value_parsed c k \<longleftrightarrow> (\<forall>d q off b h prv nm. blank b h q prv nm \<longrightarrow>
     runs h (parse_value_h k c d q off h) (parse_value k c d off) (\<lambda>h2 _ v. \<exists>us. filled b h2 (Tree q us) prv (jval_of nm v)))"

definition list_parsed :: "jheap \<Rightarrow> jval list \<Rightarrow> ('a \<Rightarrow> jval) \<Rightarrow> jheap \<Rightarrow> nat \<times> nat \<Rightarrow> 'a list \<Rightarrow> bool" where
  "list_parsed h0 ws f h2 ends vs \<longleftrightarrow> (\<exists>us. chain h0 h2 us (Some (fst ends)) (Some (snd ends)) \<and> vals h2 us = ws @ map f vs)"

definition elements_parsed :: "string \<Rightarrow> nat \<Rightarrow> bool" where
  "elements_parsed c k \<longleftrightarrow> (\<forall>d pos h0 h us head current. chain h0 h us head current \<longrightarrow>
     runs h0 (parse_elements_h k c d pos head current h) (parse_elements k c d pos) (list_parsed h0 (vals h us) (jval_of None)))"

definition members_parsed :: "string \<Rightarrow> nat \<Rightarrow> bool" where
  "members_parsed c k \<longleftrightarrow> (\<forall>d pos h0 h us head current. chain h0 h us head current \<longrightarrow>
     runs h0 (parse_members_h k c d pos head current h) (parse_members k c d pos) (list_parsed h0 (vals h us) (\<lambda>(s, v). jval_of s v)))"

text \<open>An array or an object from its list.\<close>

lemma list_closed:
  assumes "blank b h q prv nm" "plain_type ty" "runs h x pr (list_parsed h [] f)"
    "\<And>vs. jval_of nm (g vs) = JVal ty 0 (Fin 0) None nm (map f vs)"
  shows "runs h (do {
        (r, h) \<leftarrow> x;
        case r of
          Parsed ends o' \<Rightarrow> do { h \<leftarrow> close_list ty q (Some ends) h; Some (Parsed () (o' + 1), h) }
        | Failed o' \<Rightarrow> Some (Failed o', h) | NoFuel \<Rightarrow> Some (NoFuel, h)
      })
     (case pr of Parsed vs o' \<Rightarrow> Parsed (g vs) (o' + 1) | Failed o' \<Rightarrow> Failed o' | NoFuel \<Rightarrow> NoFuel)
     (\<lambda>h2 _ v. \<exists>us. filled b h2 (Tree q us) prv (jval_of nm v))"
proof -
  obtain r h1 where r: "x = Some (r, h1)" "outcome h h1 r pr (list_parsed h [] f h1)" using assms(3) by (auto simp: runs_def)
  show ?thesis
  proof (cases r)
    case (Parsed ends o1)
    obtain y z where e: "ends = (y, z)" by (cases ends)
    obtain vs us where v: "pr = Parsed vs o1" "chain h h1 us (Some y) (Some z)" "vals h1 us = map f vs"
      using r(2) Parsed e by (auto simp: list_parsed_def)
    obtain h2 where "close_list ty q (Some (y, z)) h1 = Some h2" "filled b h2 (Tree q us) prv (jval_of nm (g vs))"
      using close_filled [OF assms(1) v(2) assms(2)] assms(4) v(3) by auto
    then show ?thesis using r(1) Parsed e v(1) by (auto simp: runs_def)
  qed (use r in \<open>auto simp: runs_def\<close>)
qed

lemma outcome_mono: "outcome h0 h r pr P \<Longrightarrow> (\<And>x v. P x v \<Longrightarrow> Q x v) \<Longrightarrow> outcome h0 h r pr Q"
  by (auto simp: outcome_def split: presult.splits)

lemma value_parsed_step:
  assumes "elements_parsed c k" "members_parsed c k"
  shows "value_parsed c (Suc k)"
  unfolding value_parsed_def
proof (intro allI impI)
  fix d q off b h prv nm
  assume b: "blank b h q prv nm"
  have ok: "heap_ok h" using b added_heap_ok by (auto simp: blank_def)
  have "chain h h [] None None" using added_nothing [OF ok] by (simp add: chain_def last_root_def)
  then have l: "runs h (parse_elements_h k c d pos None None h) (parse_elements k c d pos) (list_parsed h [] (jval_of None))"
      "runs h (parse_members_h k c d pos None None h) (parse_members k c d pos) (list_parsed h [] (\<lambda>(s, v). jval_of s v))" for d pos
    using assms unfolding elements_parsed_def members_parsed_def by (metis vals.simps(1))+
  let ?Q = "\<lambda>h2 _ v. \<exists>us. filled b h2 (Tree q us) prv (jval_of nm v)"
  have lit: "runs h (do { h \<leftarrow> x; Some (Parsed () o', h) }) (Parsed v o') ?Q"
    if "\<exists>h2. x = Some h2 \<and> filled b h2 (Tree q []) prv (jval_of nm v)" for x o' v
    using that by (auto simp: runs_def)
  have "runs h (do { h \<leftarrow> upd q (\<lambda>n. n\<lparr>nd_type := cJSON_NULL\<rparr>) h; Some (Parsed () o', h) }) (Parsed CNull o') ?Q"
      "runs h (do { h \<leftarrow> upd q (\<lambda>n. n\<lparr>nd_type := cJSON_False\<rparr>) h; Some (Parsed () o', h) }) (Parsed CFalse o') ?Q"
      "runs h (do { h \<leftarrow> upd q (\<lambda>n. n\<lparr>nd_type := cJSON_True, nd_valueint := 1\<rparr>) h; Some (Parsed () o', h) }) (Parsed CTrue o') ?Q"
      "runs h (do { h \<leftarrow> close_list cJSON_Array q None h; Some (Parsed () o', h) }) (Parsed (CArray []) o') ?Q"
      "runs h (do { h \<leftarrow> close_list cJSON_Object q None h; Some (Parsed () o', h) }) (Parsed (CObject []) o') ?Q" for o'
    using blank_write [OF b] by (simp_all add: lit close_list_def)
  note leaves = this
  have texts: "runs h (parse_string_h c q off h)
        (case parse_string c off of Parsed s o' \<Rightarrow> Parsed (CString (Some s)) o' | Failed o' \<Rightarrow> Failed o' | NoFuel \<Rightarrow> NoFuel) ?Q"
      "runs h (parse_number_h c q off h) (parse_number c off) ?Q"
    using string_value_memory [OF b, of c off] parse_number_memory [OF b, of c off] outcome_mono unfolding runs_def by (metis (mono_tags, lifting))+
  note lists = list_closed [OF b plain_types(7) l(1), of CArray] list_closed [OF b plain_types(8) l(2), of CObject]
  show "runs h (parse_value_h (Suc k) c d q off h) (parse_value (Suc k) c d off) ?Q"
    unfolding parse_value_h.simps Let_def
    by (subst parse_value.simps, simp only: Let_def nat.distinct if_False diff_Suc_1)
      (intro runs_if runs_failed [OF ok] leaves texts lists jval_of.simps)
qed

text \<open>A failure frees the chain, whatever the last item has got by then.\<close>

lemma runs_fail:
  assumes "chain h0 h us head current" "always h0 \<Longrightarrow> pr = Failed off"
  shows "runs h0 (parse_fail head off h) pr P"
  using chain_delete [OF assms(1)] assms(2) by (auto simp: runs_def parse_fail_def)

lemma blank_chain:
  assumes "chain h0 h us head current" "blank (point_to current q h) h2 q current nm" "q = next_free h"
  shows "chain h0 h2 (us @ [Tree q []]) (Some (head_of head q)) (Some q)"
proof -
  obtain n where "added {} (point_to current q h) h2 [Tree q []]" "items h2 q = Some n" "nd_next n = None" "nd_prev n = current"
    using assms(2) by (auto simp: blank_def)
  then show ?thesis using chain_step [OF assms(1,3) refl _ blank_bodies [OF assms(2)]] by blast
qed

lemma filled_chain_step:
  assumes "chain h0 h us head current" "filled (point_to current q h) h2 (Tree q ws) current v" "q = next_free h"
  shows "chain h0 h2 (us @ [Tree q ws]) (Some (head_of head q)) (Some q)" "vals h2 (us @ [Tree q ws]) = vals h us @ [v]"
proof -
  obtain n where n: "added {} (point_to current q h) h2 [Tree q ws]" "items h2 q = Some n" "nd_next n = None" "nd_prev n = current"
      "bodies (items h2) [Tree q ws]" "vals h2 [Tree q ws] = [v]"
    using assms(2) by (auto simp: filled_def)
  note c = chain_step [OF assms(1,3) refl n(1,5,2,3,4)]
  show "chain h0 h2 (us @ [Tree q ws]) (Some (head_of head q)) (Some q)" using c by blast
  show "vals h2 (us @ [Tree q ws]) = vals h us @ [v]" unfolding vals_append n(6) using c by simp
qed

text \<open>Behind a value comes the next one, the end, or a failure.\<close>

lemma loop_end:
  assumes "chain h0 h us (Some x) (Some y)" "vals h us = ws @ [f v]"
    "comma \<Longrightarrow> runs h0 loop pr (list_parsed h0 (vals h us) f)"
  shows "runs h0 (if comma then loop else if done then Some (Parsed (x, y) off, h) else parse_fail (Some x) off h)
     (if comma then (case pr of Parsed vs o' \<Rightarrow> Parsed (v # vs) o' | Failed o' \<Rightarrow> Failed o' | NoFuel \<Rightarrow> NoFuel)
      else if done then Parsed [v] off else Failed off)
     (list_parsed h0 ws f)"
proof (intro runs_if)
  assume comma
  then obtain r h2 where r: "loop = Some (r, h2)" "outcome h0 h2 r pr (list_parsed h0 (vals h us) f h2)"
    using assms(3) by (auto simp: runs_def)
  then show "runs h0 loop (case pr of Parsed vs o' \<Rightarrow> Parsed (v # vs) o' | Failed o' \<Rightarrow> Failed o' | NoFuel \<Rightarrow> NoFuel) (list_parsed h0 ws f)"
    by (cases r) (auto simp: runs_def list_parsed_def assms(2))
next
  assume "\<not> comma" "done"
  then show "runs h0 (Some (Parsed (x, y) off, h)) (Parsed [v] off) (list_parsed h0 ws f)"
    using assms(1,2) by (auto simp: runs_def list_parsed_def)
qed (use runs_fail [OF assms(1)] in auto)

text \<open>A value into the new item, and then the rest of the loop.\<close>

lemma item_loop:
  assumes "value_parsed c k" "chain h0 h us head current" "q = next_free h" "blank (point_to current q h) h2 q current nm" "grants h2 = grants h0"
    "\<And>v o1 h3 us'. chain h0 h3 us' (Some (head_of head q)) (Some q) \<Longrightarrow> vals h3 us' = vals h us @ [jval_of nm v] \<Longrightarrow>
       runs h0 (rest o1 h3) (rest' v o1) P"
  shows "runs h0 (do {
        (r, h) \<leftarrow> parse_value_h k c d q off h2;
        case r of
          Parsed _ o1 \<Rightarrow> rest o1 h
        | Failed o1 \<Rightarrow> parse_fail (Some (head_of head q)) o1 h
        | NoFuel \<Rightarrow> Some (NoFuel, h)
      })
     (case parse_value k c d off of Parsed v o1 \<Rightarrow> rest' v o1 | Failed o1 \<Rightarrow> Failed o1 | NoFuel \<Rightarrow> NoFuel) P"
proof -
  obtain r h3 where r: "parse_value_h k c d q off h2 = Some (r, h3)"
      "outcome h2 h3 r (parse_value k c d off) (\<lambda>_ v. \<exists>ws. filled (point_to current q h) h3 (Tree q ws) current (jval_of nm v))"
    using assms(1,4) unfolding value_parsed_def runs_def by blast
  show ?thesis
  proof (cases r)
    case (Parsed u o1)
    then obtain v ws where v: "parse_value k c d off = Parsed v o1" "filled (point_to current q h) h3 (Tree q ws) current (jval_of nm v)"
      using r(2) by auto
    from assms(6) [OF filled_chain_step [OF assms(2) v(2) assms(3)]] show ?thesis using r(1) Parsed v(1) by (simp add: runs_def)
  next
    case (Failed o1)
    then have f: "same_store h2 h3" "always h0 \<Longrightarrow> parse_value k c d off = Failed o1" using r(2) assms(5) by (auto simp: always_def)
    have "chain h0 h3 (us @ [Tree q []]) (Some (head_of head q)) (Some q)"
      using chain_same_store [OF blank_chain [OF assms(2,4,3)] f(1)] .
    from chain_delete [OF this] show ?thesis using r(1) Failed f(2) by (auto simp: runs_def parse_fail_def)
  qed (use r in \<open>auto simp: runs_def\<close>)
qed

text \<open>The allocation of the next item.\<close>

lemma new_item_loop:
  assumes "chain h0 h us head current"
    "\<And>q h2. q = next_free h \<Longrightarrow> blank (point_to current q h) h2 q current None \<Longrightarrow> grants h2 = grants h0 \<Longrightarrow> runs h0 (rest q h2) pr P"
  shows "runs h0 (case cJSON_New_Item h of
        (None, h) \<Rightarrow> parse_fail head pos h
      | (Some q, h) \<Rightarrow> do { h \<leftarrow> attach current q h; rest q h }) pr P"
proof (cases "grants h (next_free h)")
  case True
  then obtain h1 where n: "cJSON_New_Item h = (Some (next_free h), h1)" by (simp add: New_Item_cases)
  from attach_blank [OF assms(1) this] show ?thesis using assms(2) n by (auto simp: runs_def)
next
  case False
  have "heap_ok h" "grants h = grants h0" using assms(1) by (auto simp: chain_def added_def grows_def)
  then have "chain h0 (h\<lparr>next_free := next_free h + 1\<rparr>) us head current" "\<not> always h0"
    using chain_same_store [OF assms(1) same_store_tick] False by (auto simp: always_def)
  from runs_fail [OF this(1)] show ?thesis using False \<open>\<not> always h0\<close> by (simp add: New_Item_cases)
qed

lemma elements_parsed_step:
  assumes "value_parsed c k" "elements_parsed c k"
  shows "elements_parsed c (Suc k)"
  unfolding elements_parsed_def
proof (intro allI impI)
  fix d pos h0 h us head current
  assume c: "chain h0 h us head current"
  have l: "runs h0 (parse_elements_h k c d pos (Some x) (Some y) h3) (parse_elements k c d pos) (list_parsed h0 (vals h3 us') (jval_of None))"
    if "chain h0 h3 us' (Some x) (Some y)" for d pos x y h3 us'
    using assms(2) that unfolding elements_parsed_def by blast
  show "runs h0 (parse_elements_h (Suc k) c d pos head current h) (parse_elements (Suc k) c d pos) (list_parsed h0 (vals h us) (jval_of None))"
    unfolding parse_elements_h.simps Let_def
    by (subst parse_elements.simps, simp only: Let_def nat.distinct if_False diff_Suc_1)
      (intro new_item_loop [OF c] item_loop [OF assms(1) c] loop_end l)
qed

text \<open>The name of a member, and then its value.\<close>

lemma blank_grants: "chain h0 h us head current \<Longrightarrow> blank (point_to current q h) h2 q current nm \<Longrightarrow> grants h2 = grants h0"
  by (auto simp: chain_def blank_def added_def grows_def point_to_def split: option.splits)

lemma name_loop:
  assumes "chain h0 h us head current" "q = next_free h" "blank (point_to current q h) h2 q current None"
    "\<And>s o1 h3. blank (point_to current q h) h3 q current (Some s) \<Longrightarrow> runs h0 (rest o1 h3) (rest' s o1) P"
  shows "runs h0 (do {
        (r, h) \<leftarrow> parse_string_h c q off h2;
        case r of
          Parsed _ o1 \<Rightarrow> do { h \<leftarrow> upd q (\<lambda>n. n\<lparr>nd_string := nd_valuestring n, nd_valuestring := None\<rparr>) h; rest o1 h }
        | Failed o1 \<Rightarrow> parse_fail (Some (head_of head q)) o1 h
        | NoFuel \<Rightarrow> Some (NoFuel, h)
      })
     (case parse_string c off of Parsed s o1 \<Rightarrow> rest' s o1 | Failed o1 \<Rightarrow> Failed o1 | NoFuel \<Rightarrow> NoFuel) P"
proof -
  obtain r h3 where r: "parse_string_h c q off h2 = Some (r, h3)"
      "outcome h2 h3 r (parse_string c off) (\<lambda>_ s. \<exists>h4. upd q (\<lambda>n. n\<lparr>nd_string := nd_valuestring n, nd_valuestring := None\<rparr>) h3 = Some h4 \<and>
         blank (point_to current q h) h4 q current (Some s))"
    using parse_name_memory [OF assms(3)] by blast
  show ?thesis
  proof (cases r)
    case (Parsed u o1)
    then show ?thesis using r assms(4) by (auto simp: runs_def)
  next
    case (Failed o1)
    then have f: "same_store h2 h3" "always h0 \<Longrightarrow> parse_string c off = Failed o1"
      using r(2) blank_grants [OF assms(1,3)] by (auto simp: always_def)
    have "chain h0 h3 (us @ [Tree q []]) (Some (head_of head q)) (Some q)"
      using chain_same_store [OF blank_chain [OF assms(1,3,2)] f(1)] .
    from chain_delete [OF this] show ?thesis using r(1) Failed f(2) by (auto simp: runs_def parse_fail_def)
  qed (use r in \<open>auto simp: runs_def\<close>)
qed

lemma member_loop_end:
  assumes "chain h0 h us (Some x) (Some y)" "vals h us = ws @ [jval_of s v]"
    "comma \<Longrightarrow> runs h0 loop pr (list_parsed h0 (vals h us) (\<lambda>(s, v). jval_of s v))"
  shows "runs h0 (if comma then loop else if done then Some (Parsed (x, y) off, h) else parse_fail (Some x) off h)
     (if comma then (case pr of Parsed vs o' \<Rightarrow> Parsed ((s, v) # vs) o' | Failed o' \<Rightarrow> Failed o' | NoFuel \<Rightarrow> NoFuel)
      else if done then Parsed [(s, v)] off else Failed off)
     (list_parsed h0 ws (\<lambda>(s, v). jval_of s v))"
  using loop_end [OF assms(1), of ws "\<lambda>(s, v). jval_of s v" "(s, v)"] assms(2,3) by simp

lemma runs_fail_here: "chain h0 h us head current \<Longrightarrow> runs h0 (parse_fail head off h) (Failed off) P"
  by (rule runs_fail) auto

lemma members_parsed_step:
  assumes "value_parsed c k" "members_parsed c k"
  shows "members_parsed c (Suc k)"
  unfolding members_parsed_def
proof (intro allI impI)
  fix d pos h0 h us head current
  assume c: "chain h0 h us head current"
  have l: "runs h0 (parse_members_h k c d pos (Some x) (Some y) h3) (parse_members k c d pos)
      (list_parsed h0 (vals h3 us') (\<lambda>(s, v). jval_of s v))"
    if "chain h0 h3 us' (Some x) (Some y)" for d pos x y h3 us'
    using assms(2) that unfolding members_parsed_def by blast
  show "runs h0 (parse_members_h (Suc k) c d pos head current h) (parse_members (Suc k) c d pos)
     (list_parsed h0 (vals h us) (\<lambda>(s, v). jval_of s v))"
    unfolding parse_members_h.simps Let_def
    by (subst parse_members.simps, simp only: Let_def nat.distinct if_False diff_Suc_1)
      (intro new_item_loop [OF c] runs_if runs_fail_here [OF blank_chain [OF c]] name_loop [OF c] item_loop [OF assms(1) c] member_loop_end l
        blank_grants [OF c])
qed

lemma parsers_memory: "value_parsed c k \<and> elements_parsed c k \<and> members_parsed c k"
proof (induction k)
  case 0
  show ?case
    by (simp add: value_parsed_def elements_parsed_def members_parsed_def runs_def parse_value.simps parse_elements.simps parse_members.simps)
next
  case (Suc k)
  then show ?case using value_parsed_step elements_parsed_step members_parsed_step by blast
qed

section \<open>The entry points\<close>

lemma filled_built: "filled b h t None v \<Longrightarrow> built {} b h t v"
  by (simp add: filled_def built_def loose_def)

lemma parse_opts_memory:
  assumes "heap_ok h"
  shows "runs h (cJSON_ParseWithLengthOpts_h c strict h) (cJSON_ParseWithLengthOpts c strict)
     (\<lambda>h2 p v. \<exists>t. root t = p \<and> built {} h h2 t (jval_of None v))"
proof (cases "c = [] \<or> \<not> grants h (next_free h)")
  case True
  then show ?thesis
    using same_store_refl [OF assms] same_store_tick [OF assms]
    by (auto simp: runs_def cJSON_ParseWithLengthOpts_h_def cJSON_ParseWithLengthOpts_def New_Item_cases always_def)
next
  case False
  let ?p = "next_free h" and ?off = "buffer_skip_whitespace c (skip_utf8_bom c)"
  have "chain h h [] None None" using added_nothing [OF assms] by (simp add: chain_def last_root_def)
  moreover obtain h1 where n: "cJSON_New_Item h = (Some ?p, h1)" using False by (simp add: New_Item_cases)
  ultimately have b: "blank h h1 ?p None None" "grants h1 = grants h"
    using attach_blank [of h h "[]" None None ?p h1] by (auto simp: attach_def point_to_def)
  then obtain r h2 where r: "parse_value_h (parse_fuel c) c 0 ?p ?off h1 = Some (r, h2)"
      "outcome h1 h2 r (parse_value (parse_fuel c) c 0 ?off) (\<lambda>_ v. \<exists>us. filled h h2 (Tree ?p us) None (jval_of None v))"
    using parsers_memory [of c "parse_fuel c"] unfolding value_parsed_def runs_def by blast
  have fail: "runs h (parse_fail (Some ?p) off h2) pr P" if "chain h h2 us (Some ?p) (Some ?p)" "always h \<Longrightarrow> pr = Failed off"
    for us off pr and P :: "jheap \<Rightarrow> nat \<Rightarrow> cjson \<Rightarrow> bool"
    using runs_fail [OF that(1), of pr off] that(2) by blast
  have len: "c \<noteq> []" using False by simp
  show ?thesis
  proof (cases r)
    case (Parsed u off)
    then obtain v us where v: "parse_value (parse_fuel c) c 0 ?off = Parsed v off" "filled h h2 (Tree ?p us) None (jval_of None v)"
      using r(2) by auto
    have f: "runs h (parse_fail (Some ?p) off' h2) (Failed off') P" for off' and P :: "jheap \<Rightarrow> nat \<Rightarrow> cjson \<Rightarrow> bool"
      by (rule fail [OF filled_chain [OF v(2), simplified]]) simp
    have s: "runs h (Some (Parsed ?p off', h2)) (Parsed v off') (\<lambda>h2 p v. \<exists>t. root t = p \<and> built {} h h2 t (jval_of None v))" for off'
      using filled_built [OF v(2)] by (auto simp: runs_def intro: exI [of _ "Tree ?p us"])
    show ?thesis
      using len n r(1) Parsed v(1) f s by (simp add: cJSON_ParseWithLengthOpts_h_def cJSON_ParseWithLengthOpts_def Let_def)
  next
    case (Failed off)
    then have "blank h h2 ?p None None" using blank_same_store [OF b(1)] r(2) by simp
    then have c: "chain h h2 [Tree ?p []] (Some ?p) (Some ?p)"
      using blank_bodies by (auto simp: blank_def chain_def last_root_def)
    have "runs h (parse_fail (Some ?p) (min off (length c - 1)) h2) (cJSON_ParseWithLengthOpts c strict)
       (\<lambda>h2 p v. \<exists>t. root t = p \<and> built {} h h2 t (jval_of None v))"
      by (rule fail [OF c]) (use r(2) Failed len b(2) in \<open>simp add: always_def cJSON_ParseWithLengthOpts_def\<close>)
    then show ?thesis using len n r(1) Failed by (simp add: cJSON_ParseWithLengthOpts_h_def)
  next
    case NoFuel
    then show ?thesis
      using r len parse_within [of c strict] by (simp add: cJSON_ParseWithLengthOpts_def)
  qed
qed

text \<open>An item that was built is freed without a trace.\<close>

lemma built_delete:
  assumes "built K h h1 t v"
  shows "\<exists>h2. cJSON_Delete (Some (root t)) h1 = Some h2 \<and> same_store h h2"
proof -
  obtain p us where t: "t = Tree p us" by (cases t)
  have b: "added K h h1 [t]" "bodies (items h1) [t]" "loose (items h1) p" using assms t by (auto simp: built_def)
  have "half_linked (items h1) (Some p) (map root [t])" using b(3) t by (auto simp: loose_def)
  then have "forest (items h1) (Some p) [t]" using half_forest b(2) by blast
  from delete_forest [OF this] added_removed [OF b(1)] b(1) t show ?thesis by (auto simp: added_def)
qed

text \<open>
  C7: Parsing in memory is all or nothing. Whatever the text and whichever allocations fail, \<open>cJSON_Parse\<close>
  runs without undefined behaviour. Either it returns NULL and the memory is what it was; or it returns
  a new item, which shares nothing with what was there, whose links are well formed and whose contents
  are those of the value that the text denotes, and deleting this item gives the memory back. When no
  allocation fails, it returns NULL only for a text that denotes no value.\<close>

theorem parse_in_memory:
  assumes "heap_ok h"
  shows "\<exists>r h2. cJSON_Parse_h value h = Some (r, h2) \<and>
     (case r of
        None \<Rightarrow> same_store h h2
      | Some p \<Rightarrow> \<exists>v t. cJSON_Parse value = Some v \<and> root t = p \<and> built {} h h2 t (jval_of None v) \<and>
          (\<exists>h3. cJSON_Delete (Some p) h2 = Some h3 \<and> same_store h h3)) \<and>
     (always h \<longrightarrow> (r = None \<longleftrightarrow> cJSON_Parse value = None))"
proof -
  let ?pr = "cJSON_ParseWithOpts value False"
  obtain r h2 where r: "cJSON_ParseWithOpts_h value False h = Some (r, h2)"
      "outcome h h2 r ?pr (\<lambda>p v. \<exists>t. root t = p \<and> built {} h h2 t (jval_of None v))"
    using parse_opts_memory [OF assms] unfolding cJSON_ParseWithOpts_h_def cJSON_ParseWithOpts_def runs_def by blast
  have "?pr \<noteq> NoFuel" using parse_within [of "cstr value @ [CHR 0x00]" False] by (auto simp: cJSON_ParseWithOpts_def)
  then show ?thesis
  proof (cases r)
    case (Parsed p off)
    then obtain v t where v: "?pr = Parsed v off" "root t = p" "built {} h h2 t (jval_of None v)" using r(2) by auto
    then show ?thesis using r(1) Parsed built_delete [OF v(3)] by (auto simp: cJSON_Parse_h_def cJSON_Parse_def)
  qed (use r in \<open>auto simp: cJSON_Parse_h_def cJSON_Parse_def\<close>)
qed

definition empty_heap :: jheap where
  "empty_heap = \<lparr>items = Map.empty, texts = Map.empty, next_free = 0, grants = (\<lambda>n. True)\<rparr>"

theorem parse_in_memory_witness:
  "\<exists>p h2. cJSON_Parse_h ''[true]'' empty_heap = Some (Some p, h2) \<and>
     (\<exists>h3. cJSON_Delete (Some p) h2 = Some h3 \<and> items h3 = Map.empty \<and> texts h3 = Map.empty)"
proof -
  have "cJSON_Parse ''[true]'' = Some (CArray [CTrue])" by code_simp
  moreover have "heap_ok empty_heap" "always empty_heap" by (simp_all add: empty_heap_def heap_ok_def always_def)
  ultimately show ?thesis
    using parse_in_memory [of empty_heap "''[true]''"] by (auto simp: same_store_def empty_heap_def split: option.splits)
qed

end
