(* ===== verification/CJsonMemoryPrint.thy ===== *)
theory CJsonMemoryPrint
  imports CJsonMemory CJsonRoundtrip CJsonNames
begin

text \<open>
  The printer of the JSON library on items in memory, which follows the links of the items, the way
  from text to memory and back to text, and lookups in what was parsed.
\<close>

section \<open>The printer in memory\<close>

text \<open>The memory of items is only read. \<open>None\<close> is also a list with a circle, which needs more fuel than any.\<close>

definition read_text :: "nat option \<Rightarrow> jheap \<Rightarrow> string option ub" where
  "read_text s h = (case s of None \<Rightarrow> Some None | Some a \<Rightarrow> do { t \<leftarrow> texts h a; Some (Some t) })"

function print_value_h :: "nat \<Rightarrow> nat option \<Rightarrow> jheap \<Rightarrow> printbuffer \<Rightarrow> printbuffer option ub"
  and print_elements_h :: "nat \<Rightarrow> nat option \<Rightarrow> jheap \<Rightarrow> printbuffer \<Rightarrow> printbuffer option ub"
  and print_members_h :: "nat \<Rightarrow> nat option \<Rightarrow> jheap \<Rightarrow> printbuffer \<Rightarrow> printbuffer option ub" where
  "print_value_h 0 item h p = None"
| "print_value_h (Suc k) item h p =
     (case item of
        None \<Rightarrow> Some None
      | Some q \<Rightarrow> do {
          n \<leftarrow> items h q;
          let ty = nd_type n AND 0xFF in
          if ty = cJSON_NULL then emit 5 ''null'' 1 p
          else if ty = cJSON_False then emit 6 ''false'' 1 p
          else if ty = cJSON_True then emit 5 ''true'' 1 p
          else if ty = cJSON_Number then print_number (nd_valueint n) (nd_valuedouble n) p
          else if ty = cJSON_Raw then do {
            s \<leftarrow> read_text (nd_valuestring n) h;
            case s of None \<Rightarrow> Some None | Some t \<Rightarrow> emit (length t + 1) t 1 p
          }
          else if ty = cJSON_String then do { s \<leftarrow> read_text (nd_valuestring n) h; print_string_ptr s p }
          else if ty = cJSON_Array then
            (if pb_depth p \<ge> CJSON_NESTING_LIMIT then Some None
             else and_then (emit 1 ''['' 0 p) (\<lambda>p.
               and_then (print_elements_h k (nd_child n) h (p\<lparr>pb_depth := pb_depth p + 1\<rparr>)) (\<lambda>p.
               and_then (emit 2 '']'' 1 p) (\<lambda>p. Some (Some (p\<lparr>pb_depth := pb_depth p - 1\<rparr>))))))
          else if ty = cJSON_Object then
            (if pb_depth p \<ge> CJSON_NESTING_LIMIT then Some None
             else let s = (if pb_format p then [CHR 0x7B, newline] else [CHR 0x7B]) in
             and_then (emit (length s + 1) s 0 p) (\<lambda>p.
               and_then (print_members_h k (nd_child n) h (p\<lparr>pb_depth := pb_depth p + 1\<rparr>)) (\<lambda>p.
               and_then (emit (if pb_format p then pb_depth p + 1 else 2)
                    ((if pb_format p then tabs (pb_depth p - 1) else []) @ [CHR 0x7D]) 1 p)
                 (\<lambda>p. Some (Some (p\<lparr>pb_depth := pb_depth p - 1\<rparr>))))))
          else Some None
        })"
| "print_elements_h 0 current_element h p = None"
| "print_elements_h (Suc k) current_element h p =
     (case current_element of
        None \<Rightarrow> Some (Some p)
      | Some q \<Rightarrow>
          and_then (print_value_h k current_element h p) (\<lambda>p. do {
            n \<leftarrow> items h q;
            and_then (if nd_next n = None then Some (Some p)
                else let s = (if pb_format p then '', '' else '','') in emit (length s + 1) s 1 p)
              (\<lambda>p. print_elements_h k (nd_next n) h p)
          }))"
| "print_members_h 0 current_item h p = None"
| "print_members_h (Suc k) current_item h p =
     (case current_item of
        None \<Rightarrow> Some (Some p)
      | Some q \<Rightarrow>
          and_then (if pb_format p then emit (pb_depth p) (tabs (pb_depth p)) 0 p else Some (Some p)) (\<lambda>p. do {
            n \<leftarrow> items h q;
            name \<leftarrow> read_text (nd_string n) h;
            and_then (print_string_ptr name p) (\<lambda>p.
              let s = (if pb_format p then [CHR '':'', CHR 0x09] else '':'') in
            and_then (emit (length s) s 0 p) (\<lambda>p.
            and_then (print_value_h k current_item h p) (\<lambda>p. do {
              n \<leftarrow> items h q;
              let t = (if nd_next n = None then [] else '','') @ (if pb_format p then [newline] else []) in
              and_then (emit (length t + 1) t 1 p) (\<lambda>p. print_members_h k (nd_next n) h p)
            })))
          }))"
  by pat_completeness auto

termination
  by (relation "measure (\<lambda>x. case x of Inl (k, _) \<Rightarrow> k | Inr (Inl (k, _)) \<Rightarrow> k | Inr (Inr (k, _)) \<Rightarrow> k)") auto

text \<open>The public functions for an item in memory.\<close>

definition print_with_h :: "nat \<Rightarrow> (nat \<Rightarrow> bool) \<Rightarrow> bool \<Rightarrow> nat option \<Rightarrow> jheap \<Rightarrow> string option ub" where
  "print_with_h fuel grow fmt item h =
     (if \<not> grow 256 then Some None
      else case print_value_h fuel item h \<lparr>pb_text = [], pb_length = 256, pb_depth = 0, pb_noalloc = False,
              pb_format = fmt, pb_grow = grow\<rparr> of
        None \<Rightarrow> None
      | Some None \<Rightarrow> Some None
      | Some (Some p) \<Rightarrow> Some (if grow (length (pb_text p) + 1) then Some (pb_text p) else None))"

definition cJSON_Print_h :: "nat \<Rightarrow> (nat \<Rightarrow> bool) \<Rightarrow> nat option \<Rightarrow> jheap \<Rightarrow> string option ub" where
  "cJSON_Print_h fuel grow item h = print_with_h fuel grow True item h"

definition cJSON_PrintUnformatted_h :: "nat \<Rightarrow> (nat \<Rightarrow> bool) \<Rightarrow> nat option \<Rightarrow> jheap \<Rightarrow> string option ub" where
  "cJSON_PrintUnformatted_h fuel grow item h = print_with_h fuel grow False item h"

section \<open>It prints the value of the item\<close>

lemma kinds_masked [simp]:
  "(0 :: u32) AND 0xFF = 0" "cJSON_False AND 0xFF = cJSON_False" "cJSON_True AND 0xFF = cJSON_True" "cJSON_NULL AND 0xFF = cJSON_NULL"
  "cJSON_Number AND 0xFF = cJSON_Number" "cJSON_String AND 0xFF = cJSON_String" "cJSON_Raw AND 0xFF = cJSON_Raw"
  "cJSON_Array AND 0xFF = cJSON_Array" "cJSON_Object AND 0xFF = cJSON_Object"
  by (simp_all add: cJSON_False_def cJSON_True_def cJSON_NULL_def cJSON_Number_def cJSON_String_def cJSON_Raw_def cJSON_Array_def
      cJSON_Object_def)

lemma jval_plain: "plain_type (jv_type (jval_of nm v))"
  by (cases v) simp_all

lemma read_own:
  assumes "plain_type (nd_type n)" "set (own_texts n) \<subseteq> dom (texts h)"
  shows "read_text (nd_valuestring n) h = Some (text_at h (nd_valuestring n))" "read_text (nd_string n) h = Some (text_at h (nd_string n))"
  using assms(2) plain_texts(1) [OF assms(1)] by (auto simp: read_text_def text_at_def split: option.splits)

text \<open>The node of an item with a known value.\<close>

lemma node_of_value:
  assumes "items h q = Some n" "vals h [Tree q us] = [jval_of nm v]" "set (ftexts (items h) [Tree q us]) \<subseteq> dom (texts h)"
  shows "nd_type n = jv_type (jval_of nm v)" "nd_valueint n = jv_int (jval_of nm v)" "nd_valuedouble n = jv_double (jval_of nm v)"
    "read_text (nd_valuestring n) h = Some (jv_text (jval_of nm v))" "read_text (nd_string n) h = Some (jv_name (jval_of nm v))"
    "vals h us = jv_children (jval_of nm v)"
proof -
  have j: "jval_of nm v = JVal (nd_type n) (nd_valueint n) (nd_valuedouble n) (text_at h (nd_valuestring n)) (text_at h (nd_string n)) (vals h us)"
    using assms(1,2) by (simp add: Let_def)
  have "plain_type (nd_type n)" using jval_plain [of nm v] unfolding j by simp
  moreover have "set (own_texts n) \<subseteq> dom (texts h)" using assms(1,3) by simp
  ultimately show "read_text (nd_valuestring n) h = Some (jv_text (jval_of nm v))" "read_text (nd_string n) h = Some (jv_name (jval_of nm v))"
    "nd_type n = jv_type (jval_of nm v)" "nd_valueint n = jv_int (jval_of nm v)" "nd_valuedouble n = jv_double (jval_of nm v)"
    "vals h us = jv_children (jval_of nm v)"
    using read_own unfolding j by simp_all
qed

lemma and_then_cong: "r = r' \<Longrightarrow> (\<And>p. f p = f' p) \<Longrightarrow> and_then r f = and_then r' f'"
  by (simp add: and_then_def split: option.split)

lemma and_then_true: "and_then (Some (Some p)) f = f p"
  by (simp add: and_then_def)

text \<open>What the three printers do with the fuel \<open>k\<close>.\<close>

definition printed :: "jheap \<Rightarrow> nat \<Rightarrow> bool" where
  "printed h k \<longleftrightarrow> (\<forall>q n us nm v p. items h q = Some n \<longrightarrow> forest (items h) (nd_child n) us \<longrightarrow> vals h [Tree q us] = [jval_of nm v] \<longrightarrow>
     set (ftexts (items h) [Tree q us]) \<subseteq> dom (texts h) \<longrightarrow> 2 * length (faddrs [Tree q us]) \<le> k \<longrightarrow>
     print_value_h k (Some q) h p = print_value v p)"

definition elements_printed :: "jheap \<Rightarrow> nat \<Rightarrow> bool" where
  "elements_printed h k \<longleftrightarrow> (\<forall>q ts vs p. forest (items h) q ts \<longrightarrow> vals h ts = map (jval_of None) vs \<longrightarrow>
     set (ftexts (items h) ts) \<subseteq> dom (texts h) \<longrightarrow> 2 * length (faddrs ts) + 1 \<le> k \<longrightarrow>
     print_elements_h k q h p = print_elements vs p)"

definition members_printed :: "jheap \<Rightarrow> nat \<Rightarrow> bool" where
  "members_printed h k \<longleftrightarrow> (\<forall>q ts ms p. forest (items h) q ts \<longrightarrow> vals h ts = map (\<lambda>(s, v). jval_of s v) ms \<longrightarrow>
     set (ftexts (items h) ts) \<subseteq> dom (texts h) \<longrightarrow> 2 * length (faddrs ts) + 1 \<le> k \<longrightarrow>
     print_members_h k q h p = print_members ms p)"

lemma printed_step:
  assumes "elements_printed h k" "members_printed h k"
  shows "printed h (Suc k)"
  unfolding printed_def
proof (intro allI impI)
  fix q n us nm v p
  assume n: "items h q = Some n" and f: "forest (items h) (nd_child n) us" and v: "vals h [Tree q us] = [jval_of nm v]"
    and t: "set (ftexts (items h) [Tree q us]) \<subseteq> dom (texts h)" and k: "2 * length (faddrs [Tree q us]) \<le> Suc k"
  note c = node_of_value [OF n v t]
  have tu: "set (ftexts (items h) us) \<subseteq> dom (texts h)" "2 * length (faddrs us) + 1 \<le> k" using t n k by auto
  have e: "print_elements_h k (nd_child n) h p = print_elements vs p" if "v = CArray vs" for vs p
    using assms(1) f c(6) tu that unfolding elements_printed_def by simp
  have m: "print_members_h k (nd_child n) h p = print_members ms p" if "v = CObject ms" for ms p
    using assms(2) f c(6) tu that unfolding members_printed_def by simp
  show "print_value_h (Suc k) (Some q) h p = print_value v p"
    using c(1-4) e m n
    by (cases v) (simp_all add: Let_def cJSON_False_def cJSON_True_def cJSON_NULL_def cJSON_Number_def cJSON_String_def cJSON_Raw_def
        cJSON_Array_def cJSON_Object_def cong: and_then_cong, simp split: option.split)
qed

text \<open>The first item of a chain and the rest.\<close>

lemma vals_length: "length (vals h ts) = length ts"
  by (induction h ts rule: vals.induct) (auto simp: Let_def)

lemma first_item:
  assumes "forest (items h) q (Tree x us # ts)" "vals h (Tree x us # ts) = w # ws" "set (ftexts (items h) (Tree x us # ts)) \<subseteq> dom (texts h)"
    "plain_type (jv_type w)"
  obtains n where "q = Some x" "items h x = Some n" "forest (items h) (nd_child n) us" "forest (items h) (nd_next n) ts"
    "nd_next n = None \<longleftrightarrow> ts = []" "vals h [Tree x us] = [w]" "vals h ts = ws" "set (ftexts (items h) [Tree x us]) \<subseteq> dom (texts h)"
    "set (ftexts (items h) ts) \<subseteq> dom (texts h)"
proof -
  obtain n where n: "q = Some x" "items h x = Some n" "if is_reference n then us = [] else forest (items h) (nd_child n) us"
      "forest (items h) (nd_next n) ts"
    using assms(1) by auto
  have v: "vals h [Tree x us] = [w]" "vals h ts = ws" using assms(2) by (auto simp: Let_def)
  then have "nd_type n = jv_type w" using n(2) by (auto simp: Let_def)
  then have "\<not> is_reference n" using plain_flags [of n] assms(4) by simp
  moreover have "nd_next n = None \<longleftrightarrow> ts = []" using n(4) by (cases ts; cases "hd ts") auto
  ultimately show thesis using that n v assms(3) by auto
qed

lemma elements_printed_step:
  assumes "printed h k" "elements_printed h k"
  shows "elements_printed h (Suc k)"
  unfolding elements_printed_def
proof (intro allI impI)
  fix q ts vs p
  assume f: "forest (items h) q ts" and v: "vals h ts = map (jval_of None) vs" and t: "set (ftexts (items h) ts) \<subseteq> dom (texts h)"
    and k: "2 * length (faddrs ts) + 1 \<le> Suc k"
  show "print_elements_h (Suc k) q h p = print_elements vs p"
  proof (cases ts)
    case Nil
    then show ?thesis using f v by simp
  next
    case (Cons u ts')
    obtain x us where u: "u = Tree x us" by (cases u)
    obtain w ws where w: "vs = w # ws" using v Cons u by (cases vs) (auto simp: Let_def)
    obtain n where n: "q = Some x" "items h x = Some n" "forest (items h) (nd_child n) us" "forest (items h) (nd_next n) ts'"
        "nd_next n = None \<longleftrightarrow> ts' = []" "vals h [Tree x us] = [jval_of None w]" "vals h ts' = map (jval_of None) ws"
        "set (ftexts (items h) [Tree x us]) \<subseteq> dom (texts h)" "set (ftexts (items h) ts') \<subseteq> dom (texts h)"
      using first_item [of h q x us ts' "jval_of None w" "map (jval_of None) ws"] f v t jval_plain Cons u w by auto
    have "ts' = [] \<longleftrightarrow> ws = []" using arg_cong [OF n(7), of length] unfolding vals_length length_map by (metis length_0_conv)
    moreover have "print_value_h k (Some x) h p = print_value w p" for p
      using assms(1) n(2,3,6,8) k Cons u unfolding printed_def by simp
    moreover have "print_elements_h k (nd_next n) h p = print_elements ws p" for p
      using assms(2) n(4,7,9) k Cons u unfolding elements_printed_def by simp
    ultimately show ?thesis using n(1,2,5) w by (auto simp: Let_def and_then_true intro!: and_then_cong)
  qed
qed

lemma members_printed_step:
  assumes "printed h k" "members_printed h k"
  shows "members_printed h (Suc k)"
  unfolding members_printed_def
proof (intro allI impI)
  fix q ts ms p
  assume f: "forest (items h) q ts" and v: "vals h ts = map (\<lambda>(s, v). jval_of s v) ms"
    and t: "set (ftexts (items h) ts) \<subseteq> dom (texts h)" and k: "2 * length (faddrs ts) + 1 \<le> Suc k"
  show "print_members_h (Suc k) q h p = print_members ms p"
  proof (cases ts)
    case Nil
    then show ?thesis using f v by simp
  next
    case (Cons u ts')
    obtain x us where u: "u = Tree x us" by (cases u)
    obtain s w ws where w: "ms = (s, w) # ws" using v Cons u by (cases ms) (auto simp: Let_def)
    obtain n where n: "q = Some x" "items h x = Some n" "forest (items h) (nd_child n) us" "forest (items h) (nd_next n) ts'"
        "nd_next n = None \<longleftrightarrow> ts' = []" "vals h [Tree x us] = [jval_of s w]" "vals h ts' = map (\<lambda>(s, v). jval_of s v) ws"
        "set (ftexts (items h) [Tree x us]) \<subseteq> dom (texts h)" "set (ftexts (items h) ts') \<subseteq> dom (texts h)"
      using first_item [of h q x us ts' "jval_of s w" "map (\<lambda>(s, v). jval_of s v) ws"] f v t jval_plain Cons u w by auto
    have "ts' = [] \<longleftrightarrow> ws = []" using arg_cong [OF n(7), of length] unfolding vals_length length_map by (metis length_0_conv)
    moreover have "print_value_h k (Some x) h p = print_value w p" for p
      using assms(1) n(2,3,6,8) k Cons u unfolding printed_def by simp
    moreover have "print_members_h k (nd_next n) h p = print_members ws p" for p
      using assms(2) n(4,7,9) k Cons u unfolding members_printed_def by simp
    moreover have "jv_name (jval_of s w) = s" by (cases w) simp_all
    then have "read_text (nd_string n) h = Some s" using node_of_value(5) [OF n(2,6,8)] by simp
    ultimately show ?thesis using n(1,2,5) w by (auto simp: Let_def intro!: and_then_cong)
  qed
qed

lemma printers_memory: "printed h k \<and> elements_printed h k \<and> members_printed h k"
proof (induction k)
  case 0
  have "faddrs [Tree q us] \<noteq> []" for q us by simp
  then show ?case by (auto simp: printed_def elements_printed_def members_printed_def)
next
  case (Suc k)
  then show ?case using printed_step elements_printed_step members_printed_step by blast
qed

text \<open>An item that was built, with the value of \<open>v\<close>, is printed as \<open>v\<close>.\<close>

lemma print_built:
  assumes "built {} h0 h t (jval_of nm v)" "2 * length (faddrs [t]) \<le> fuel"
  shows "print_with_h fuel grow fmt (Some (root t)) h = print_with grow fmt v"
proof -
  obtain q us where t: "t = Tree q us" by (cases t)
  have b: "added {} h0 h [t]" "bodies (items h) [t]" "vals h [t] = [jval_of nm v]" using assms(1) by (simp_all add: built_def)
  obtain n where n: "items h q = Some n" "if is_reference n then us = [] else linked (items h) (nd_child n) (map root us)" "bodies (items h) us"
    using b(2) t by auto
  have "nd_type n = jv_type (jval_of nm v)" using arg_cong [OF b(3), of "\<lambda>l. jv_type (hd l)"] n(1) t by (simp add: Let_def)
  then have "\<not> is_reference n" using plain_flags [of n] jval_plain [of nm v] by simp
  then have "forest (items h) (nd_child n) us" using child_forest n(2,3) by auto
  then have "print_value_h fuel (Some q) h p = print_value v p" for p
    using printers_memory [of h fuel] n(1) b(3) added_own(2) [OF b(1)] assms(2) unfolding printed_def t by blast
  then show ?thesis by (simp add: print_with_h_def print_with_def t)
qed



section \<open>Looking up in what was parsed\<close>

lemma jv_name_of: "jv_name (jval_of nm v) = nm"
  by (cases v) simp_all

lemma find_member:
  assumes "vals h us = map (\<lambda>(k, v). jval_of k v) ms"
  shows "case find (\<lambda>(k, v). P (the k)) ms of
      None \<Rightarrow> find (\<lambda>t. P (the (jv_name (val_at h t)))) us = None
    | Some (k, v) \<Rightarrow> \<exists>u \<in> set us. find (\<lambda>t. P (the (jv_name (val_at h t)))) us = Some u \<and> vals h [u] = [jval_of k v]"
  using assms
proof (induction ms arbitrary: us)
  case Nil
  then show ?case using vals_length [of h us] by simp
next
  case (Cons m ms)
  obtain k v where m: "m = (k, v)" by (cases m)
  obtain u us' where u: "us = u # us'" using Cons.prems vals_length [of h us] by (cases us) auto
  have "vals h (u # us') = vals h [u] @ vals h us'" using vals_append [of h "[u]" us'] by simp
  moreover obtain w where w: "vals h [u] = [w]" using vals_length [of h "[u]"] by (auto simp: length_Suc_conv)
  ultimately have v: "w = jval_of k v" "vals h us' = map (\<lambda>(k, v). jval_of k v) ms" using Cons.prems u m by simp_all
  have "jv_name (val_at h u) = k" using w v(1) jv_name_of by simp
  then show ?case using Cons.IH [OF v(2)] u m w v(1) by (auto split: option.splits)
qed

text \<open>
  \<open>cJSON_GetObjectItem\<close> on an object that was parsed gives the item of the first member whose name is
  the one asked for up to case, or NULL: in memory the lookup is the one on the value.\<close>

lemma parsed_lookup:
  assumes "built {} h0 h t (jval_of nm (CObject ms))" "\<forall>(k, v) \<in> set ms. k \<noteq> None" "texts h s = Some name"
  shows "case find (\<lambda>(k, v). strcasecmp_eq name (the k)) ms of
      None \<Rightarrow> cJSON_GetObjectItem_h (Some (root t)) (Some s) h = Some None
    | Some (k, v) \<Rightarrow> \<exists>u \<in> set (subs t). cJSON_GetObjectItem_h (Some (root t)) (Some s) h = Some (Some (root u)) \<and> vals h [u] = [jval_of k v]"
proof -
  obtain q us where t: "t = Tree q us" by (cases t)
  have b: "bodies (items h) [t]" "vals h [t] = [jval_of nm (CObject ms)]" using assms(1) by (simp_all add: built_def)
  obtain n where n: "items h q = Some n" "if is_reference n then us = [] else linked (items h) (nd_child n) (map root us)"
    using b(1) t by auto
  have v: "vals h us = map (\<lambda>(k, v). jval_of k v) ms" "nd_type n = cJSON_Object" using b(2) n(1) t by (simp_all add: Let_def)
  have l: "linked (items h) (nd_child n) (map root us)" using n(2) plain_flags [of n] v(2) by simp
  have "jv_name (val_at h u) \<noteq> None" if "u \<in> set us" for u
  proof -
    have "val_at h u \<in> set (vals h us)" using that
    proof (induction us)
      case (Cons x xs)
      then show ?case using vals_append [of h "[x]" xs] vals_length [of h "[x]"] by (cases "vals h [x]") auto
    qed simp
    then show ?thesis using v(1) assms(2) by (auto simp: jv_name_of)
  qed
  then have "cJSON_GetObjectItem_h (Some q) (Some s) h =
      Some (map_option root (find (\<lambda>t. strcasecmp_eq name (the (jv_name (val_at h t)))) us))"
    using get_object_item_linked [OF n(1) l _ assms(3), of False] by (simp add: cJSON_GetObjectItem_h_def)
  then show ?thesis using find_member [OF v(1), of "strcasecmp_eq name"] t by (auto split: option.splits)
qed

end
