(* ===== verification/CJsonMinify.thy ===== *)
theory CJsonMinify
  imports CJsonRoundtrip
begin

text \<open>
  \<open>cJSON_Minify\<close>: it removes blanks and comments from a JSON text in place. The model works on the
  block of bytes that holds the text and its NUL, with the two positions of the code in it; a read or a
  write outside of the block is undefined behaviour (\<open>None\<close>), and so is a loop that does not end.
\<close>

section \<open>The code\<close>

definition read_byte :: "string \<Rightarrow> nat \<Rightarrow> char ub" where
  "read_byte b i = (if i < length b then Some (b ! i) else None)"

definition write_byte :: "string \<Rightarrow> nat \<Rightarrow> char \<Rightarrow> string ub" where
  "write_byte b i x = (if i < length b then Some (b[i := x]) else None)"

text \<open>The loops of the two functions that skip a comment, from behind its first two characters on.\<close>

partial_function (option) skip_line :: "string \<Rightarrow> nat \<Rightarrow> nat option" where
  "skip_line b i =
     do {
       x \<leftarrow> read_byte b i;
       if x = CHR 0x00 then Some i else if x = newline then Some (i + 1) else skip_line b (i + 1)
     }"

definition skip_oneline_comment :: "string \<Rightarrow> nat \<Rightarrow> nat option" where
  "skip_oneline_comment b i = skip_line b (i + 2)"

partial_function (option) skip_comment :: "string \<Rightarrow> nat \<Rightarrow> nat option" where
  "skip_comment b i =
     do {
       x \<leftarrow> read_byte b i;
       if x = CHR 0x00 then Some i
       else do {
         closed \<leftarrow> (if x = CHR ''*'' then do { y \<leftarrow> read_byte b (i + 1); Some (y = CHR ''/'') } else Some False);
         if closed then Some (i + 2) else skip_comment b (i + 1)
       }
     }"

definition skip_multiline_comment :: "string \<Rightarrow> nat \<Rightarrow> nat option" where
  "skip_multiline_comment b i = skip_comment b (i + 2)"

partial_function (option) copy_string :: "string \<Rightarrow> nat \<Rightarrow> nat \<Rightarrow> (string \<times> nat \<times> nat) option" where
  "copy_string b input output =
     do {
       x \<leftarrow> read_byte b input;
       if x = CHR 0x00 then Some (b, input, output)
       else do {
         b \<leftarrow> write_byte b output x;
         x \<leftarrow> read_byte b input;
         if x = CHR 0x22 then do { b \<leftarrow> write_byte b output (CHR 0x22); Some (b, input + 1, output + 1) }
         else do {
           escaped \<leftarrow> (if x = CHR 0x5C then do { y \<leftarrow> read_byte b (input + 1); Some (y = CHR 0x22) } else Some False);
           if escaped then do {
             y \<leftarrow> read_byte b (input + 1);
             b \<leftarrow> write_byte b (output + 1) y;
             copy_string b (input + 2) (output + 2)
           }
           else copy_string b (input + 1) (output + 1)
         }
       }
     }"

definition minify_string :: "string \<Rightarrow> nat \<Rightarrow> nat \<Rightarrow> (string \<times> nat \<times> nat) option" where
  "minify_string b input output =
     do {
       x \<leftarrow> read_byte b input;
       b \<leftarrow> write_byte b output x;
       copy_string b (input + 1) (output + 1)
     }"

partial_function (option) minify_loop :: "string \<Rightarrow> nat \<Rightarrow> nat \<Rightarrow> string option" where
  "minify_loop b json to =
     do {
       x \<leftarrow> read_byte b json;
       if x = CHR 0x00 then write_byte b to (CHR 0x00)
       else if x \<in> {CHR '' '', CHR 0x09, CHR 0x0D, CHR 0x0A} then minify_loop b (json + 1) to
       else if x = CHR ''/'' then do {
         y \<leftarrow> read_byte b (json + 1);
         json \<leftarrow> (if y = CHR ''/'' then skip_oneline_comment b json
                 else if y = CHR ''*'' then skip_multiline_comment b json else Some (json + 1));
         minify_loop b json to
       }
       else if x = CHR 0x22 then do { (b, json, to) \<leftarrow> minify_string b json to; minify_loop b json to }
       else do { b \<leftarrow> write_byte b to x; minify_loop b (json + 1) (to + 1) }
     }"

text \<open>The block of the argument; nothing happens for NULL.\<close>

definition cJSON_Minify :: "string option \<Rightarrow> string option ub" where
  "cJSON_Minify json = (case json of None \<Rightarrow> Some None | Some b \<Rightarrow> map_option Some (minify_loop b 0 0))"

section \<open>What it does to a text\<close>

fun after_line :: "string \<Rightarrow> string" where
  "after_line [] = []"
| "after_line (x # xs) = (if x = newline then xs else after_line xs)"

fun after_comment :: "string \<Rightarrow> string" where
  "after_comment [] = []"
| "after_comment (x # xs) = (if x = CHR ''*'' \<and> xs \<noteq> [] \<and> hd xs = CHR ''/'' then tl xs else after_comment xs)"

text \<open>The rest of a string with its closing quote, and what follows.\<close>

fun cut_string :: "string \<Rightarrow> string \<times> string" where
  "cut_string [] = ([], [])"
| "cut_string (x # xs) =
     (if x = CHR 0x22 then ([x], xs)
      else if x = CHR 0x5C \<and> xs \<noteq> [] \<and> hd xs = CHR 0x22
        then (let (q, r) = cut_string (tl xs) in (x # CHR 0x22 # q, r))
      else (let (q, r) = cut_string xs in (x # q, r)))"

lemma after_shorter: "length (after_line s) \<le> length s" "length (after_comment s) \<le> length s"
  by (induction s) (auto simp: le_SucI)

lemma cut_string_split: "cut_string s = (q, r) \<Longrightarrow> s = q @ r"
  by (induction s arbitrary: q r rule: cut_string.induct) (auto simp: Let_def neq_Nil_conv split: if_splits prod.splits)

function minified :: "string \<Rightarrow> string" where
  "minified [] = []"
| "minified (x # xs) =
     (if x \<in> {CHR '' '', CHR 0x09, CHR 0x0D, CHR 0x0A} then minified xs
      else if x = CHR ''/'' then
        (if xs \<noteq> [] \<and> hd xs = CHR ''/'' then minified (after_line (tl xs))
         else if xs \<noteq> [] \<and> hd xs = CHR ''*'' then minified (after_comment (tl xs)) else minified xs)
      else if x = CHR 0x22 then x # fst (cut_string xs) @ minified (snd (cut_string xs))
      else x # minified xs)"
  by pat_completeness auto

termination
proof (relation "measure length")
  show "(snd (cut_string xs), x # xs) \<in> measure length" for x and xs :: string
    using cut_string_split [of xs "fst (cut_string xs)" "snd (cut_string xs)"] by (metis (no_types) in_measure le_imp_less_Suc length_Cons length_append le_add2 prod.collapse)
qed (auto simp: neq_Nil_conv less_Suc_eq_le intro: le_trans [OF after_shorter(1)] le_trans [OF after_shorter(2)])

section \<open>The code does this in place\<close>

text \<open>
  \<open>b\<close> holds at position \<open>i\<close> the text \<open>s\<close> and its NUL, and what was written ends before \<open>i\<close>.\<close>

definition at_text :: "string \<Rightarrow> nat \<Rightarrow> string \<Rightarrow> string \<Rightarrow> bool" where
  "at_text b i s rest \<longleftrightarrow> drop i b = s @ CHR 0x00 # rest \<and> CHR 0x00 \<notin> set s"

lemma at_textD:
  assumes "at_text b i s rest"
  shows "i < length b" "read_byte b i = Some (case s of [] \<Rightarrow> CHR 0x00 | x # xs \<Rightarrow> x)"
    "s \<noteq> [] \<Longrightarrow> read_byte b (i + 1) = Some (case tl s of [] \<Rightarrow> CHR 0x00 | y # ys \<Rightarrow> y)"
proof -
  have d: "drop i b = s @ CHR 0x00 # rest" using assms by (simp add: at_text_def)
  then show i: "i < length b" by (metis drop_eq_Nil append_is_Nil_conv list.distinct(1) not_le)
  have "b ! i = hd (drop i b)" using i by (simp add: hd_drop_conv_nth)
  then show "read_byte b i = Some (case s of [] \<Rightarrow> CHR 0x00 | x # xs \<Rightarrow> x)"
    using i d by (auto simp: read_byte_def split: list.split)
  assume "s \<noteq> []"
  then obtain x xs where s: "s = x # xs" by (cases s) auto
  have t: "drop (i + 1) b = xs @ CHR 0x00 # rest" using d s by (metis append_Cons drop_next)
  then have "i + 1 < length b" by (metis drop_eq_Nil append_is_Nil_conv list.distinct(1) not_le)
  moreover have "b ! (i + 1) = hd (drop (i + 1) b)" using calculation by (simp add: hd_drop_conv_nth)
  ultimately show "read_byte b (i + 1) = Some (case tl s of [] \<Rightarrow> CHR 0x00 | y # ys \<Rightarrow> y)"
    using t s by (auto simp: read_byte_def split: list.split)
qed

lemma at_text_next: "at_text b i (s @ t) rest \<Longrightarrow> at_text b (i + length s) t rest"
  unfolding at_text_def by (auto simp: drop_more)

lemma at_text_Cons: "at_text b i (x # s) rest \<Longrightarrow> at_text b (i + 1) s rest"
  using at_text_next [of b i "[x]" s rest] by simp

text \<open>A write at or before the byte that was just read.\<close>

lemma at_text_write:
  assumes "at_text b (i + 1) s rest" "i < length b" "to \<le> i"
  shows "\<exists>b'. write_byte b to y = Some b' \<and> at_text b' (i + 1) s rest \<and> length b' = length b \<and>
     take (to + 1) b' = take to b @ [y] \<and> (y = b ! i \<longrightarrow> b' ! i = y)"
proof -
  have "to < length b" using assms by simp
  then have "take (to + 1) (b[to := y]) = take to b @ [y]" by (simp add: take_Suc_conv_app_nth)
  moreover have "drop (i + 1) (b[to := y]) = drop (i + 1) b" using assms(3) by simp
  ultimately show ?thesis
    using assms \<open>to < length b\<close> by (auto simp: write_byte_def at_text_def nth_list_update)
qed

lemma skip_line_text:
  "at_text b i s rest \<Longrightarrow> \<exists>j. skip_line b i = Some j \<and> at_text b j (after_line s) rest \<and> i \<le> j"
proof (induction s arbitrary: i)
  case Nil
  then show ?case using at_textD(2) [OF Nil] by (auto simp: skip_line.simps [of b i])
next
  case (Cons x s)
  have n: "at_text b (i + 1) s rest" by (rule at_text_Cons [OF Cons.prems])
  have "x \<noteq> CHR 0x00" using Cons.prems by (auto simp: at_text_def)
  then show ?case
    using at_textD(2) [OF Cons.prems] Cons.IH [OF n] n by (subst skip_line.simps) (auto intro: Suc_leD)
qed

lemma skip_comment_text:
  "at_text b i s rest \<Longrightarrow> \<exists>j. skip_comment b i = Some j \<and> at_text b j (after_comment s) rest \<and> i \<le> j"
proof (induction s arbitrary: i)
  case Nil
  then show ?case using at_textD(2) [OF Nil] by (auto simp: skip_comment.simps [of b i])
next
  case (Cons x s)
  have n: "at_text b (i + 1) s rest" by (rule at_text_Cons [OF Cons.prems])
  have x: "x \<noteq> CHR 0x00" "read_byte b i = Some x" using Cons.prems at_textD(2) [OF Cons.prems] by (auto simp: at_text_def)
  have y: "read_byte b (i + 1) = Some (case s of [] \<Rightarrow> CHR 0x00 | y # ys \<Rightarrow> y)"
    using at_textD(3) [OF Cons.prems] by simp
  show ?case
  proof (cases "x = CHR ''*'' \<and> s \<noteq> [] \<and> hd s = CHR ''/''")
    case True
    then obtain ys where s: "s = CHR ''/'' # ys" by (cases s) auto
    have "at_text b (i + 2) ys rest" using at_text_Cons [OF n [unfolded s]] by simp
    then show ?thesis using True x y s by (subst skip_comment.simps) auto
  next
    case False
    then have "skip_comment b i = skip_comment b (i + 1)"
      using x y by (subst skip_comment.simps) (auto split: list.splits)
    then show ?thesis using Cons.IH [OF n] False by (auto intro: Suc_leD)
  qed
qed

lemma copy_string_text:
  "at_text b i s rest \<Longrightarrow> to \<le> i \<Longrightarrow> cut_string s = (q, r) \<Longrightarrow>
     \<exists>b' j. copy_string b i to = Some (b', j, to + length q) \<and> at_text b' j r rest \<and> length b' = length b \<and>
       take (to + length q) b' = take to b @ q \<and> to + length q \<le> j"
proof (induction s arbitrary: b i to q r rule: cut_string.induct)
  case 1
  then show ?case using at_textD(2) [OF "1.prems"(1)] by (auto simp: copy_string.simps [of b i to])
next
  case (2 x s)
  note t = at_textD [OF "2.prems"(1)]
  have n: "at_text b (i + 1) s rest" by (rule at_text_Cons [OF "2.prems"(1)])
  have x: "x \<noteq> CHR 0x00" "read_byte b i = Some x" "b ! i = x"
    using "2.prems"(1) t by (auto simp: at_text_def read_byte_def)
  obtain b1 where b1: "write_byte b to x = Some b1" "at_text b1 (i + 1) s rest" "length b1 = length b"
      "take (to + 1) b1 = take to b @ [x]" "b1 ! i = x"
    using at_text_write [OF n t(1) "2.prems"(2), of x] x(3) by blast
  have r1: "read_byte b1 i = Some x" using b1(3,5) t(1) by (simp add: read_byte_def)
  consider (quote) "x = CHR 0x22" | (escaped) ys where "x = CHR 0x5C" "s = CHR 0x22 # ys"
    | (plain) "x \<noteq> CHR 0x22" "\<not> (x = CHR 0x5C \<and> s \<noteq> [] \<and> hd s = CHR 0x22)" by (cases s) auto
  then show ?case
  proof cases
    case quote
    have "write_byte b1 to x = Some b1"
      using b1(1) "2.prems"(2) t(1) by (auto simp: write_byte_def)
    then show ?thesis
      using quote x b1 r1 "2.prems" by (subst copy_string.simps) auto
  next
    case escaped
    obtain q' where q: "cut_string ys = (q', r)" "q = x # CHR 0x22 # q'"
      using "2.prems"(3) escaped by (auto simp: Let_def split: prod.splits)
    have n2: "at_text b1 (i + 1 + 1) ys rest" using at_text_Cons [OF b1(2) [unfolded escaped(2)]] .
    have l: "i + 1 < length b1" "read_byte b1 (i + 1) = Some (CHR 0x22)" using at_textD [OF b1(2)] escaped(2) by simp_all
    obtain b2 where b2: "write_byte b1 (to + 1) (CHR 0x22) = Some b2" "at_text b2 (i + 2) ys rest" "length b2 = length b"
        "take (to + 2) b2 = take to b @ [x, CHR 0x22]"
      using at_text_write [OF n2 l(1), of "to + 1" "CHR 0x22"] "2.prems"(2) b1(3,4) by auto
    obtain b3 j where b3: "copy_string b2 (i + 2) (to + 2) = Some (b3, j, to + 2 + length q')" "at_text b3 j r rest"
        "length b3 = length b2" "take (to + 2 + length q') b3 = take (to + 2) b2 @ q'" "to + 2 + length q' \<le> j"
      using "2.IH"(1) [of b2 "i + 2" "to + 2" q' r] escaped "2.prems"(2) b2(2) q(1) by auto
    have "copy_string b i to = copy_string b2 (i + 2) (to + 2)"
      using x b1(1) r1 l(2) escaped(1) b2(1) by (subst copy_string.simps) simp
    then show ?thesis using b3 b2(3,4) q(2) by auto
  next
    case plain
    obtain q' where q: "cut_string s = (q', r)" "q = x # q'"
      using "2.prems"(3) plain by (auto simp: Let_def split: prod.splits)
    obtain b3 j where b3: "copy_string b1 (i + 1) (to + 1) = Some (b3, j, to + 1 + length q')" "at_text b3 j r rest"
        "length b3 = length b1" "take (to + 1 + length q') b3 = take (to + 1) b1 @ q'" "to + 1 + length q' \<le> j"
      using "2.IH"(2) [OF _ _ b1(2) _ q(1), of "to + 1"] plain "2.prems"(2) by auto
    have "read_byte b1 (i + 1) = Some (case s of [] \<Rightarrow> CHR 0x00 | y # ys \<Rightarrow> y)" using at_textD(2) [OF b1(2)] .
    then have "copy_string b i to = copy_string b1 (i + 1) (to + 1)"
      using x b1(1) r1 plain by (subst copy_string.simps) (auto split: list.splits)
    then show ?thesis using b3 b1(3,4) q(2) by auto
  qed
qed

lemma minify_loop_text:
  "at_text b i s rest \<Longrightarrow> to \<le> i \<Longrightarrow>
     \<exists>b'. minify_loop b i to = Some b' \<and> length b' = length b \<and>
       take (to + length (minified s) + 1) b' = take to b @ minified s @ [CHR 0x00]"
proof (induction s arbitrary: b i to rule: minified.induct)
  case 1
  note t = at_textD [OF "1.prems"(1)]
  have l: "to < length b" using t(1) "1.prems"(2) by simp
  then have "take (Suc to) (b[to := CHR 0x00]) = take to b @ [CHR 0x00]" by (simp add: take_Suc_conv_app_nth)
  then show ?case using l t(2) by (auto simp: minify_loop.simps [of b i to] write_byte_def)
next
  case (2 x s)
  note t = at_textD [OF "2.prems"(1)]
  have n: "at_text b (i + 1) s rest" by (rule at_text_Cons [OF "2.prems"(1)])
  have x: "x \<noteq> CHR 0x00" "read_byte b i = Some x" using "2.prems"(1) t by (auto simp: at_text_def)
  have y: "read_byte b (i + 1) = Some (case s of [] \<Rightarrow> CHR 0x00 | y # ys \<Rightarrow> y)" using t(3) by simp
  have to1: "to \<le> i + 1" using "2.prems"(2) by simp
  have marks: "CHR ''/'' \<notin> {CHR '' '', CHR 0x09, CHR 0x0D, CHR 0x0A}" "CHR 0x22 \<notin> {CHR '' '', CHR 0x09, CHR 0x0D, CHR 0x0A}" by simp_all
  have split: "(\<exists>ys. s = CHR ''/'' # ys) \<or> (\<exists>ys. s = CHR ''*'' # ys) \<or>
      (\<not> (s \<noteq> [] \<and> hd s = CHR ''/'') \<and> \<not> (s \<noteq> [] \<and> hd s = CHR ''*''))" by (cases s) auto
  consider (blank) "x \<in> {CHR '' '', CHR 0x09, CHR 0x0D, CHR 0x0A}"
    | (line) ys where "x = CHR ''/''" "s = CHR ''/'' # ys" | (comment) ys where "x = CHR ''/''" "s = CHR ''*'' # ys"
    | (slash) "x = CHR ''/''" "\<not> (s \<noteq> [] \<and> hd s = CHR ''/'')" "\<not> (s \<noteq> [] \<and> hd s = CHR ''*'')"
    | (quote) "x = CHR 0x22"
    | (other) "x \<notin> {CHR '' '', CHR 0x09, CHR 0x0D, CHR 0x0A}" "x \<noteq> CHR ''/''" "x \<noteq> CHR 0x22"
    using split by metis
  then show ?case
  proof cases
    case blank
    then have "minify_loop b i to = minify_loop b (i + 1) to" using x by (subst minify_loop.simps) auto
    then show ?thesis using "2.IH"(1) [OF blank n to1] blank by simp
  next
    case line
    have "at_text b (i + 2) ys rest" using at_text_Cons [OF n [unfolded line]] by simp
    then obtain j where j: "skip_line b (i + 2) = Some j" "at_text b j (after_line ys) rest" "i + 2 \<le> j"
      using skip_line_text by blast
    have "minify_loop b i to = minify_loop b j to"
      using x y line j(1) by (subst minify_loop.simps) (simp add: skip_oneline_comment_def)
    then show ?thesis using "2.IH"(2) [of b j to] marks line j(2,3) "2.prems"(2) by simp
  next
    case comment
    have "at_text b (i + 2) ys rest" using at_text_Cons [OF n [unfolded comment]] by simp
    then obtain j where j: "skip_comment b (i + 2) = Some j" "at_text b j (after_comment ys) rest" "i + 2 \<le> j"
      using skip_comment_text by blast
    have "minify_loop b i to = minify_loop b j to"
      using x y comment j(1) by (subst minify_loop.simps) (simp add: skip_multiline_comment_def)
    then show ?thesis using "2.IH"(3) [of b j to] marks comment j(2,3) "2.prems"(2) by simp
  next
    case slash
    have "minify_loop b i to = minify_loop b (i + 1) to"
      using x y slash by (subst minify_loop.simps) (auto split: list.splits)
    then show ?thesis using "2.IH"(4) [OF _ slash n to1] marks slash by auto
  next
    case quote
    obtain q r where q: "cut_string s = (q, r)" by fastforce
    have bi: "b ! i = x" using x(2) t(1) by (simp add: read_byte_def)
    obtain b1 where b1: "write_byte b to x = Some b1" "at_text b1 (i + 1) s rest" "length b1 = length b"
        "take (to + 1) b1 = take to b @ [x]"
      using at_text_write [OF n t(1) "2.prems"(2), of x] by blast
    obtain b2 j where b2: "copy_string b1 (i + 1) (to + 1) = Some (b2, j, to + 1 + length q)" "at_text b2 j r rest"
        "length b2 = length b1" "take (to + 1 + length q) b2 = take (to + 1) b1 @ q" "to + 1 + length q \<le> j"
      using copy_string_text [OF b1(2) _ q, of "to + 1"] "2.prems"(2) by auto
    have "minify_loop b i to = minify_loop b2 j (to + 1 + length q)"
      using x quote b1(1) b2(1) by (subst minify_loop.simps) (simp add: minify_string_def)
    moreover obtain b3 where "minify_loop b2 j (to + 1 + length q) = Some b3" "length b3 = length b2"
        "take (to + 1 + length q + length (minified r) + 1) b3 = take (to + 1 + length q) b2 @ minified r @ [CHR 0x00]"
      using "2.IH"(5) [of b2 j "to + 1 + length q"] marks quote q b2(2,5) by auto
    ultimately show ?thesis using q quote b1(3,4) b2(3,4) by (auto simp: algebra_simps)
  next
    case other
    obtain b1 where b1: "write_byte b to x = Some b1" "at_text b1 (i + 1) s rest" "length b1 = length b"
        "take (to + 1) b1 = take to b @ [x]"
      using at_text_write [OF n t(1) "2.prems"(2), of x] by blast
    have "minify_loop b i to = minify_loop b1 (i + 1) (to + 1)" using x other b1(1) by (subst minify_loop.simps) simp
    moreover obtain b3 where "minify_loop b1 (i + 1) (to + 1) = Some b3" "length b3 = length b1"
        "take (to + 1 + length (minified s) + 1) b3 = take (to + 1) b1 @ minified s @ [CHR 0x00]"
      using "2.IH"(6) [OF other(1,2,3) b1(2), of "to + 1"] "2.prems"(2) by auto
    ultimately show ?thesis using other b1(3,4) by auto
  qed
qed

section \<open>Formatted and unformatted text\<close>

text \<open>The strings that are copied as they are: a text that ends in a backslash is not.\<close>

definition ends_plain :: "string \<Rightarrow> bool" where
  "ends_plain s \<longleftrightarrow> s \<noteq> [] \<longrightarrow> last s \<noteq> CHR 0x5C"

fun plain_strings :: "cjson \<Rightarrow> bool" where
  "plain_strings (CString s) \<longleftrightarrow> (case s of None \<Rightarrow> True | Some t \<Rightarrow> ends_plain t)"
| "plain_strings (CArray vs) \<longleftrightarrow> (\<forall>v \<in> set vs. plain_strings v)"
| "plain_strings (CObject ms) \<longleftrightarrow> (\<forall>(k, v) \<in> set ms. (case k of None \<Rightarrow> True | Some t \<Rightarrow> ends_plain t) \<and> plain_strings v)"
| "plain_strings v \<longleftrightarrow> True"

lemma control_char_shape: "\<forall>k \<in> set [0..<32].
    let e = escape_char (char_of k) in
    e \<noteq> [] \<and> hd e = CHR 0x5C \<and> tl e \<noteq> [] \<and> CHR 0x22 \<notin> set e \<and> CHR 0x5C \<notin> set (tl e)"
  by code_simp

lemma escape_char_shape:
  assumes "x \<noteq> CHR 0x22" "x \<noteq> CHR 0x5C"
  obtains (plain) "escape_char x = [x]"
  | (escaped) y ys where "escape_char x = CHR 0x5C # y # ys" "CHR 0x22 \<notin> set (y # ys)" "CHR 0x5C \<notin> set (y # ys)"
proof (cases "(of_char x :: nat) < 32")
  case True
  then have "of_char x \<in> set [0..<32]" by simp
  from bspec [OF control_char_shape this] show thesis
    unfolding Let_def char_of_char using escaped by (cases "escape_char x"; cases "tl (escape_char x)") auto
next
  case False
  then show thesis using plain assms by (simp add: escape_char_def)
qed

lemma cut_string_plain: "CHR 0x22 \<notin> set s \<Longrightarrow> CHR 0x5C \<notin> set s \<Longrightarrow> cut_string (s @ t) = (s @ fst (cut_string t), snd (cut_string t))"
  by (induction s) (auto simp: Let_def split: prod.split)

lemma escape_char_marks: "escape_char (CHR 0x22) = [CHR 0x5C, CHR 0x22]" "escape_char (CHR 0x5C) = [CHR 0x5C, CHR 0x5C]"
  by (simp_all add: escape_char_def)

lemma hd_escape_char: "escape_char x \<noteq> [] \<and> hd (escape_char x) \<noteq> CHR 0x22"
  by (cases "x = CHR 0x22 \<or> x = CHR 0x5C") (auto simp: escape_char_def elim: escape_char_shape)

lemma cut_escaped:
  "ends_plain s \<Longrightarrow> cut_string (concat (map escape_char s) @ CHR 0x22 # post) = (concat (map escape_char s) @ [CHR 0x22], post)"
proof (induction s)
  case (Cons x s)
  have e: "ends_plain s" using Cons.prems by (auto simp: ends_plain_def split: if_splits)
  note ih = Cons.IH [OF e]
  consider "x = CHR 0x22" | "x = CHR 0x5C" | "x \<noteq> CHR 0x22" "x \<noteq> CHR 0x5C" by blast
  then show ?case
  proof cases
    case 1
    then show ?thesis using ih by (simp add: escape_char_marks)
  next
    case 2
    then obtain y ys where s: "s = y # ys" using Cons.prems by (cases s) (auto simp: ends_plain_def)
    then have "hd (concat (map escape_char s) @ CHR 0x22 # post) \<noteq> CHR 0x22" using hd_escape_char [of y] by simp
    then show ?thesis using 2 ih by (simp add: escape_char_marks)
  next
    case 3
    then show ?thesis
    proof (cases rule: escape_char_shape)
      case plain
      then show ?thesis using ih 3 by simp
    next
      case (escaped y ys)
      let ?r = "concat (map escape_char s) @ CHR 0x22 # post"
      have "cut_string (CHR 0x5C # (y # ys) @ ?r) = (CHR 0x5C # fst (cut_string ((y # ys) @ ?r)), snd (cut_string ((y # ys) @ ?r)))"
        using escaped(2) by (auto simp del: cut_string.simps simp: cut_string.simps(2) [of "CHR 0x5C"] Let_def case_prod_beta)
      then show ?thesis unfolding cut_string_plain [OF escaped(2,3)] ih using escaped(1) by simp
    qed
  qed
qed simp

lemma minified_quoted: "ends_plain s \<Longrightarrow> minified (quoted s @ post) = quoted s @ minified post"
  using cut_escaped [of s post] by (simp add: quoted_def)

lemma minified_blank: "set w \<subseteq> {CHR '' '', CHR 0x09, CHR 0x0D, CHR 0x0A} \<Longrightarrow> minified (w @ post) = minified post"
  by (induction w) auto

lemma minified_plain:
  "set s \<inter> {CHR '' '', CHR 0x09, CHR 0x0D, CHR 0x0A, CHR ''/'', CHR 0x22} = {} \<Longrightarrow> minified (s @ post) = s @ minified post"
  by (induction s) auto

lemma number_char_plain: "is_number_char x \<Longrightarrow> x \<notin> {CHR '' '', CHR 0x09, CHR 0x0D, CHR 0x0A, CHR ''/'', CHR 0x22}"
  by (auto simp: is_number_char_def isdigit_def)

lemma minified_number:
  assumes "carried (CNumber i x)"
  shows "minified (render fmt d (CNumber i x) @ post) = render False d (CNumber i x) @ minified post"
proof -
  obtain n where n: "number_text i x = dec_of_int n" using render_number [OF assms, of fmt d] by auto
  have "set (dec_of_int n) \<inter> {CHR '' '', CHR 0x09, CHR 0x0D, CHR 0x0A, CHR ''/'', CHR 0x22} = {}"
    using dec_of_int_chars(1) [of n] number_char_plain by blast
  then show ?thesis using minified_plain n by simp
qed

lemma tabs_blank: "minified (tabs d @ post) = minified post"
  by (rule minified_blank) (auto simp: tabs_def)

lemma minified_marks:
  "minified (CHR ''['' # s) = CHR ''['' # minified s" "minified (CHR '']'' # s) = CHR '']'' # minified s"
  "minified (CHR 0x7B # s) = CHR 0x7B # minified s" "minified (CHR 0x7D # s) = CHR 0x7D # minified s"
  "minified (CHR '','' # s) = CHR '','' # minified s" "minified (CHR '':'' # s) = CHR '':'' # minified s"
  "minified (CHR '' '' # s) = minified s" "minified (CHR 0x09 # s) = minified s" "minified (newline # s) = minified s"
  by (simp_all add: newline_def)

lemma minified_render:
  "plain_strings v \<Longrightarrow> carried v \<Longrightarrow> minified (render fmt d v @ post) = render False d v @ minified post"
  "\<forall>v \<in> set vs. plain_strings v \<and> carried v \<Longrightarrow> minified (render_elements fmt d vs @ post) = render_elements False d vs @ minified post"
  "\<forall>(k, v) \<in> set ms. (case k of None \<Rightarrow> True | Some t \<Rightarrow> ends_plain t) \<and> plain_strings v \<and> carried v \<Longrightarrow>
     minified (render_members fmt d ms @ post) = render_members False d ms @ minified post"
proof (induction fmt d v and fmt d vs and fmt d ms arbitrary: post and post and post
    rule: render_render_elements_render_members.induct)
  case (5 fmt d i x)
  then show ?case using minified_number by blast
next
  case (6 fmt d s)
  have "ends_plain (case s of None \<Rightarrow> [] | Some t \<Rightarrow> t)" using 6 by (auto simp: ends_plain_def split: option.splits)
  then show ?case using minified_quoted by simp
next
  case (8 fmt d vs)
  then show ?case by (simp add: minified_marks del: minified.simps)
next
  case (9 fmt d ms)
  have "\<forall>(k, v) \<in> set ms. (case k of None \<Rightarrow> True | Some t \<Rightarrow> ends_plain t) \<and> plain_strings v \<and> carried v"
    using 9 by fastforce
  note ih = "9.IH" [OF this]
  show ?case
  proof (cases fmt)
    case True
    then show ?thesis using ih [unfolded eqTrueI [OF True]] by (simp add: minified_marks tabs_blank del: minified.simps)
  next
    case False
    then show ?thesis using ih [of "CHR 0x7D # post"] by (simp add: minified_marks del: minified.simps)
  qed
next
  case (11 fmt d v vs)
  show ?case
  proof (cases "vs = []")
    case False
    then show ?thesis using 11 by (cases fmt) (simp_all add: minified_marks del: minified.simps)
  qed (use 11 in simp)
next
  case (13 fmt d k v ms)
  have "ends_plain (case k of None \<Rightarrow> [] | Some t \<Rightarrow> t)" using "13.prems" by (auto simp: ends_plain_def split: option.splits)
  note q = minified_quoted [OF this]
  have ih: "minified (render fmt d v @ post) = render False d v @ minified post"
      "minified (render_members fmt d ms @ post) = render_members False d ms @ minified post" for post
    using 13 by auto
  show ?case
  proof (cases fmt)
    case True
    note ih [unfolded eqTrueI [OF True]]
    then show ?thesis using True by (cases "ms = []") (simp_all add: minified_marks q tabs_blank del: minified.simps render.simps)
  next
    case False
    then show ?thesis using ih by (cases "ms = []") (simp_all add: minified_marks q del: minified.simps render.simps)
  qed
qed simp_all

section \<open>Properties\<close>

lemma minify_block:
  assumes "CHR 0x00 \<notin> set s"
  shows "\<exists>b'. cJSON_Minify (Some (s @ CHR 0x00 # rest)) = Some (Some b') \<and> length b' = length s + length rest + 1 \<and>
     take (length (minified s) + 1) b' = minified s @ [CHR 0x00]"
proof -
  have "at_text (s @ CHR 0x00 # rest) 0 s rest" using assms by (simp add: at_text_def)
  from minify_loop_text [OF this order_refl] show ?thesis by (auto simp: cJSON_Minify_def)
qed

lemma minified_shorter: "length (minified s) \<le> length s"
proof (induction s rule: minified.induct)
  case (2 x s)
  have c: "length (fst (cut_string s)) + length (snd (cut_string s)) = length s"
    using cut_string_split [of s] by (metis length_append prod.collapse)
  have l: "length (after_line (tl s)) \<le> length s" "length (after_comment (tl s)) \<le> length s"
    using after_shorter [of "tl s"] by (auto intro: le_trans)
  consider "x \<in> {CHR '' '', CHR 0x09, CHR 0x0D, CHR 0x0A}" | "x = CHR ''/''" | "x = CHR 0x22"
    | "x \<notin> {CHR '' '', CHR 0x09, CHR 0x0D, CHR 0x0A}" "x \<noteq> CHR ''/''" "x \<noteq> CHR 0x22" by blast
  then show ?case
  proof cases
    case 1
    then show ?thesis using "2.IH"(1) by simp
  next
    case 2
    then show ?thesis using "2.IH"(2-4) l by (fastforce intro: le_SucI le_trans)
  next
    case 3
    then show ?thesis using "2.IH"(5) c by simp
  next
    case 4
    then show ?thesis using "2.IH"(6) by simp
  qed
qed simp

text \<open>
  Minifying in place never leaves the block and computes a function of the text. For any text and
  whatever is behind its NUL, \<open>cJSON_Minify\<close> ends without undefined behaviour, although it writes
  into the block it still reads; the block then starts with the text without blanks and comments outside
  of strings, as \<open>minified\<close> defines it on lists, and a NUL, and that text is not longer than the old one.\<close>

lemma minify_in_place:
  assumes "CHR 0x00 \<notin> set s"
  shows "\<exists>b'. cJSON_Minify (Some (s @ CHR 0x00 # rest)) = Some (Some b') \<and> length b' = length s + length rest + 1 \<and>
     take (length (minified s) + 1) b' = minified s @ [CHR 0x00] \<and> length (minified s) \<le> length s"
  using minify_block [OF assms] minified_shorter by blast

lemma minify_in_place_witness:
  "\<exists>b'. cJSON_Minify (Some (''[1, 2]'' @ CHR 0x00 # [])) = Some (Some b') \<and>
     take (length ''[1,2]'' + 1) b' = ''[1,2]'' @ [CHR 0x00]"
proof -
  have m: "minified ''[1, 2]'' = ''[1,2]''" by simp
  have "CHR 0x00 \<notin> set ''[1, 2]''" by simp
  from minify_in_place [OF this, of "[]"] show ?thesis unfolding m by blast
qed



text \<open>
  A string that ends in a backslash makes the minifier lose its place. The escaped backslash before
  the closing quote is taken for an escaped quote, so the string seems to go on, and what is inside and
  outside of strings is swapped from there: the blank inside the next string is removed. The array of
  the two strings \<open>\\<close> and \<open>a b\<close>, printed without formatting, becomes the text of another array.\<close>

lemma minify_misreads_backslash:
  "\<exists>s t b'. cJSON_PrintUnformatted (\<lambda>n. True) (CArray [CString (Some [CHR 0x5C]), CString (Some ''a b'')]) = Some (Some s) \<and>
     cJSON_PrintUnformatted (\<lambda>n. True) (CArray [CString (Some [CHR 0x5C]), CString (Some ''ab'')]) = Some (Some t) \<and>
     cJSON_Minify (Some (s @ [CHR 0x00])) = Some (Some b') \<and> take (length t + 1) b' = t @ [CHR 0x00]"
proof -
  let ?a = "CArray [CString (Some [CHR 0x5C]), CString (Some ''a b'')]" and ?b = "CArray [CString (Some [CHR 0x5C]), CString (Some ''ab'')]"
  have r: "render False 0 ?a = ''['' @ [CHR 0x22, CHR 0x5C, CHR 0x5C, CHR 0x22] @ '','' @ [CHR 0x22] @ ''a b'' @ [CHR 0x22] @ '']''"
      "render False 0 ?b = ''['' @ [CHR 0x22, CHR 0x5C, CHR 0x5C, CHR 0x22] @ '','' @ [CHR 0x22] @ ''ab'' @ [CHR 0x22] @ '']''"
    by (simp_all add: quoted_def escape_char_def)
  have m: "minified (render False 0 ?a) = render False 0 ?b" unfolding r by simp
  have p: "cJSON_PrintUnformatted (\<lambda>n. True) ?a = Some (Some (render False 0 ?a))" "cJSON_PrintUnformatted (\<lambda>n. True) ?b = Some (Some (render False 0 ?b))"
    unfolding cJSON_PrintUnformatted_def
    by (intro print_total; simp add: CJSON_NESTING_LIMIT_def INT_MAX_def quoted_def escape_char_def)+
  have "CHR 0x00 \<notin> set (render False 0 ?a)" unfolding r by simp
  from minify_block [OF this, of "[]"] show ?thesis unfolding m using p by blast
qed

end
