(* ===== verification/CJsonTyped.thy ===== *)
theory CJsonTyped
  imports CJsonTotal
begin

text \<open>
  The items that the parser builds: a type for them, and the proof that every text the parser accepts
  gives an item of this type.
\<close>

text \<open>
  An item at a nesting depth: of a known kind, a number with the \<open>valueint\<close> of its \<open>valuedouble\<close> and
  not NaN, a text that is a C string, members with names, and no more nesting than allowed.\<close>

definition c_text :: "string option \<Rightarrow> bool" where
  "c_text s \<longleftrightarrow> (case s of None \<Rightarrow> False | Some t \<Rightarrow> CHR 0x00 \<notin> set t)"

fun json_typed :: "nat \<Rightarrow> cjson \<Rightarrow> bool" where
  "json_typed d CInvalid \<longleftrightarrow> False"
| "json_typed d (CNumber i x) \<longleftrightarrow> i = saturate x \<and> x \<noteq> NaN"
| "json_typed d (CString s) \<longleftrightarrow> c_text s"
| "json_typed d (CRaw s) \<longleftrightarrow> False"
| "json_typed d (CArray vs) \<longleftrightarrow> d < CJSON_NESTING_LIMIT \<and> (\<forall>v \<in> set vs. json_typed (d + 1) v)"
| "json_typed d (CObject ms) \<longleftrightarrow> d < CJSON_NESTING_LIMIT \<and> (\<forall>(k, v) \<in> set ms. c_text k \<and> json_typed (d + 1) v)"
| "json_typed d v \<longleftrightarrow> True"

definition cJSON_ParseWithLength :: "string \<Rightarrow> cjson option" where
  "cJSON_ParseWithLength b = (case cJSON_ParseWithLengthOpts b False of Parsed item _ \<Rightarrow> Some item | _ \<Rightarrow> None)"

lemma c_text_parsed: "parse_string c off = Parsed s off' \<Longrightarrow> c_text (Some s)"
  by (auto simp: parse_string_def Let_def c_text_def cstr_def dest: set_takeWhileD split: if_splits option.splits sum.splits)

lemma strtod_number: "strtod s = Some (x, r) \<Longrightarrow> x \<noteq> NaN"
  by (auto simp: strtod_def round_double_def Let_def split: if_splits prod.splits option.splits)

lemma number_typed: "parse_number c off = Parsed v off' \<Longrightarrow> json_typed d v"
  by (auto simp: parse_number_def Let_def dest: strtod_number split: option.splits)

lemma parsers_typed:
  "(\<forall>d off v off'. parse_value n c d off = Parsed v off' \<longrightarrow> json_typed d v) \<and>
   (\<forall>d pos vs off'. parse_elements n c d pos = Parsed vs off' \<longrightarrow> (\<forall>v \<in> set vs. json_typed d v)) \<and>
   (\<forall>d pos ms off'. parse_members n c d pos = Parsed ms off' \<longrightarrow> (\<forall>(k, v) \<in> set ms. c_text k \<and> json_typed d v))"
proof (induction n)
  case 0
  show ?case by (simp add: parse_value.simps parse_elements.simps parse_members.simps)
next
  case (Suc n)
  have v: "json_typed d v" if "parse_value n c d off = Parsed v off'" for d off v off' using Suc that by blast
  have e: "\<forall>v \<in> set vs. json_typed d v" if "parse_elements n c d pos = Parsed vs off'" for d pos vs off' using Suc that by blast
  have m: "\<forall>(k, v) \<in> set ms. c_text k \<and> json_typed d v" if "parse_members n c d pos = Parsed ms off'" for d pos ms off'
    using Suc that by blast
  have "json_typed d v" if "parse_value (Suc n) c d off = Parsed v off'" for d off v off'
    using that
    by (subst (asm) parse_value.simps)
      (auto simp: Let_def dest: c_text_parsed number_typed e m split: if_splits presult.splits)
  moreover have "\<forall>v \<in> set vs. json_typed d v" if "parse_elements (Suc n) c d pos = Parsed vs off'" for d pos vs off'
    using that by (subst (asm) parse_elements.simps) (auto simp: Let_def dest!: v e split: if_splits presult.splits)
  moreover have "\<forall>(k, v) \<in> set ms. c_text k \<and> json_typed d v" if "parse_members (Suc n) c d pos = Parsed ms off'" for d pos ms off'
    using that
    by (subst (asm) parse_members.simps) (auto simp: Let_def dest!: c_text_parsed v m split: if_splits presult.splits)
  ultimately show ?case by blast
qed

text \<open>
  C14: The parser builds well typed items only. Whatever bytes it is given, and whether or not it insists
  on a NUL behind the value, an item that it returns contains no invalid and no raw item, its numbers
  are not NaN and carry the saturated integer of their double, its strings and the names of its members
  are texts without a NUL inside, every member has a name, and it is not nested deeper than the limit.\<close>

theorem parse_well_typed:
  "case cJSON_ParseWithLengthOpts c require_null_terminated of Parsed item off \<Rightarrow> json_typed 0 item | _ \<Rightarrow> True"
proof -
  have "json_typed 0 item" if "cJSON_ParseWithLengthOpts c require_null_terminated = Parsed item off" for item off
    using that parsers_typed [of "parse_fuel c" c]
    by (auto simp: cJSON_ParseWithLengthOpts_def Let_def split: if_splits presult.splits)
  then show ?thesis by (cases "cJSON_ParseWithLengthOpts c require_null_terminated") auto
qed

end
