(* ===== verification/CJsonGlobals.thy ===== *)
theory CJsonGlobals
  imports CJsonTyped CJsonCompare
begin

text \<open>
  What is left of \<open>cJSON.c\<close>: the global state of the library (the functions it allocates with and the
  error position of the last parse), its version, and the macros of \<open>cJSON.h\<close> that set an item.
\<close>

section \<open>The memory functions\<close>

text \<open>A function pointer is a value of the type \<open>'f\<close>; \<open>None\<close> is NULL.\<close>

record 'f internal_hooks =
  hook_allocate :: 'f
  hook_deallocate :: 'f
  hook_reallocate :: "'f option"

definition global_hooks :: "'f \<Rightarrow> 'f \<Rightarrow> 'f \<Rightarrow> 'f internal_hooks" where
  "global_hooks malloc free realloc = \<lparr>hook_allocate = malloc, hook_deallocate = free, hook_reallocate = Some realloc\<rparr>"

text \<open>The argument is NULL or the pair of \<open>malloc_fn\<close> and \<open>free_fn\<close>; the result is the new \<open>global_hooks\<close>.\<close>

definition cJSON_InitHooks :: "'f \<Rightarrow> 'f \<Rightarrow> 'f \<Rightarrow> ('f option \<times> 'f option) option \<Rightarrow> 'f internal_hooks" where
  "cJSON_InitHooks malloc free realloc hooks =
     (case hooks of
        None \<Rightarrow> \<lparr>hook_allocate = malloc, hook_deallocate = free, hook_reallocate = Some realloc\<rparr>
      | Some (malloc_fn, free_fn) \<Rightarrow>
          let allocate = (case malloc_fn of None \<Rightarrow> malloc | Some f \<Rightarrow> f);
              deallocate = (case free_fn of None \<Rightarrow> free | Some f \<Rightarrow> f)
          in \<lparr>hook_allocate = allocate, hook_deallocate = deallocate,
              hook_reallocate = (if allocate = malloc \<and> deallocate = free then Some realloc else None)\<rparr>)"

text \<open>\<open>run\<close> is what a call of a function pointer with an argument does.\<close>

definition cJSON_malloc :: "('f \<Rightarrow> 'a \<Rightarrow> 'r) \<Rightarrow> 'f internal_hooks \<Rightarrow> 'a \<Rightarrow> 'r" where
  "cJSON_malloc run hooks sz = run (hook_allocate hooks) sz"

definition cJSON_free :: "('f \<Rightarrow> 'a \<Rightarrow> 'r) \<Rightarrow> 'f internal_hooks \<Rightarrow> 'a \<Rightarrow> 'r" where
  "cJSON_free run hooks obj = run (hook_deallocate hooks) obj"

text \<open>
  Whatever hooks are installed, \<open>realloc\<close> is used exactly with the blocks of its own \<open>malloc\<close> and
  \<open>free\<close>; and the hooks the library starts with are those of a reset.\<close>

lemma realloc_only_with_malloc:
  "hook_reallocate (cJSON_InitHooks malloc free realloc hooks) = Some realloc \<longleftrightarrow>
     hook_allocate (cJSON_InitHooks malloc free realloc hooks) = malloc \<and>
     hook_deallocate (cJSON_InitHooks malloc free realloc hooks) = free"
  by (auto simp: cJSON_InitHooks_def Let_def split: option.split)

lemma init_hooks_reset:
  "cJSON_InitHooks malloc free realloc None = global_hooks malloc free realloc"
  "cJSON_InitHooks malloc free realloc (Some (None, None)) = global_hooks malloc free realloc"
  by (simp_all add: cJSON_InitHooks_def global_hooks_def)

section \<open>The error position\<close>

text \<open>
  \<open>global_error\<close>: the text of the last parse and a position in it; NULL and 0 unless that parse failed
  on a text. A pointer is a text and a position.\<close>

definition global_error_after :: "string \<Rightarrow> 'a presult \<Rightarrow> string option \<times> nat" where
  "global_error_after value r = (case r of Failed off \<Rightarrow> (Some value, off) | _ \<Rightarrow> (None, 0))"

definition cJSON_GetErrorPtr :: "string option \<times> nat \<Rightarrow> (string \<times> nat) option" where
  "cJSON_GetErrorPtr e = (case e of (None, off) \<Rightarrow> None | (Some value, off) \<Rightarrow> Some (value, off))"

text \<open>The pointer is NULL exactly after a parse that succeeded, and else it points into the text or at its NUL.\<close>

lemma error_ptr_inside:
  "case cJSON_GetErrorPtr (global_error_after value (cJSON_ParseWithOpts value strict)) of
     None \<Rightarrow> \<exists>item off. cJSON_ParseWithOpts value strict = Parsed item off
   | Some (v, off) \<Rightarrow> v = value \<and> off \<le> length (cstr value)"
  using parse_within [of "cstr value @ [CHR 0x00]" strict]
  by (cases "cJSON_ParseWithOpts value strict")
    (auto simp: cJSON_GetErrorPtr_def global_error_after_def cJSON_ParseWithOpts_def)

section \<open>The version\<close>

definition CJSON_VERSION_MAJOR :: nat where "CJSON_VERSION_MAJOR = 1"
definition CJSON_VERSION_MINOR :: nat where "CJSON_VERSION_MINOR = 7"
definition CJSON_VERSION_PATCH :: nat where "CJSON_VERSION_PATCH = 19"

definition version_size :: nat where "version_size = 15"

text \<open>\<open>None\<close> is a write behind the end of the static buffer.\<close>

definition cJSON_Version :: "string ub" where
  "cJSON_Version =
     (let s = dec_of_nat CJSON_VERSION_MAJOR @ ''.'' @ dec_of_nat CJSON_VERSION_MINOR @ ''.'' @ dec_of_nat CJSON_VERSION_PATCH
      in if length s < version_size then Some s else None)"

lemma version_fits: "cJSON_Version = Some ''1.7.19''"
  by code_simp

section \<open>Setting an item\<close>

definition cJSON_SetBoolValue :: "nat option \<Rightarrow> bool \<Rightarrow> jheap \<Rightarrow> (u32 \<times> jheap) ub" where
  "cJSON_SetBoolValue obj boolValue h =
     (case obj of
        None \<Rightarrow> Some (cJSON_Invalid, h)
      | Some p \<Rightarrow> do {
          n \<leftarrow> items h p;
          if nd_type n AND (cJSON_False OR cJSON_True) = 0 then Some (cJSON_Invalid, h)
          else
            let ty = (nd_type n AND NOT (cJSON_False OR cJSON_True)) OR (if boolValue then cJSON_True else cJSON_False)
            in do { h \<leftarrow> upd p (\<lambda>n. n\<lparr>nd_type := ty\<rparr>) h; Some (ty, h) }
        })"

definition cJSON_SetIntValue :: "nat option \<Rightarrow> int \<Rightarrow> jheap \<Rightarrow> (int \<times> jheap) ub" where
  "cJSON_SetIntValue obj number h =
     (case obj of
        None \<Rightarrow> Some (number, h)
      | Some p \<Rightarrow> do { h \<leftarrow> upd p (\<lambda>n. n\<lparr>nd_valuedouble := Fin (of_int number), nd_valueint := number\<rparr>) h; Some (number, h) })"

text \<open>A boolean item reads back as what it was set to, with its flags kept; another kind is not changed.\<close>

lemma and_mask_swap: "(x AND m) AND k = (x AND k) AND m" for x :: u32
  by (simp only: and.assoc and.commute [of m k])

lemma set_bool_value:
  assumes "items h p = Some n" "nd_type n AND 0xFF \<in> {cJSON_False, cJSON_True}"
  shows "\<exists>ty h'. cJSON_SetBoolValue (Some p) b h = Some (ty, h') \<and> cJSON_IsTrue (Some p) h' = Some b \<and>
     cJSON_IsFalse (Some p) h' = Some (\<not> b)"
proof -
  define ty where "ty = (nd_type n AND NOT (cJSON_False OR cJSON_True)) OR (if b then cJSON_True else cJSON_False)"
  have k: "nd_type n AND (cJSON_False OR cJSON_True) \<noteq> 0"
  proof
    assume z: "nd_type n AND (cJSON_False OR cJSON_True) = 0"
    have "nd_type n AND (cJSON_False OR cJSON_True) = (nd_type n AND 0xFF) AND (cJSON_False OR cJSON_True)"
      by (simp add: and.assoc cJSON_False_def cJSON_True_def)
    then show False using assms(2) z by (auto simp: cJSON_False_def cJSON_True_def)
  qed
  have "ty AND 0xFF = ((nd_type n AND 0xFF) AND NOT (cJSON_False OR cJSON_True)) OR (if b then cJSON_True else cJSON_False)"
    unfolding ty_def bit.conj_disj_distrib2
    by (intro arg_cong2 [where f = "(OR)"]) (rule and_mask_swap, simp add: cJSON_False_def cJSON_True_def)
  then have "ty AND 0xFF = (if b then cJSON_True else cJSON_False)"
    using assms(2) by (auto simp: cJSON_False_def cJSON_True_def)
  moreover have "cJSON_SetBoolValue (Some p) b h = Some (ty, h\<lparr>items := (items h)(p \<mapsto> n\<lparr>nd_type := ty\<rparr>)\<rparr>)"
    using assms(1) k by (simp add: cJSON_SetBoolValue_def Let_def ty_def upd_def)
  ultimately show ?thesis
    by (simp add: cJSON_IsTrue_def cJSON_IsFalse_def has_kind_def) (simp add: cJSON_True_def cJSON_False_def)
qed

lemma set_int_value:
  assumes "items h p = Some n" "nd_type n AND 0xFF = cJSON_Number"
  shows "\<exists>h'. cJSON_SetIntValue (Some p) i h = Some (i, h') \<and> cJSON_GetNumberValue (Some p) h' = Some (Fin (of_int i))"
  using assms by (simp add: cJSON_SetIntValue_def upd_def cJSON_GetNumberValue_def cJSON_IsNumber_h_def has_kind_def)

end
