(* ===== verification/Shutdown.thy ===== *)
theory Shutdown
  imports Server
begin

text \<open>
  The end of the server: the loop of \<open>reaper_worker\<close> with its stop flag (\<open>server/src/reaper.c\<close>), the
  loop of \<open>main\<close> that waits for a signal, and what \<open>main\<close> does after it.
\<close>

section \<open>The thread of the reaper\<close>

text \<open>
  The flag is another thread's: \<open>stop n\<close> is what the \<open>n\<close>-th load of it gives. A second of sleep is a
  step of the others, who may do to the shared state what they want. The loop that sleeps has its
  number of turns; the results are the number of loads so far and the state.\<close>

fun reaper_wait :: "(nat \<Rightarrow> bool) \<Rightarrow> (nat \<Rightarrow> 'k world \<Rightarrow> 'k world) \<Rightarrow> nat \<Rightarrow> nat \<Rightarrow> 'k world \<Rightarrow> nat \<times> 'k world" where
  "reaper_wait stop others 0 n w = (n, w)"
| "reaper_wait stop others (Suc k) n w =
     (if stop n then (Suc n, w) else reaper_wait stop others k (Suc n) (others n w))"

text \<open>A pass with undefined behaviour is \<open>None\<close>, and so is a worker that never ends.\<close>

partial_function (option) reaper_worker ::
  "'k env \<Rightarrow> (nat \<Rightarrow> bool) \<Rightarrow> (nat \<Rightarrow> 'k world \<Rightarrow> 'k world) \<Rightarrow> nat \<Rightarrow> 'k world \<Rightarrow> (nat \<times> 'k world) option" where
  "reaper_worker E stop others n w =
     (if stop n then Some (Suc n, w)
      else do {
        w \<leftarrow> reaper_pass E w;
        case reaper_wait stop others (nat (session_reap_interval_seconds (config w))) (Suc n) w of
          (n, w) \<Rightarrow> reaper_worker E stop others n w
      })"

text \<open>The loop of \<open>main\<close>: \<open>keep_running n\<close> is the flag at its \<open>n\<close>-th test, and a sleep lies between two tests.\<close>

partial_function (option) main_loop :: "(nat \<Rightarrow> bool) \<Rightarrow> (nat \<Rightarrow> 'k world \<Rightarrow> 'k world) \<Rightarrow> nat \<Rightarrow> 'k world \<Rightarrow> 'k world option" where
  "main_loop keep_running others n w =
     (if keep_running n then main_loop keep_running others (Suc n) (others n w) else Some w)"

text \<open>\<open>reaper_stop\<close> sets the flag, so that \<open>stop\<close> is true from some load on, and waits for the worker.\<close>

definition reaper_stop :: "'k env \<Rightarrow> (nat \<Rightarrow> bool) \<Rightarrow> (nat \<Rightarrow> 'k world \<Rightarrow> 'k world) \<Rightarrow> nat \<Rightarrow> 'k world \<Rightarrow> 'k world option" where
  "reaper_stop E stop others n w = map_option snd (reaper_worker E stop others n w)"

text \<open>
  The end of \<open>main\<close>: the reaper is stopped, then the requests are, the database is closed (its content
  stays) and the pool is given back.\<close>

definition server_exit :: "'k env \<Rightarrow> (nat \<Rightarrow> bool) \<Rightarrow> (nat \<Rightarrow> 'k world \<Rightarrow> 'k world) \<Rightarrow> nat \<Rightarrow> 'k world \<Rightarrow> 'k world option" where
  "server_exit E stop others n w =
     do { w \<leftarrow> reaper_stop E stop others n w; Some (w\<lparr>pool := ip_pool_destroy (pool w)\<rparr>) }"

section \<open>It stops\<close>

lemma reaper_wait_bounded:
  assumes "stop N" "n \<le> N" "reaper_wait stop others k n w = (m, w')" "\<And>i v. I v \<Longrightarrow> I (others i v)" "I w"
  shows "n \<le> m \<and> m \<le> Suc N \<and> I w'"
  using assms(2,3,5)
proof (induction k arbitrary: n w)
  case (Suc k)
  show ?case
  proof (cases "stop n")
    case True
    then show ?thesis using Suc.prems by auto
  next
    case False
    then have "n \<noteq> N" using assms(1) by auto
    then show ?thesis using Suc.IH [of "Suc n" "others n w"] Suc.prems False assms(4) by auto
  qed
qed auto

lemma reaper_pass_ok:
  assumes "world_ok w" "sql_reliable E" "clock_monotone E" "scan_ok E"
  obtains w' where "reaper_pass E w = Some w'" "world_ok w'"
proof -
  obtain todo w1 where snap: "reap_snapshot E w = (todo, w1)" by fastforce
  have s: "quiet w w1" "distinct (map sess_id todo)" "\<forall>s \<in> set todo. doomed E w1 s"
    using snapshot_outcome [OF assms(1,3,4) snap] by auto
  show thesis
    using reap_all_outcome [OF quiet_ok [OF s(1) assms(1)] assms(2) s(2,3)] snap that by (auto simp: reaper_pass_def)
qed

lemma reaper_worker_ends:
  assumes "world_ok w" "sql_reliable E" "clock_monotone E" "scan_ok E"
    "\<And>i v. world_ok v \<Longrightarrow> world_ok (others i v)"
    "stop N" "\<And>i j. stop i \<Longrightarrow> i \<le> j \<Longrightarrow> stop j" "n \<le> Suc N"
  shows "\<exists>m w'. reaper_worker E stop others n w = Some (m, w') \<and> m \<le> N + 2 \<and> world_ok w'"
  using assms(1,8)
proof (induction "Suc N - n" arbitrary: n w rule: less_induct)
  case less
  show ?case
  proof (cases "stop n")
    case True
    then show ?thesis using less.prems by (subst reaper_worker.simps) auto
  next
    case False
    then have n: "n < N" using assms(6,7) by (metis linorder_not_less)
    obtain w1 where w1: "reaper_pass E w = Some w1" "world_ok w1"
      using reaper_pass_ok [OF less.prems(1) assms(2-4)] by blast
    obtain m w2 where w2: "reaper_wait stop others (nat (session_reap_interval_seconds (config w1))) (Suc n) w1 = (m, w2)"
      by fastforce
    have m: "Suc n \<le> m \<and> m \<le> Suc N \<and> world_ok w2"
      using reaper_wait_bounded [OF assms(6) _ w2, of world_ok] n w1(2) assms(5) by simp
    then have "Suc N - m < Suc N - n" "world_ok w2" "m \<le> Suc N" using n by auto
    from less.hyps [OF this] obtain m' w' where "reaper_worker E stop others m w2 = Some (m', w')" "m' \<le> N + 2" "world_ok w'"
      by blast
    then show ?thesis using False w1(1) w2 by (subst reaper_worker.simps) simp
  qed
qed



text \<open>The loop of \<open>main\<close> ends with the first test after a signal, and then the whole server does.\<close>

lemma main_loop_ends:
  assumes "\<not> keep_running N" "n \<le> N" "world_ok w" "\<And>i v. world_ok v \<Longrightarrow> world_ok (others i v)"
  shows "\<exists>w'. main_loop keep_running others n w = Some w' \<and> world_ok w'"
  using assms(2,3)
proof (induction "N - n" arbitrary: n w)
  case 0
  then show ?case using assms(1) by (subst main_loop.simps) simp
next
  case (Suc d)
  then show ?case
    using Suc.hyps(1) [of "Suc n" "others n w"] assms(4) by (subst main_loop.simps) (auto simp: less_eq_Suc_le)
qed

text \<open>The server ends after its signal: the pool is given back, and the database is what the last pass left.\<close>

lemma server_exits:
  assumes "world_ok w" "sql_reliable E" "clock_monotone E" "scan_ok E"
    "\<And>i v. world_ok v \<Longrightarrow> world_ok (others i v)"
    "\<not> keep_running M" "k \<le> M" "stop N" "\<And>i j. stop i \<Longrightarrow> i \<le> j \<Longrightarrow> stop j" "n \<le> Suc N"
  shows "\<exists>w1 w2. main_loop keep_running others k w = Some w1 \<and> server_exit E stop others n w1 = Some w2 \<and>
     bitmap (pool w2) = None \<and> db_ok (store w2)"
proof -
  obtain w1 where w1: "main_loop keep_running others k w = Some w1" "world_ok w1"
    using main_loop_ends [of keep_running M k w others] assms by blast
  obtain m w2 where "reaper_worker E stop others n w1 = Some (m, w2)" "world_ok w2"
    using reaper_worker_ends [of w1 E others stop N n] w1(2) assms by blast
  then show ?thesis using w1(1) by (auto simp: server_exit_def reaper_stop_def ip_pool_destroy_def world_ok_def)
qed

end
