(* ===== verification/Spec2Isabelle.thy ===== *)
theory Spec2Isabelle
  imports WinLink CJsonFaults CJsonCompare CJsonMemoryPrint CJsonMinify CJsonGlobals Shutdown
begin

text \<open>
  Auth-WG: a control plane for WireGuard. A server gives accounts a temporary tunnel address and
  keys after a login over HTTP and takes them back after a logout or when the session has expired;
  clients for Linux and Windows log in, configure the tunnel and renew the session.

  \<^bold>\<open>The parts and their theories.\<close>

    \<^item> \<open>Prelude\<close>: machine types, collections of facts, lemmas on lists and options. \<open>CLib\<close>: the C functions
      on strings, numbers and addresses. \<open>CDouble\<close>: the C type \<open>double\<close> with \<open>strtod\<close> and \<open>%g\<close>.
    \<^item> Server: \<open>IpPool\<close> (\<open>server/src/ip_pool.c\<close>), \<open>RateLimit\<close> (the login failure table of
      \<open>api_handlers.c\<close>), \<open>Database\<close> (\<open>db.c\<close>), \<open>Config\<close> (\<open>config.c\<close>), \<open>WgKey\<close> (the key texts of
      \<open>third_party/wireguard.c\<close>), \<open>WgCtl\<close> (\<open>wg_ctl.c\<close>), \<open>Auth\<close> (\<open>auth.c\<close> and the services outside), \<open>Json\<close> (JSON
      values), \<open>Handlers\<close> (\<open>api_handlers.c\<close>), \<open>Sessions\<close> (what the handlers keep and do),
      \<open>Server\<close> (\<open>reaper.c\<close>, \<open>main.c\<close> and the two threads), \<open>Shutdown\<close> (the stop of both), \<open>RenewRace\<close> (a run in which the
      threads get in each other's way), \<open>AddUser\<close> (\<open>add_user.c\<close>).
    \<^item> Linux client: \<open>ClientApi\<close> (\<open>client/src/client_api.c\<close>), \<open>ClientWg\<close> (\<open>client_wg.c\<close>), \<open>ClientMain\<close> (\<open>main.c\<close>).
    \<^item> Windows client: \<open>WinClient\<close> (\<open>windows/client/src/authwg.cpp\<close>, \<open>win_http.cpp\<close>).
    \<^item> JSON library (\<open>windows/client/src/cJSON.c\<close>): \<open>CJson\<close> (parser), \<open>CJsonTotal\<close> (it ends), \<open>CJsonTyped\<close> (what it builds),
      \<open>CJsonPrint\<close> (printer), \<open>CJsonRoundtrip\<close>, \<open>CJsonMinify\<close>; the items in memory: \<open>CJsonHeap\<close> (all functions),
      \<open>CJsonLinks\<close> (sibling lists), \<open>CJsonTrees\<close> (ownership and deletion), \<open>CJsonEdits\<close> (editing arrays),
      \<open>CJsonCopy\<close> (copying, arrays of values), \<open>CJsonObjects\<close> and \<open>CJsonNames\<close> (creating, naming, finding), \<open>CJsonFaults\<close>
      (where memory is misused), \<open>CJsonCompare\<close> (comparing), \<open>CJsonMemory\<close> (the parser with its
      allocations), \<open>CJsonMemoryPrint\<close> (the printer along the links), \<open>CJsonGlobals\<close> (hooks, error position, version, setters).
    \<^item> The parts together: \<open>EndToEnd\<close> (Linux client and server), \<open>Wire\<close> (with the JSON library between them), \<open>WinLink\<close> (the same for
      the Windows client).

  \<^bold>\<open>State and operations.\<close> The static variables of the server are the record \<open>world\<close>: configuration,
  failure table, pool, database, kernel, cached key, and counters of the calls made to the clock, to
  SQLite and to the random generator. A handler is one function from the state to the answer and
  the state, with every early return of the code. \<open>None\<close> (type \<open>ub\<close>) is undefined behaviour in C: a NULL
  or freed pointer, an access outside a buffer, an uninitialised value. The API thread and the reaper
  thread interleave in the relation \<open>server_step\<close>: a request is one step, and so are the reading of
  the expired sessions and the closing of each of them. The Linux client has its token file, kernel and network; the
  Windows client the record \<open>win_client\<close> and the relation \<open>win_step\<close>. The JSON library is modelled twice: on values,
  which the programs and the parser and printer need, and on the record \<open>jheap\<close> of items and strings under addresses,
  where every allocation may fail; \<open>vals\<close> reads a value off the memory.

  \<^bold>\<open>What is shown.\<close>

    \<^item> Pool: the bitmap implements a set of used addresses, allocation gives the first free one outside the exclusion (locales
      \<open>bit_array\<close>, \<open>address_pool\<close>).
    \<^item> Sessions: the invariant \<open>world_ok\<close> (pool and tables agree; locale \<open>lease_book\<close> extends \<open>address_pool\<close>) is kept by every
      handler and every step of the reaper, so live sessions never share an address; who can open, close and extend a session; a
      pass of the reaper revokes what has expired; the reaper thread and the server stop when told to.
    \<^item> Limits and formats: the lock after five failures, ranges of the configuration, round trips of
      configuration, static peers and key texts (locale \<open>key_codec\<close>), only harmless commands.
    \<^item> Clients: the tunnel is the one the reply describes; a renewal thread that wakes up in time keeps the session
      alive; the status of the Windows client is true.
    \<^item> JSON on values: the parser ends and builds well typed items, the printer stays in its buffer, both
      are inverse to each other, minifying the formatted text gives the unformatted one.
    \<^item> JSON in memory: edits of linked items are edits of lists (locale \<open>simulation\<close>), the parser
      builds the item of the value or gives back all memory, copies are equal, share nothing and compare equal
      to the original, what is stored under a name is found under it (locales \<open>name_search\<close>,
      \<open>item_creator\<close>), and deletion frees all and only what an item owns.
    \<^item> The whole: a login of either client against the server, with the JSON library on both sides, ends with a configuration that
      describes the new session.
    \<^item> Where the programs go wrong: two live sessions with one address after a renewal that meets the
      reaper, texts of the server that run in a shell or add lines to a tunnel file, a password that is no string, an excluded host that stays
      in the pool, a lock that is lost, a replaced JSON member whose name is read after it was freed, and others.

  \<^bold>\<open>Assumptions.\<close> What is not under the repository's control is an argument: SQLite (\<open>sql\<close>, \<open>scan\<close>; \<open>sql_reliable\<close>
  says that no statement fails, \<open>scan_ok\<close> that a scan delivers each row once), the clock (\<open>clock_monotone\<close>), libsodium
  (\<open>services_ok\<close>: lengths of keys and that its base64 texts are read back; \<open>pwhash_ok\<close>: a hash verifies its password), libmicrohttpd (the sequence
  of calls of the router), libcurl, WinHTTP, netlink, the shell and the file system. Where the server and the Linux client use
  the JSON library of the system, the code in the repository stands for it. Every property with such a hypothesis has a witness
  in which it holds.

  \<^bold>\<open>Loops.\<close> Loops over data are structural recursion. The parser has the fuel \<open>parse_fuel\<close>, two calls for every byte
  and two more, which is shown to be enough. Loops over links may run forever on a circle and are
  \<open>partial_function (option)\<close> or have fuel: the copy needs two calls for every item, the comparison one for every item of
  both, and the theorems say so. The probing of the failure table is bounded by eight slots as in the code.

  \<^bold>\<open>Not modelled.\<close> Log lines and the wrappers around libsodium (\<open>server/src/util.c\<close>); wiping and freeing of memory in the server and the
  clients (the JSON library's is modelled); netlink messages and Curve25519 of the third-party \<open>wireguard.c\<close>; numbers read in a locale other than C; the
  form of the Windows client (\<open>windows-ui\<close>), a caller of the exported functions; build files and containers.
\<close>

end
